(* ===== verification/Prelude.thy ===== *)
theory Prelude
  imports Main "HOL-Library.Word"
begin

unbundle bit_operations_syntax

text \<open>
  Shared vocabulary of the development: machine integers and raw bytes as the C++ code uses
  them (\<open>uint64_t\<close>, \<open>uint32_t\<close>, \<open>unsigned char\<close>), the C library's \<open>memcmp\<close>, the
  little-endian layout that \<open>memcpy\<close> of an integer produces on the x86-64 targets of the
  server, and the result type of operations that may raise.
\<close>

section \<open>Machine types\<close>

type_synonym byte = "8 word"
type_synonym u32 = "32 word"
type_synonym u64 = "64 word"

text \<open>Lemma collections used by the component theories.\<close>

named_theorems byte_simps \<open>byte layout of machine integers\<close>
named_theorems result_simps \<open>results of operations that may raise\<close>

lemma word_less_inc [simp]: "w \<noteq> - 1 \<Longrightarrow> w < w + (1 :: 'a::len word)"
  using inc_less_eq_self_iff_eq [of w] by (simp add: linorder_not_le [symmetric])

section \<open>Results of operations that may raise\<close>

text \<open>
  \<open>Inl e\<close> is the exception (\<open>uassert\<close>, \<open>massert\<close>, \<open>verify\<close>, \<open>fassert\<close>) with its code, or undefined
  behaviour of C++; \<open>Inr x\<close> is the normal result.
\<close>

datatype failure =
    UserAssertion nat   \<comment> \<open>\<open>uassert\<close>/\<open>uasserted\<close> with its message id\<close>
  | MsgAssertion nat    \<comment> \<open>\<open>massert\<close>/\<open>msgasserted\<close> with its message id\<close>
  | VerifyFailed        \<comment> \<open>\<open>verify\<close>: an \<open>AssertionException\<close>\<close>
  | Fatal nat           \<comment> \<open>\<open>fassert\<close>: the process aborts\<close>
  | UndefinedBehaviour  \<comment> \<open>a cast, an overflow or an access the language leaves undefined\<close>

type_synonym 'a result = "failure + 'a"

fun bind_result :: "'e + 'a \<Rightarrow> ('a \<Rightarrow> 'e + 'b) \<Rightarrow> 'e + 'b" where
  "bind_result (Inl e) f = Inl e"
| "bind_result (Inr x) f = f x"

definition guardE :: "bool \<Rightarrow> 'e \<Rightarrow> 'e + unit" where
  "guardE b e = (if b then Inr () else Inl e)"

lemma guardE_simps [simp, result_simps]:
  "guardE True e = Inr ()" "guardE False e = Inl e"
  by (simp_all add: guardE_def)

lemma bind_result_eq_Inr [result_simps]:
  "bind_result r f = Inr y \<longleftrightarrow> (\<exists>x. r = Inr x \<and> f x = Inr y)"
  by (cases r) auto

lemma bind_result_eq_Inl [result_simps]:
  "bind_result r f = Inl e \<longleftrightarrow> r = Inl e \<or> (\<exists>x. r = Inr x \<and> f x = Inl e)"
  by (cases r) auto

lemma bind_result_assoc: "bind_result (bind_result r f) g = bind_result r (\<lambda>x. bind_result (f x) g)"
  by (cases r) simp_all

lemma guardE_eq_Inr [result_simps]: "guardE b e = Inr u \<longleftrightarrow> b"
  by (simp add: guardE_def)

lemma guardE_eq_Inl [result_simps]: "guardE b e = Inl e' \<longleftrightarrow> \<not> b \<and> e' = e"
  by (auto simp: guardE_def)

section \<open>Raw bytes\<close>

text \<open>
  \<open>memcmp\<close> over two buffers of the same length: the sign of the difference at the first
  differing byte, bytes read as \<open>unsigned char\<close>.  (The C standard fixes only the sign.)
\<close>

fun memcmp :: "byte list \<Rightarrow> byte list \<Rightarrow> int" where
  "memcmp (x # xs) (y # ys) =
     (if x < y then -1 else if y < x then 1 else memcmp xs ys)"
| "memcmp _ _ = 0"

text \<open>The number a buffer denotes when its first byte is the most significant one.\<close>

fun be_val :: "byte list \<Rightarrow> nat" where
  "be_val [] = 0"
| "be_val (b # bs) = unat b * 256 ^ length bs + be_val bs"

text \<open>Little-endian layout of an integer, as \<open>memcpy\<close> of it writes and as a cast pointer reads.\<close>

fun le_bytes :: "nat \<Rightarrow> 'a::len word \<Rightarrow> byte list" where
  "le_bytes 0 x = []"
| "le_bytes (Suc n) x = ucast x # le_bytes n (drop_bit 8 x)"

fun le_word :: "byte list \<Rightarrow> 'a::len word" where
  "le_word [] = 0"
| "le_word (b # bs) = ucast b OR push_bit 8 (le_word bs)"

lemma memcmp_refl [simp]: "memcmp xs xs = 0"
  by (induction xs) auto

lemma memcmp_range: "memcmp xs ys \<in> {-1, 0, 1}"
  by (induction xs ys rule: memcmp.induct) auto

lemma memcmp_antisym: "length xs = length ys \<Longrightarrow> memcmp ys xs = - memcmp xs ys"
  by (induction xs ys rule: memcmp.induct) auto

lemma memcmp_eq_0: "length xs = length ys \<Longrightarrow> memcmp xs ys = 0 \<longleftrightarrow> xs = ys"
  by (induction xs ys rule: memcmp.induct) auto

lemma be_val_append: "be_val (xs @ ys) = be_val xs * 256 ^ length ys + be_val ys"
  by (induction xs) (simp_all add: algebra_simps power_add)

lemma be_val_bound: "be_val bs < 256 ^ length bs"
proof (induction bs)
  case Nil
  then show ?case by simp
next
  case (Cons b bs)
  have "unat b < 256"
    using unsigned_less [of b, where ?'a = nat] by simp
  then have "unat b \<le> 255" by simp
  then have "unat b * 256 ^ length bs \<le> 255 * 256 ^ length bs"
    by (rule mult_le_mono1)
  then have "unat b * 256 ^ length bs + be_val bs < 255 * 256 ^ length bs + 256 ^ length bs"
    using Cons by linarith
  then show ?case by simp
qed

lemma be_val_lex:
  assumes "unat x < unat y" "length xs = length ys"
  shows "be_val (x # xs) < be_val (y # ys)"
proof -
  have "unat x * 256 ^ length xs + 256 ^ length xs \<le> unat y * 256 ^ length xs"
    using assms(1) mult_le_mono1 [of "Suc (unat x)" "unat y" "256 ^ length xs"] by simp
  then have "unat x * 256 ^ length xs + be_val xs < unat y * 256 ^ length xs"
    using be_val_bound [of xs] by linarith
  with assms(2) show ?thesis by simp
qed

text \<open>On buffers of equal length, \<open>memcmp\<close> orders them by the big-endian number they denote.\<close>

lemma memcmp_be_val:
  assumes "length xs = length ys"
  shows "memcmp xs ys = sgn (int (be_val xs) - int (be_val ys))"
  using assms
proof (induction xs ys rule: memcmp.induct)
  case (1 x xs y ys)
  then have len: "length xs = length ys" by simp
  consider "x < y" | "y < x" | "x = y" by (meson less_linear)
  then show ?case
  proof cases
    case 1
    then have "unat x < unat y" by (simp add: word_less_nat_alt)
    from be_val_lex [OF this len] have "int (be_val (x # xs)) < int (be_val (y # ys))" by (simp only: of_nat_less_iff)
    with 1 show ?thesis by (simp del: be_val.simps(2))
  next
    case 2
    then have "unat y < unat x" by (simp add: word_less_nat_alt)
    from be_val_lex [OF this len [symmetric]] have "int (be_val (y # ys)) < int (be_val (x # xs))" by (simp only: of_nat_less_iff)
    with 2 show ?thesis by (simp del: be_val.simps(2) add: order_less_imp_not_less)
  next
    case 3
    with "1.IH" len show ?thesis by simp
  qed
qed auto

lemma length_le_bytes [simp, byte_simps]: "length (le_bytes n x) = n"
  by (induction n arbitrary: x) auto

lemma nth_le_bytes [byte_simps]: "i < n \<Longrightarrow> le_bytes n x ! i = ucast (drop_bit (8 * i) x)"
proof (induction n arbitrary: x i)
  case 0
  then show ?case by simp
next
  case (Suc n)
  then show ?case
    by (cases i) (simp_all add: drop_bit_drop_bit add.commute)
qed

lemma le_word_le_bytes: "le_word (le_bytes n x) = take_bit (8 * n) (x :: 'a::len word)"
proof (induction n arbitrary: x)
  case 0
  then show ?case by simp
next
  case (Suc n)
  have "bit (ucast (ucast x :: byte) OR push_bit 8 (take_bit (8 * n) (drop_bit 8 x)) :: 'a word) i
      \<longleftrightarrow> bit (take_bit (8 * Suc n) x) i" if "i < LENGTH('a)" for i
    using that by (cases "i < 8") (auto simp: bit_simps)
  then show ?case
    by (auto simp: Suc.IH intro!: bit_word_eqI)
qed

lemma le_word_le_bytes_64 [simp, byte_simps]: "le_word (le_bytes 8 x) = (x :: u64)"
  using take_bit_word_eq_self [of 64 x] by (simp add: le_word_le_bytes)

lemma le_word_le_bytes_32 [simp, byte_simps]: "le_word (le_bytes 4 x) = (x :: u32)"
  using take_bit_word_eq_self [of 32 x] by (simp add: le_word_le_bytes)

lemma unat_ucast_byte: "unat (ucast x :: byte) = unat x mod 256"
  by (simp add: unsigned_ucast_eq take_bit_eq_mod unsigned_take_bit_eq)

lemma be_val_rev_le_bytes: "be_val (rev (le_bytes n x)) = unat x mod 256 ^ n"
proof (induction n arbitrary: x)
  case 0
  then show ?case by simp
next
  case (Suc n)
  have "be_val (rev (le_bytes (Suc n) x)) = (unat (drop_bit 8 x) mod 256 ^ n) * 256 + unat x mod 256"
    by (simp add: be_val_append Suc.IH unat_ucast_byte)
  also have "unat (drop_bit 8 x) = unat x div 256"
    by (simp only: unat_drop_bit_eq) (simp add: drop_bit_eq_div)
  also have "(unat x div 256) mod 256 ^ n * 256 + unat x mod 256 = unat x mod 256 ^ Suc n"
    using mod_mult2_eq [of "unat x" 256 "256 ^ n"] by simp
  finally show ?case .
qed

lemma be_val_rev_le_bytes_64 [byte_simps]: "be_val (rev (le_bytes 8 x)) = unat (x :: u64)"
  using unsigned_less [of x, where ?'a = nat] by (simp add: be_val_rev_le_bytes)

end
