(* ===== verification/Gtid.thy ===== *)
theory Gtid
  imports Prelude
begin

unbundle bit_operations_syntax

text \<open>
  Global transaction identifiers and the GTID manager of a replica-set member
  (\<open>db/gtid.h\<close>, \<open>db/gtid.cpp\<close>): the comparison and binary format of a GTID, and
  the manager's sets of live and unapplied GTIDs with their cached minima.
\<close>

section \<open>GTID\<close>

datatype gtid = GTID (primarySeqNo: u64) (GTSeqNo: u64)

definition gtid_cmp :: "gtid \<Rightarrow> gtid \<Rightarrow> int" where
  "gtid_cmp a b =
     (if primarySeqNo a \<noteq> primarySeqNo b
      then (if primarySeqNo a < primarySeqNo b then -1 else 1)
      else if GTSeqNo a = GTSeqNo b then 0
      else if GTSeqNo a < GTSeqNo b then -1 else 1)"

definition GTID_default :: gtid where
  "GTID_default = GTID 0 0"

definition GTID_MAX :: gtid where
  "GTID_MAX = GTID (- 1) (- 1)"

definition gtid_inc :: "gtid \<Rightarrow> gtid" where
  "gtid_inc g = GTID (primarySeqNo g) (GTSeqNo g + 1)"

definition gtid_inc_primary :: "gtid \<Rightarrow> gtid" where
  "gtid_inc_primary g = GTID (primarySeqNo g + 1) 0"

definition gtid_isInitial :: "gtid \<Rightarrow> bool" where
  "gtid_isInitial g \<longleftrightarrow> primarySeqNo g = 0"

definition GTIDBinarySize :: nat where
  "GTIDBinarySize = 2 * 8"

definition SWAP64 :: "u64 \<Rightarrow> u64" where
  "SWAP64 x =
     (drop_bit 56 (x AND 0xff00000000000000)) OR
     (drop_bit 40 (x AND 0x00ff000000000000)) OR
     (drop_bit 24 (x AND 0x0000ff0000000000)) OR
     (drop_bit 8 (x AND 0x000000ff00000000)) OR
     (push_bit 8 (x AND 0x00000000ff000000)) OR
     (push_bit 24 (x AND 0x0000000000ff0000)) OR
     (push_bit 40 (x AND 0x000000000000ff00)) OR
     (push_bit 56 (x AND 0x00000000000000ff))"

definition serializeBinaryData :: "gtid \<Rightarrow> byte list" where
  "serializeBinaryData g =
     le_bytes 8 (SWAP64 (primarySeqNo g)) @ le_bytes 8 (SWAP64 (GTSeqNo g))"

text \<open>
  The constructor from \<open>const char*\<close> reads 16 bytes through the pointer; \<open>None\<close> is the
  out-of-bounds read of a shorter buffer.
\<close>

definition GTID_of_binData :: "byte list \<Rightarrow> gtid option" where
  "GTID_of_binData bs =
     (if length bs < 16 then None
      else Some (GTID (SWAP64 (le_word (take 8 bs))) (SWAP64 (le_word (take 8 (drop 8 bs))))))"

instantiation gtid :: linorder
begin

definition less_eq_gtid :: "gtid \<Rightarrow> gtid \<Rightarrow> bool" where
  "less_eq_gtid a b \<longleftrightarrow> gtid_cmp a b \<le> 0"

definition less_gtid :: "gtid \<Rightarrow> gtid \<Rightarrow> bool" where
  "less_gtid a b \<longleftrightarrow> gtid_cmp a b < 0"

instance
proof
  fix x y z :: gtid
  show "x < y \<longleftrightarrow> x \<le> y \<and> \<not> y \<le> x"
    by (cases x; cases y) (auto simp: less_eq_gtid_def less_gtid_def gtid_cmp_def)
  show "x \<le> x"
    by (cases x) (auto simp: less_eq_gtid_def gtid_cmp_def)
  show "x \<le> y \<Longrightarrow> y \<le> z \<Longrightarrow> x \<le> z"
    by (cases x; cases y; cases z) (auto simp: less_eq_gtid_def gtid_cmp_def split: if_splits)
  show "x \<le> y \<Longrightarrow> y \<le> x \<Longrightarrow> x = y"
    by (cases x; cases y) (auto simp: less_eq_gtid_def gtid_cmp_def split: if_splits)
  show "x \<le> y \<or> y \<le> x"
    by (cases x; cases y) (auto simp: less_eq_gtid_def gtid_cmp_def split: if_splits)
qed

end

lemma gtid_cmp_lt: "gtid_cmp a b < 0 \<longleftrightarrow> a < b"
  by (simp add: less_gtid_def)

lemma gtid_cmp_le: "gtid_cmp a b \<le> 0 \<longleftrightarrow> a \<le> b"
  by (simp add: less_eq_gtid_def)

lemma gtid_cmp_eq: "gtid_cmp a b = 0 \<longleftrightarrow> a = b"
  by (cases a; cases b) (auto simp: gtid_cmp_def)

lemma gtid_cmp_ge: "0 \<le> gtid_cmp a b \<longleftrightarrow> b \<le> a"
  by (metis gtid_cmp_lt linorder_not_less)

lemma gtid_cmp_gt: "0 < gtid_cmp a b \<longleftrightarrow> b < a"
  by (metis gtid_cmp_le linorder_not_less)

lemmas gtid_order = gtid_cmp_lt gtid_cmp_le gtid_cmp_eq gtid_cmp_ge gtid_cmp_gt

lemma gtid_less_iff:
  "a < b \<longleftrightarrow> primarySeqNo a < primarySeqNo b
     \<or> primarySeqNo a = primarySeqNo b \<and> GTSeqNo a < GTSeqNo b"
  by (auto simp: less_gtid_def gtid_cmp_def)

lemma gtid_le_iff:
  "a \<le> b \<longleftrightarrow> primarySeqNo a < primarySeqNo b
     \<or> primarySeqNo a = primarySeqNo b \<and> GTSeqNo a \<le> GTSeqNo b"
  by (auto simp: less_eq_gtid_def gtid_cmp_def)

text \<open>\<open>SWAP64\<close> reverses the bytes of its argument.\<close>

lemma less_8_cases:
  "(i::nat) < 8 \<longleftrightarrow> i = 0 \<or> i = 1 \<or> i = 2 \<or> i = 3 \<or> i = 4 \<or> i = 5 \<or> i = 6 \<or> i = 7"
  by linarith

lemma SWAP64_byte:
  assumes "k < 8"
  shows "(ucast (drop_bit (8 * k) (SWAP64 x)) :: byte) = ucast (drop_bit (8 * (7 - k)) x)"
proof (rule bit_word_eqI)
  fix i assume "i < LENGTH(8)"
  then have "i < 8" by simp
  with assms show "bit (ucast (drop_bit (8 * k) (SWAP64 x)) :: byte) i
      = bit (ucast (drop_bit (8 * (7 - k)) x) :: byte) i"
    unfolding less_8_cases
    by (elim disjE; simp add: SWAP64_def bit_simps)
qed

lemma SWAP64_bytes [byte_simps]: "le_bytes 8 (SWAP64 x) = rev (le_bytes 8 x)"
proof (rule nth_equalityI)
  show "length (le_bytes 8 (SWAP64 x)) = length (rev (le_bytes 8 x))" by simp
  fix i assume "i < length (le_bytes 8 (SWAP64 x))"
  then have i: "i < 8" by simp
  with SWAP64_byte [OF i] show "le_bytes 8 (SWAP64 x) ! i = rev (le_bytes 8 x) ! i"
    by (simp add: rev_nth nth_le_bytes)
qed

lemma SWAP64_SWAP64 [simp]: "SWAP64 (SWAP64 x) = x"
  by (metis SWAP64_bytes le_word_le_bytes_64 rev_rev_ident)

lemma length_serializeBinaryData [simp]: "length (serializeBinaryData g) = GTIDBinarySize"
  by (simp add: serializeBinaryData_def GTIDBinarySize_def)

lemma GTID_of_serialized: "GTID_of_binData (serializeBinaryData g @ rest) = Some g"
  by (cases g) (simp add: GTID_of_binData_def serializeBinaryData_def)

lemma be_val_serialized:
  "be_val (serializeBinaryData g) = unat (primarySeqNo g) * 2 ^ 64 + unat (GTSeqNo g)"
  by (simp add: serializeBinaryData_def be_val_append byte_simps)

lemma sgn_gtid_cmp:
  "gtid_cmp a b = sgn (int (be_val (serializeBinaryData a)) - int (be_val (serializeBinaryData b)))"
proof -
  have b: "unat x < 2 ^ 64" for x :: u64
    using unsigned_less [of x, where ?'a = nat] by simp
  have "gtid_cmp a b = (if be_val (serializeBinaryData a) < be_val (serializeBinaryData b) then -1
      else if be_val (serializeBinaryData a) = be_val (serializeBinaryData b) then 0 else 1)"
    using b [of "GTSeqNo a"] b [of "GTSeqNo b"]
    unfolding gtid_cmp_def be_val_serialized word_less_nat_alt word_unat_eq_iff
    by auto
  then show ?thesis by (auto simp del: of_nat_diff)
qed

section \<open>GTIDManager\<close>

text \<open>
  The manager's fields.  \<open>liveGTIDs\<close> and \<open>unappliedGTIDs\<close> are the \<open>std::set\<close>s
  ordered by \<open>GTIDCmp\<close>; \<open>minLiveCond\<close> counts the \<open>notify_all\<close> calls on the
  condition variable of that name.  Every operation runs under \<open>_lock\<close>, so it is one
  atomic step.  A debug assertion (\<open>dassert\<close>) of an operation is a predicate of its own:
  release builds compile it away.
\<close>

record gtid_manager =
  incPrimary :: bool
  lastLiveGTID :: gtid
  lastUnappliedGTID :: gtid
  minLiveGTID :: gtid
  minUnappliedGTID :: gtid
  liveGTIDs :: "gtid set"
  unappliedGTIDs :: "gtid set"
  lastTimestamp :: u64
  lastHash :: u64
  selfID :: u32
  minLiveCond :: nat

definition GTIDManager :: "gtid \<Rightarrow> u64 \<Rightarrow> u64 \<Rightarrow> u32 \<Rightarrow> gtid_manager" where
  "GTIDManager lastGTID lastTime lastHash0 ident =
     \<lparr> incPrimary = False, lastLiveGTID = lastGTID, lastUnappliedGTID = GTID_default,
       minLiveGTID = gtid_inc lastGTID, minUnappliedGTID = GTID_default,
       liveGTIDs = {}, unappliedGTIDs = {},
       lastTimestamp = lastTime, lastHash = lastHash0, selfID = ident, minLiveCond = 0 \<rparr>"

definition getGTIDForPrimary :: "u64 \<Rightarrow> gtid_manager \<Rightarrow> (gtid \<times> u64 \<times> u64) \<times> gtid_manager" where
  "getGTIDForPrimary now m =
     (let m1 = (if incPrimary m
                then m\<lparr>incPrimary := False, lastLiveGTID := gtid_inc_primary (lastLiveGTID m)\<rparr>
                else m\<lparr>lastLiveGTID := gtid_inc (lastLiveGTID m)\<rparr>);
          m2 = (if liveGTIDs m1 = {} then m1\<lparr>minLiveGTID := lastLiveGTID m1\<rparr> else m1);
          g = lastLiveGTID m2;
          h = (lastHash m2 * 131 + now) * 17 + ucast (selfID m2)
      in ((g, now, h),
          m2\<lparr>lastUnappliedGTID := g, liveGTIDs := insert g (liveGTIDs m2),
             lastTimestamp := now, lastHash := h\<rparr>))"

definition getGTIDForPrimary_dassert :: "gtid_manager \<Rightarrow> bool" where
  "getGTIDForPrimary_dassert m \<longleftrightarrow> gtid_cmp (lastLiveGTID m) (lastUnappliedGTID m) = 0"

definition noteLiveGTIDDone :: "gtid \<Rightarrow> gtid_manager \<Rightarrow> gtid_manager" where
  "noteLiveGTIDDone g m =
     (let m1 = m\<lparr>liveGTIDs := liveGTIDs m - {g}\<rparr>
      in if gtid_cmp (minLiveGTID m1) g = 0
         then let newMin = (if liveGTIDs m1 = {} then gtid_inc (lastLiveGTID m1)
                            else Min (liveGTIDs m1))
              in m1\<lparr>minLiveGTID := newMin, minUnappliedGTID := newMin,
                    minLiveCond := minLiveCond m1 + 1\<rparr>
         else m1)"

definition noteLiveGTIDDone_dassert :: "gtid \<Rightarrow> gtid_manager \<Rightarrow> bool" where
  "noteLiveGTIDDone_dassert g m \<longleftrightarrow>
     gtid_cmp g (minLiveGTID m) \<ge> 0 \<and> liveGTIDs m \<noteq> {}"

definition noteGTIDAdded :: "gtid \<Rightarrow> u64 \<Rightarrow> u64 \<Rightarrow> gtid_manager \<Rightarrow> gtid_manager" where
  "noteGTIDAdded g ts h m =
     m\<lparr>lastLiveGTID := g, minLiveGTID := gtid_inc g,
       lastTimestamp := ts, lastHash := h, minLiveCond := minLiveCond m + 1\<rparr>"

definition noteGTIDAdded_dassert :: "gtid \<Rightarrow> gtid_manager \<Rightarrow> bool" where
  "noteGTIDAdded_dassert g m \<longleftrightarrow>
     gtid_cmp (lastLiveGTID m) (minLiveGTID m) < 0 \<and> gtid_cmp (lastLiveGTID m) g < 0"

definition noteApplyingGTID :: "gtid \<Rightarrow> gtid_manager \<Rightarrow> gtid_manager" where
  "noteApplyingGTID g m =
     (let m1 = (if unappliedGTIDs m = {} then m\<lparr>minUnappliedGTID := g\<rparr> else m)
      in m1\<lparr>unappliedGTIDs := insert g (unappliedGTIDs m1), lastUnappliedGTID := g\<rparr>)"

definition noteApplyingGTID_dassert :: "gtid \<Rightarrow> gtid_manager \<Rightarrow> bool" where
  "noteApplyingGTID_dassert g m \<longleftrightarrow>
     gtid_cmp g (minUnappliedGTID m) \<ge> 0 \<and> gtid_cmp g (lastUnappliedGTID m) > 0"

definition noteGTIDApplied :: "gtid \<Rightarrow> gtid_manager \<Rightarrow> gtid_manager" where
  "noteGTIDApplied g m =
     (let m1 = m\<lparr>unappliedGTIDs := unappliedGTIDs m - {g}\<rparr>
      in if gtid_cmp (minUnappliedGTID m1) g = 0
         then m1\<lparr>minUnappliedGTID := (if unappliedGTIDs m1 = {} then gtid_inc (lastUnappliedGTID m1)
                                      else Min (unappliedGTIDs m1))\<rparr>
         else m1)"

definition noteGTIDApplied_dassert :: "gtid \<Rightarrow> gtid_manager \<Rightarrow> bool" where
  "noteGTIDApplied_dassert g m \<longleftrightarrow>
     gtid_cmp g (minUnappliedGTID m) \<ge> 0 \<and> unappliedGTIDs m \<noteq> {}"

definition getMins :: "gtid_manager \<Rightarrow> gtid \<times> gtid" where
  "getMins m = (minLiveGTID m, minUnappliedGTID m)"

definition getMinLiveGTID :: "gtid_manager \<Rightarrow> gtid" where
  "getMinLiveGTID m = fst (getMins m)"

definition resetManager :: "gtid_manager \<Rightarrow> gtid_manager" where
  "resetManager m =
     (let newMin = gtid_inc (lastLiveGTID m)
      in m\<lparr>incPrimary := True, minLiveGTID := newMin,
           lastUnappliedGTID := lastLiveGTID m, minUnappliedGTID := newMin\<rparr>)"

definition resetManager_dassert :: "gtid_manager \<Rightarrow> bool" where
  "resetManager_dassert m \<longleftrightarrow> liveGTIDs m = {}"

definition getLiveState :: "gtid_manager \<Rightarrow> gtid" where
  "getLiveState m = lastLiveGTID m"

definition getGTIDs :: "gtid_manager \<Rightarrow> gtid \<times> gtid \<times> gtid \<times> gtid" where
  "getGTIDs m = (lastLiveGTID m, lastUnappliedGTID m, minLiveGTID m, minUnappliedGTID m)"

definition getLiveGTIDs :: "gtid_manager \<Rightarrow> gtid \<times> gtid" where
  "getLiveGTIDs m = (case getGTIDs m of (l, u, _, _) \<Rightarrow> (l, u))"

definition verifyReadyToBecomePrimary :: "gtid_manager \<Rightarrow> unit result" where
  "verifyReadyToBecomePrimary m =
     bind_result (guardE (gtid_cmp (lastLiveGTID m) (lastUnappliedGTID m) = 0) VerifyFailed) (\<lambda>_.
     bind_result (guardE (gtid_cmp (minLiveGTID m) (minUnappliedGTID m) = 0) VerifyFailed) (\<lambda>_.
     guardE (gtid_cmp (minLiveGTID m) (lastLiveGTID m) > 0) VerifyFailed))"

text \<open>
  \<open>waitForDifferentMinLive\<close>: whether the caller goes to sleep on \<open>_minLiveCond\<close>
  (for at most \<open>millis\<close>) before it returns.
\<close>

definition waitForDifferentMinLive_waits :: "gtid \<Rightarrow> gtid_manager \<Rightarrow> bool" where
  "waitForDifferentMinLive_waits lastSeen m \<longleftrightarrow> gtid_cmp lastSeen (minLiveGTID m) = 0"

definition resetAfterInitialSync ::
  "gtid \<Rightarrow> u64 \<Rightarrow> u64 \<Rightarrow> gtid_manager \<Rightarrow> gtid_manager result" where
  "resetAfterInitialSync lastG lastTime h m =
     bind_result (guardE (liveGTIDs m = {}) VerifyFailed) (\<lambda>_.
     bind_result (guardE (unappliedGTIDs m = {}) VerifyFailed) (\<lambda>_.
     Inr (m\<lparr>lastLiveGTID := lastG, minLiveGTID := gtid_inc lastG,
            lastUnappliedGTID := lastG, minUnappliedGTID := gtid_inc lastG,
            lastTimestamp := lastTime, lastHash := h\<rparr>)))"

definition getCurrTimestamp :: "gtid_manager \<Rightarrow> u64" where
  "getCurrTimestamp m = lastTimestamp m"

definition catchUnappliedToLive :: "gtid_manager \<Rightarrow> gtid_manager result" where
  "catchUnappliedToLive m =
     bind_result (guardE (liveGTIDs m = {}) VerifyFailed) (\<lambda>_.
     bind_result (guardE (unappliedGTIDs m = {}) VerifyFailed) (\<lambda>_.
     Inr (m\<lparr>lastUnappliedGTID := lastLiveGTID m, minUnappliedGTID := minLiveGTID m\<rparr>)))"

definition rollbackNeeded :: "gtid \<Rightarrow> u64 \<Rightarrow> u64 \<Rightarrow> gtid_manager \<Rightarrow> bool" where
  "rollbackNeeded lastG lastTime h m \<longleftrightarrow>
     \<not> (gtid_cmp lastG (lastLiveGTID m) = 0 \<and> lastTime = lastTimestamp m \<and> h = lastHash m)"

section \<open>Properties\<close>

text \<open>
  C39: the binary form of a GTID, the key of its oplog entry, is read back as the same GTID, and
  the byte order of two binary forms (as \<open>memcmp\<close> compares index keys) is the order
  \<open>GTID::cmp\<close> of the GTIDs.
\<close>

theorem gtid_binary_form:
  "GTID_of_binData (serializeBinaryData a @ rest) = Some a \<and>
   memcmp (serializeBinaryData a) (serializeBinaryData b) = gtid_cmp a b"
  by (simp add: GTID_of_serialized memcmp_be_val sgn_gtid_cmp)

end
