(* ===== verification/GtidProtocol.thy ===== *)
theory GtidProtocol
  imports Gtid
begin

text \<open>
  The GTID manager under the calls a replica-set member makes on it: a primary hands out and
  retires GTIDs while committing transactions (\<open>TxnContext::commitRoot\<close>), a secondary
  records and applies the GTIDs it replicates (\<open>BackgroundSync\<close>), and a member changes
  role through \<open>ReplSetImpl::assumePrimary\<close>, start-up and \<open>relinquish\<close>.  The
  invariant of the manager, that every debug assertion holds, and that the minimum live GTID
  is a safe read bound for tailing cursors.
\<close>

section \<open>A tracked set with a cached minimum\<close>

text \<open>
  The live and the unapplied GTIDs obey the same contract: a finite set, bounded above by the
  last GTID that entered it, whose minimum is cached; when the set is empty the cache is at most
  the successor of the last GTID.
\<close>

locale tracked_gtids =
  fixes invar :: "'m \<Rightarrow> bool"
    and tracked :: "'m \<Rightarrow> gtid set"
    and low :: "'m \<Rightarrow> gtid"
    and high :: "'m \<Rightarrow> gtid"
  assumes finite_tracked: "invar m \<Longrightarrow> finite (tracked m)"
    and low_Min: "invar m \<Longrightarrow> tracked m \<noteq> {} \<Longrightarrow> low m = Min (tracked m)"
    and high_bound: "invar m \<Longrightarrow> g \<in> tracked m \<Longrightarrow> g \<le> high m"
    and low_idle: "invar m \<Longrightarrow> low m \<le> gtid_inc (high m)"
begin

lemma low_le_tracked:
  assumes "invar m" "g \<in> tracked m"
  shows "low m \<le> g"
proof -
  from assms(2) have "tracked m \<noteq> {}" by auto
  with assms low_Min finite_tracked show ?thesis by auto
qed

lemma low_le_fresh:
  assumes "invar m" "high m < g"
  shows "low m \<le> g"
proof -
  have "gtid_inc (high m) \<le> g"
    using assms(2) by (auto simp: gtid_less_iff gtid_le_iff gtid_inc_def inc_le)
  with low_idle [OF assms(1)] show ?thesis by (rule order.trans)
qed

lemma fresh_not_tracked: "invar m \<Longrightarrow> high m < g \<Longrightarrow> g \<notin> tracked m"
  using high_bound by (meson leD)

lemma remove_min:
  assumes "invar m" "tracked m - {low m} \<noteq> {}"
  shows "low m \<le> Min (tracked m - {low m})"
  using assms finite_tracked low_le_tracked by (simp add: Min_ge_iff)

end

section \<open>The manager's invariant\<close>

definition gtid_manager_inv :: "gtid_manager \<Rightarrow> bool" where
  "gtid_manager_inv m \<longleftrightarrow>
     finite (liveGTIDs m) \<and> finite (unappliedGTIDs m) \<and>
     GTSeqNo (lastLiveGTID m) \<noteq> - 1 \<and> GTSeqNo (lastUnappliedGTID m) \<noteq> - 1 \<and>
     lastUnappliedGTID m \<le> lastLiveGTID m \<and>
     (\<forall>g \<in> liveGTIDs m. g \<le> lastLiveGTID m) \<and>
     (\<forall>g \<in> unappliedGTIDs m. g \<le> lastUnappliedGTID m) \<and>
     (liveGTIDs m \<noteq> {} \<longrightarrow> minLiveGTID m = Min (liveGTIDs m)) \<and>
     (liveGTIDs m = {} \<longrightarrow> minLiveGTID m = gtid_inc (lastLiveGTID m)) \<and>
     (unappliedGTIDs m \<noteq> {} \<longrightarrow> minUnappliedGTID m = Min (unappliedGTIDs m)) \<and>
     minUnappliedGTID m \<le> gtid_inc (lastUnappliedGTID m) \<and>
     minUnappliedGTID m \<le> minLiveGTID m"

lemma inv_min_order: "gtid_manager_inv m \<Longrightarrow> minUnappliedGTID m \<le> minLiveGTID m"
  unfolding gtid_manager_inv_def by (elim conjE)

lemma gtid_less_inc: "GTSeqNo g \<noteq> - 1 \<Longrightarrow> g < gtid_inc g"
  by (simp add: gtid_less_iff gtid_inc_def)

lemma gtid_less_inc_primary: "primarySeqNo g \<noteq> - 1 \<Longrightarrow> g < gtid_inc_primary g"
  by (simp add: gtid_less_iff gtid_inc_primary_def)

lemma gtid_inc_least: "a < b \<Longrightarrow> gtid_inc a \<le> b"
  by (auto simp: gtid_less_iff gtid_le_iff gtid_inc_def inc_le)

lemma gtid_inc_mono:
  assumes "GTSeqNo b \<noteq> - 1" "a \<le> b"
  shows "gtid_inc a \<le> gtid_inc b"
proof (cases "a = b")
  case False
  with assms have "a < b" by simp
  then have "gtid_inc a \<le> b" by (rule gtid_inc_least)
  with gtid_less_inc [OF assms(1)] show ?thesis by simp
qed simp

lemma minLive_le_inc_last:
  assumes "gtid_manager_inv m"
  shows "minLiveGTID m \<le> gtid_inc (lastLiveGTID m)"
proof (cases "liveGTIDs m = {}")
  case False
  with assms have "minLiveGTID m \<in> liveGTIDs m" "GTSeqNo (lastLiveGTID m) \<noteq> - 1"
    using Min_in by (auto simp: gtid_manager_inv_def)
  with assms have "minLiveGTID m \<le> lastLiveGTID m" by (simp add: gtid_manager_inv_def)
  with gtid_less_inc [OF \<open>GTSeqNo (lastLiveGTID m) \<noteq> - 1\<close>] show ?thesis by simp
qed (use assms in \<open>simp add: gtid_manager_inv_def\<close>)

interpretation live: tracked_gtids gtid_manager_inv liveGTIDs minLiveGTID lastLiveGTID
  by unfold_locales (simp_all add: minLive_le_inc_last, simp_all add: gtid_manager_inv_def)

interpretation unapplied: tracked_gtids gtid_manager_inv unappliedGTIDs minUnappliedGTID lastUnappliedGTID
  by unfold_locales (auto simp: gtid_manager_inv_def)

section \<open>The member's steps\<close>

datatype member_role = Primary | Secondary

record gtid_node =
  node_role :: member_role
  node_mgr :: gtid_manager

datatype gtid_event =
    EGet gtid | EDone gtid | EAdded gtid | EApplying gtid | EApplied gtid
  | ECatchUp | ESync gtid | EAssume | ERelinquish

text \<open>
  The guards are those of the call sites: a GTID is retired once, by the transaction it was
  handed to; a replicated GTID is newer than the last one (the oplog is read in order) and is
  applied after it was added; \<open>assumePrimary\<close> first runs \<open>verifyReadyToBecomePrimary\<close>;
  stepping down happens under the global write lock, with every transaction aborted.
  The sequence numbers, 64 bits wide, are assumed not to be exhausted.
\<close>

inductive node_step :: "gtid_node \<Rightarrow> gtid_event \<Rightarrow> gtid_node \<Rightarrow> bool" where
  get: "node_role n = Primary \<Longrightarrow> getGTIDForPrimary now (node_mgr n) = ((g, ts, h), m') \<Longrightarrow>
    GTSeqNo g \<noteq> - 1 \<Longrightarrow> primarySeqNo (lastLiveGTID (node_mgr n)) \<noteq> - 1 \<Longrightarrow>
    node_step n (EGet g) (n\<lparr>node_mgr := m'\<rparr>)"
| retire: "node_role n = Primary \<Longrightarrow> g \<in> liveGTIDs (node_mgr n) \<Longrightarrow>
    node_step n (EDone g) (n\<lparr>node_mgr := noteLiveGTIDDone g (node_mgr n)\<rparr>)"
| added: "node_role n = Secondary \<Longrightarrow> lastLiveGTID (node_mgr n) < g \<Longrightarrow> GTSeqNo g \<noteq> - 1 \<Longrightarrow>
    node_step n (EAdded g) (n\<lparr>node_mgr := noteGTIDAdded g ts h (node_mgr n)\<rparr>)"
| applying: "node_role n = Secondary \<Longrightarrow> lastUnappliedGTID (node_mgr n) < g \<Longrightarrow>
    g \<le> lastLiveGTID (node_mgr n) \<Longrightarrow> GTSeqNo g \<noteq> - 1 \<Longrightarrow>
    node_step n (EApplying g) (n\<lparr>node_mgr := noteApplyingGTID g (node_mgr n)\<rparr>)"
| applied: "node_role n = Secondary \<Longrightarrow> g \<in> unappliedGTIDs (node_mgr n) \<Longrightarrow>
    node_step n (EApplied g) (n\<lparr>node_mgr := noteGTIDApplied g (node_mgr n)\<rparr>)"
| catch_up: "node_role n = Secondary \<Longrightarrow> catchUnappliedToLive (node_mgr n) = Inr m' \<Longrightarrow>
    node_step n ECatchUp (n\<lparr>node_role := Primary, node_mgr := m'\<rparr>)"
| sync: "node_role n = Secondary \<Longrightarrow> resetAfterInitialSync g ts h (node_mgr n) = Inr m' \<Longrightarrow>
    GTSeqNo g \<noteq> - 1 \<Longrightarrow> node_step n (ESync g) (n\<lparr>node_mgr := m'\<rparr>)"
| assume_primary: "node_role n = Secondary \<Longrightarrow>
    verifyReadyToBecomePrimary (node_mgr n) = Inr () \<Longrightarrow>
    node_step n EAssume (n\<lparr>node_role := Primary, node_mgr := resetManager (node_mgr n)\<rparr>)"
| relinquish: "node_role n = Primary \<Longrightarrow> liveGTIDs (node_mgr n) = {} \<Longrightarrow>
    node_step n ERelinquish (n\<lparr>node_role := Secondary\<rparr>)"

inductive node_run :: "gtid_node \<Rightarrow> gtid_event list \<Rightarrow> gtid_node \<Rightarrow> bool" where
  run_nil: "node_run n [] n"
| run_snoc: "node_run n es n' \<Longrightarrow> node_step n' e n'' \<Longrightarrow> node_run n (es @ [e]) n''"

definition node_start :: "gtid \<Rightarrow> u64 \<Rightarrow> u64 \<Rightarrow> u32 \<Rightarrow> gtid_node" where
  "node_start g t h i = \<lparr>node_role = Secondary, node_mgr = GTIDManager g t h i\<rparr>"

definition node_inv :: "gtid_node \<Rightarrow> bool" where
  "node_inv n \<longleftrightarrow> gtid_manager_inv (node_mgr n) \<and>
     (case node_role n of
        Primary \<Rightarrow> unappliedGTIDs (node_mgr n) = {} \<and>
          lastUnappliedGTID (node_mgr n) = lastLiveGTID (node_mgr n)
      | Secondary \<Rightarrow> liveGTIDs (node_mgr n) = {})"

text \<open>The debug assertions of the call an event makes.\<close>

definition event_dassert :: "gtid_event \<Rightarrow> gtid_manager \<Rightarrow> bool" where
  "event_dassert e m =
     (case e of
        EGet _ \<Rightarrow> getGTIDForPrimary_dassert m
      | EDone g \<Rightarrow> noteLiveGTIDDone_dassert g m
      | EAdded g \<Rightarrow> noteGTIDAdded_dassert g m
      | EApplying g \<Rightarrow> noteApplyingGTID_dassert g m
      | EApplied g \<Rightarrow> noteGTIDApplied_dassert g m
      | EAssume \<Rightarrow> resetManager_dassert m
      | _ \<Rightarrow> True)"

subsection \<open>Each call keeps the invariant\<close>

lemma inv_start: "GTSeqNo g \<noteq> - 1 \<Longrightarrow> node_inv (node_start g t h i)"
  by (auto simp: node_inv_def node_start_def GTIDManager_def gtid_manager_inv_def GTID_default_def
      gtid_le_iff gtid_inc_def word_gt_0)

lemma inv_get:
  assumes inv: "gtid_manager_inv m" and un: "unappliedGTIDs m = {}"
    and get: "getGTIDForPrimary now m = ((g, ts, h), m')"
    and bound: "GTSeqNo g \<noteq> - 1" "primarySeqNo (lastLiveGTID m) \<noteq> - 1"
  shows "gtid_manager_inv m' \<and> lastLiveGTID m < g \<and> lastLiveGTID m' = g \<and>
    lastUnappliedGTID m' = g \<and> unappliedGTIDs m' = {} \<and> minLiveGTID m \<le> minLiveGTID m'"
proof -
  have new: "g = (if incPrimary m then gtid_inc_primary (lastLiveGTID m) else gtid_inc (lastLiveGTID m))"
    and m': "lastLiveGTID m' = g" "lastUnappliedGTID m' = g" "unappliedGTIDs m' = {}"
      "liveGTIDs m' = insert g (liveGTIDs m)" "minUnappliedGTID m' = minUnappliedGTID m"
      "minLiveGTID m' = (if liveGTIDs m = {} then g else minLiveGTID m)"
    using get un by (auto simp: getGTIDForPrimary_def Let_def split: if_splits)
  have fresh: "lastLiveGTID m < g"
    using inv bound(2) unfolding new
    by (auto simp: gtid_manager_inv_def gtid_less_inc gtid_less_inc_primary)
  have low: "minLiveGTID m \<le> g" using inv fresh by (rule live.low_le_fresh)
  have le: "x \<le> g" if "x \<in> liveGTIDs m" for x
    using live.high_bound [OF inv that] fresh by simp
  have Min: "Min (insert g (liveGTIDs m)) = minLiveGTID m" if "liveGTIDs m \<noteq> {}"
    using that low live.low_Min [OF inv that] live.finite_tracked [OF inv]
    by (simp add: Min_insert min_absorb2)
  from inv_min_order [OF inv] low have un_low: "minUnappliedGTID m \<le> g" by (rule order.trans)
  moreover have "g \<le> gtid_inc g" using gtid_less_inc [OF bound(1)] by simp
  ultimately have "minUnappliedGTID m \<le> gtid_inc g" by (rule order.trans)
  then show ?thesis
    using inv inv_min_order [OF inv] bound(1) fresh low le Min m' un_low
    by (cases "liveGTIDs m = {}") (auto simp: gtid_manager_inv_def simp del: Min_ge_iff)
qed

lemma inv_retire:
  assumes inv: "gtid_manager_inv m" and g: "g \<in> liveGTIDs m" and un: "unappliedGTIDs m = {}"
    and eq: "lastUnappliedGTID m = lastLiveGTID m"
  shows "gtid_manager_inv (noteLiveGTIDDone g m) \<and> minLiveGTID m \<le> minLiveGTID (noteLiveGTIDDone g m)"
proof (cases "g = minLiveGTID m")
  case False
  let ?R = "liveGTIDs m - {g}"
  have "minLiveGTID m \<in> liveGTIDs m"
    using live.low_Min [OF inv] live.finite_tracked [OF inv] g Min_in by force
  with False have in_R: "minLiveGTID m \<in> ?R" by simp
  then have "Min ?R = minLiveGTID m"
    using live.finite_tracked [OF inv] live.low_le_tracked [OF inv] by (auto intro!: Min_eqI)
  moreover have "noteLiveGTIDDone g m = m\<lparr>liveGTIDs := ?R\<rparr>"
    using False by (simp add: noteLiveGTIDDone_def gtid_order)
  moreover have "?R \<noteq> {}" using in_R by blast
  ultimately show ?thesis
    using inv_min_order [OF inv] inv by (simp add: gtid_manager_inv_def un)
next
  case True
  let ?R = "liveGTIDs m - {g}"
  let ?new = "if ?R = {} then gtid_inc (lastLiveGTID m) else Min ?R"
  have res: "noteLiveGTIDDone g m = m\<lparr>liveGTIDs := ?R, minLiveGTID := ?new,
      minUnappliedGTID := ?new, minLiveCond := minLiveCond m + 1\<rparr>"
    using True by (simp add: noteLiveGTIDDone_def gtid_order Let_def)
  have "?new \<le> gtid_inc (lastLiveGTID m)"
  proof (cases "?R = {}")
    case False
    then have "Min ?R \<le> lastLiveGTID m"
      using live.finite_tracked [OF inv] live.high_bound [OF inv] Min_in [of ?R] by auto
    moreover have "lastLiveGTID m < gtid_inc (lastLiveGTID m)"
      using inv by (simp add: gtid_manager_inv_def gtid_less_inc)
    ultimately show ?thesis using False by auto
  qed simp
  moreover have "minLiveGTID m \<le> ?new"
    using True live.remove_min [OF inv] minLive_le_inc_last [OF inv] by auto
  ultimately show ?thesis
    unfolding res using inv un eq
    by (cases "?R = {}") (auto simp: gtid_manager_inv_def simp del: Min_ge_iff)
qed

lemma inv_added:
  assumes inv: "gtid_manager_inv m" and live: "liveGTIDs m = {}"
    and g: "lastLiveGTID m < g" "GTSeqNo g \<noteq> - 1"
  shows "gtid_manager_inv (noteGTIDAdded g ts h m) \<and> minLiveGTID m \<le> minLiveGTID (noteGTIDAdded g ts h m)"
proof -
  have "minLiveGTID m \<le> g" using inv g(1) by (rule live.low_le_fresh)
  also have "g < gtid_inc g" using g(2) by (rule gtid_less_inc)
  finally have "minLiveGTID m \<le> gtid_inc g" by simp
  with inv live g show ?thesis
    by (auto simp: noteGTIDAdded_def gtid_manager_inv_def)
qed

lemma inv_applying:
  assumes inv: "gtid_manager_inv m" and live: "liveGTIDs m = {}"
    and g: "lastUnappliedGTID m < g" "g \<le> lastLiveGTID m" "GTSeqNo g \<noteq> - 1"
  shows "gtid_manager_inv (noteApplyingGTID g m)"
proof -
  have low: "minUnappliedGTID m \<le> g" using inv g(1) by (rule unapplied.low_le_fresh)
  have inc: "g < gtid_inc g" using g(3) by (rule gtid_less_inc)
  have Min: "Min (insert g (unappliedGTIDs m)) = minUnappliedGTID m" if "unappliedGTIDs m \<noteq> {}"
    using that low unapplied.low_Min [OF inv that] unapplied.finite_tracked [OF inv]
    by (simp add: Min_insert min_absorb2)
  have le: "x \<le> g" if "x \<in> unappliedGTIDs m" for x
    using unapplied.high_bound [OF inv that] g(1) by simp
  have "minUnappliedGTID m \<le> gtid_inc g" "g \<le> gtid_inc (lastLiveGTID m)" "g \<le> gtid_inc g"
    using low inc g(2) inv gtid_less_inc [of "lastLiveGTID m"]
    by (auto simp: gtid_manager_inv_def)
  with inv live g Min le show ?thesis
    by (auto simp: noteApplyingGTID_def gtid_manager_inv_def Let_def)
qed

lemma inv_applied:
  assumes inv: "gtid_manager_inv m" and live: "liveGTIDs m = {}" and g: "g \<in> unappliedGTIDs m"
  shows "gtid_manager_inv (noteGTIDApplied g m)"
proof (cases "g = minUnappliedGTID m")
  case False
  let ?R = "unappliedGTIDs m - {g}"
  have "minUnappliedGTID m \<in> unappliedGTIDs m"
    using unapplied.low_Min [OF inv] unapplied.finite_tracked [OF inv] g Min_in by force
  with False have in_R: "minUnappliedGTID m \<in> ?R" by simp
  then have "Min ?R = minUnappliedGTID m"
    using unapplied.finite_tracked [OF inv] unapplied.low_le_tracked [OF inv]
    by (auto intro!: Min_eqI)
  moreover have "noteGTIDApplied g m = m\<lparr>unappliedGTIDs := ?R\<rparr>"
    using False by (simp add: noteGTIDApplied_def gtid_order)
  moreover have "?R \<noteq> {}" using in_R by blast
  ultimately show ?thesis
    using inv_min_order [OF inv] inv by (simp add: gtid_manager_inv_def live)
next
  case True
  let ?R = "unappliedGTIDs m - {g}"
  have seq: "GTSeqNo (lastLiveGTID m) \<noteq> - 1" "GTSeqNo (lastUnappliedGTID m) \<noteq> - 1"
    "lastUnappliedGTID m \<le> lastLiveGTID m" "minLiveGTID m = gtid_inc (lastLiveGTID m)"
    using inv live by (auto simp: gtid_manager_inv_def)
  have inc: "gtid_inc (lastUnappliedGTID m) \<le> gtid_inc (lastLiveGTID m)"
    using seq by (intro gtid_inc_mono)
  have "Min ?R \<le> gtid_inc (lastUnappliedGTID m)" if "?R \<noteq> {}"
  proof -
    have "Min ?R \<le> lastUnappliedGTID m"
      using that unapplied.finite_tracked [OF inv] unapplied.high_bound [OF inv] Min_in [of ?R] by auto
    with gtid_less_inc [OF seq(2)] show ?thesis by simp
  qed
  with inc have "Min ?R \<le> gtid_inc (lastUnappliedGTID m) \<and> Min ?R \<le> gtid_inc (lastLiveGTID m)"
    if "?R \<noteq> {}" using that by auto
  moreover have "noteGTIDApplied g m = m\<lparr>unappliedGTIDs := ?R,
      minUnappliedGTID := (if ?R = {} then gtid_inc (lastUnappliedGTID m) else Min ?R)\<rparr>"
    using True by (simp add: noteGTIDApplied_def gtid_order Let_def)
  ultimately show ?thesis
    using inc inv live by (cases "?R = {}") (auto simp: gtid_manager_inv_def)
qed

text \<open>A member that passes \<open>verifyReadyToBecomePrimary\<close> has nothing left to apply.\<close>

lemma ready_nothing_unapplied:
  assumes "gtid_manager_inv m" "verifyReadyToBecomePrimary m = Inr ()"
  shows "unappliedGTIDs m = {} \<and> lastUnappliedGTID m = lastLiveGTID m"
proof -
  from assms(2) have eqs: "lastLiveGTID m = lastUnappliedGTID m" "minLiveGTID m = minUnappliedGTID m"
      "lastLiveGTID m < minLiveGTID m"
    by (auto simp: verifyReadyToBecomePrimary_def gtid_order result_simps)
  have "unappliedGTIDs m = {}"
  proof (rule ccontr)
    assume "unappliedGTIDs m \<noteq> {}"
    then obtain g where "g \<in> unappliedGTIDs m" by blast
    with assms(1) have "minUnappliedGTID m \<le> g" "g \<le> lastUnappliedGTID m"
      by (simp_all add: unapplied.low_le_tracked unapplied.high_bound)
    with eqs show False by auto
  qed
  with eqs show ?thesis by simp
qed

lemma inv_catch_up:
  assumes "gtid_manager_inv m" "catchUnappliedToLive m = Inr m'"
  shows "gtid_manager_inv m' \<and> unappliedGTIDs m' = {} \<and> lastUnappliedGTID m' = lastLiveGTID m'
    \<and> minLiveGTID m' = minLiveGTID m"
proof -
  from assms(2) have "liveGTIDs m = {}" "unappliedGTIDs m = {}"
    and m': "m' = m\<lparr>lastUnappliedGTID := lastLiveGTID m, minUnappliedGTID := minLiveGTID m\<rparr>"
    by (auto simp: catchUnappliedToLive_def result_simps)
  with assms(1) show ?thesis by (simp add: gtid_manager_inv_def)
qed

lemma inv_sync:
  assumes "gtid_manager_inv m" "resetAfterInitialSync g ts h m = Inr m'" "GTSeqNo g \<noteq> - 1"
  shows "gtid_manager_inv m' \<and> liveGTIDs m' = {}"
proof -
  from assms(2) have "liveGTIDs m = {}" "unappliedGTIDs m = {}"
    and m': "m' = m\<lparr>lastLiveGTID := g, minLiveGTID := gtid_inc g, lastUnappliedGTID := g,
      minUnappliedGTID := gtid_inc g, lastTimestamp := ts, lastHash := h\<rparr>"
    by (auto simp: resetAfterInitialSync_def result_simps)
  with assms(1,3) show ?thesis by (simp add: gtid_manager_inv_def)
qed

lemma inv_assume:
  assumes "gtid_manager_inv m" "verifyReadyToBecomePrimary m = Inr ()" "liveGTIDs m = {}"
  shows "gtid_manager_inv (resetManager m) \<and> unappliedGTIDs (resetManager m) = {}
    \<and> lastUnappliedGTID (resetManager m) = lastLiveGTID (resetManager m)
    \<and> minLiveGTID (resetManager m) = minLiveGTID m"
  using assms ready_nothing_unapplied [OF assms(1,2)]
  by (simp add: resetManager_def Let_def gtid_manager_inv_def)

lemma node_step_inv:
  assumes "node_step n e n'" "node_inv n"
  shows "node_inv n'"
  using assms
proof (induction rule: node_step.induct)
  case (get n now g ts h m')
  then have "gtid_manager_inv (node_mgr n)" "unappliedGTIDs (node_mgr n) = {}"
    by (simp_all add: node_inv_def)
  from inv_get [OF this get.hyps(2-4)] get.hyps(1) show ?case by (simp add: node_inv_def)
next
  case (retire n g)
  then have "gtid_manager_inv (noteLiveGTIDDone g (node_mgr n))"
    by (intro inv_retire [THEN conjunct1]) (simp_all add: node_inv_def)
  with retire show ?case by (simp add: node_inv_def noteLiveGTIDDone_def Let_def)
next
  case (added n g ts h)
  then have "gtid_manager_inv (noteGTIDAdded g ts h (node_mgr n))"
    by (intro inv_added [THEN conjunct1]) (simp_all add: node_inv_def)
  with added show ?case by (simp add: node_inv_def noteGTIDAdded_def)
next
  case (applying n g)
  then have "gtid_manager_inv (noteApplyingGTID g (node_mgr n))"
    by (intro inv_applying) (simp_all add: node_inv_def)
  with applying show ?case by (simp add: node_inv_def noteApplyingGTID_def Let_def)
next
  case (applied n g)
  then have "gtid_manager_inv (noteGTIDApplied g (node_mgr n))"
    by (intro inv_applied) (simp_all add: node_inv_def)
  with applied show ?case by (simp add: node_inv_def noteGTIDApplied_def Let_def)
next
  case (catch_up n m')
  with inv_catch_up [OF _ catch_up.hyps(2)] show ?case by (simp add: node_inv_def)
next
  case (sync n g ts h m')
  with inv_sync [OF _ sync.hyps(2,3)] show ?case by (simp add: node_inv_def)
next
  case (assume_primary n)
  with inv_assume [OF _ assume_primary.hyps(2)] show ?case by (simp add: node_inv_def)
next
  case (relinquish n)
  then show ?case by (simp add: node_inv_def)
qed

lemma node_run_inv: "node_run n es n' \<Longrightarrow> node_inv n \<Longrightarrow> node_inv n'"
  by (induction rule: node_run.induct) (auto intro: node_step_inv)

lemma node_step_dassert:
  assumes "node_step n e n'" "node_inv n"
  shows "event_dassert e (node_mgr n)"
  using assms
proof (induction rule: node_step.induct)
  case (retire n g)
  then have "minLiveGTID (node_mgr n) \<le> g"
    by (auto simp: node_inv_def intro: live.low_le_tracked)
  with retire show ?case
    by (auto simp: event_dassert_def noteLiveGTIDDone_dassert_def gtid_order)
next
  case (added n g ts h)
  then show ?case
    using gtid_less_inc [of "lastLiveGTID (node_mgr n)"]
    by (auto simp: event_dassert_def noteGTIDAdded_dassert_def gtid_order node_inv_def
        gtid_manager_inv_def)
next
  case (applying n g)
  then have "minUnappliedGTID (node_mgr n) \<le> g"
    by (auto simp: node_inv_def intro: unapplied.low_le_fresh)
  with applying show ?case
    by (auto simp: event_dassert_def noteApplyingGTID_dassert_def gtid_order)
next
  case (applied n g)
  then have "minUnappliedGTID (node_mgr n) \<le> g"
    by (auto simp: node_inv_def intro: unapplied.low_le_tracked)
  with applied show ?case
    by (auto simp: event_dassert_def noteGTIDApplied_dassert_def gtid_order)
qed (auto simp: event_dassert_def node_inv_def getGTIDForPrimary_dassert_def
    resetManager_dassert_def gtid_order)

text \<open>
  The read bound \<open>minLiveGTID\<close> only moves forward (except when an initial sync replaces the
  whole oplog), and every GTID that enters the oplog later is at or above it.
\<close>

fun is_sync :: "gtid_event \<Rightarrow> bool" where
  "is_sync (ESync _) = True"
| "is_sync _ = False"

fun new_gtid :: "gtid_event \<Rightarrow> gtid option" where
  "new_gtid (EGet g) = Some g"
| "new_gtid (EAdded g) = Some g"
| "new_gtid _ = None"

lemma node_step_minLive_mono:
  assumes "node_step n e n'" "node_inv n" "\<not> is_sync e"
  shows "minLiveGTID (node_mgr n) \<le> minLiveGTID (node_mgr n')"
  using assms
proof (induction rule: node_step.induct)
  case (get n now g ts h m')
  then have "gtid_manager_inv (node_mgr n)" "unappliedGTIDs (node_mgr n) = {}"
    by (simp_all add: node_inv_def)
  from inv_get [OF this get.hyps(2-4)] show ?case by simp
next
  case (retire n g)
  then have "minLiveGTID (node_mgr n) \<le> minLiveGTID (noteLiveGTIDDone g (node_mgr n))"
    by (intro inv_retire [THEN conjunct2]) (simp_all add: node_inv_def)
  then show ?case by simp
next
  case (added n g ts h)
  then have "minLiveGTID (node_mgr n) \<le> minLiveGTID (noteGTIDAdded g ts h (node_mgr n))"
    by (intro inv_added [THEN conjunct2]) (simp_all add: node_inv_def)
  then show ?case by simp
next
  case (catch_up n m')
  with inv_catch_up [OF _ catch_up.hyps(2)] show ?case by (simp add: node_inv_def)
next
  case (assume_primary n)
  with inv_assume [OF _ assume_primary.hyps(2)] show ?case by (simp add: node_inv_def)
qed (simp_all add: noteApplyingGTID_def noteGTIDApplied_def Let_def)

lemma node_step_new_gtid:
  assumes "node_step n e n'" "node_inv n" "new_gtid e = Some g"
  shows "minLiveGTID (node_mgr n) \<le> g \<and> lastLiveGTID (node_mgr n) < g
    \<and> g \<notin> liveGTIDs (node_mgr n) \<and> lastLiveGTID (node_mgr n') = g"
  using assms
proof (induction rule: node_step.induct)
  case (get n now g' ts h m')
  then have inv: "gtid_manager_inv (node_mgr n)" "unappliedGTIDs (node_mgr n) = {}"
    by (simp_all add: node_inv_def)
  from inv_get [OF inv get.hyps(2-4)] get.prems(2) show ?case
    by (simp add: live.low_le_fresh [OF inv(1)] live.fresh_not_tracked [OF inv(1)])
next
  case (added n g' ts h)
  then have inv: "gtid_manager_inv (node_mgr n)" by (simp add: node_inv_def)
  from added show ?case
    by (simp add: live.low_le_fresh [OF inv] live.fresh_not_tracked [OF inv] noteGTIDAdded_def)
qed simp_all

lemma node_run_cut:
  assumes "node_run n es n'" "node_inv n" "\<forall>e \<in> set es. \<not> is_sync e"
  shows "minLiveGTID (node_mgr n) \<le> minLiveGTID (node_mgr n')
    \<and> (\<forall>e g. e \<in> set es \<longrightarrow> new_gtid e = Some g \<longrightarrow> minLiveGTID (node_mgr n) \<le> g)"
  using assms
proof (induction rule: node_run.induct)
  case (run_nil n)
  then show ?case by simp
next
  case (run_snoc n es n' e n'')
  then have inv': "node_inv n'" and le: "minLiveGTID (node_mgr n) \<le> minLiveGTID (node_mgr n')"
    and old: "\<And>e g. e \<in> set es \<Longrightarrow> new_gtid e = Some g \<Longrightarrow> minLiveGTID (node_mgr n) \<le> g"
    by (auto intro: node_run_inv)
  have "minLiveGTID (node_mgr n) \<le> minLiveGTID (node_mgr n'')"
    using node_step_minLive_mono [OF run_snoc.hyps(2) inv'] run_snoc.prems le by auto
  moreover have "minLiveGTID (node_mgr n) \<le> g" if "new_gtid e = Some g" for g
    using node_step_new_gtid [OF run_snoc.hyps(2) inv' that] le by auto
  ultimately show ?case using old by auto
qed

lemma node_step_last_kept:
  assumes "node_step n e n'" "new_gtid e = None" "\<not> is_sync e"
  shows "lastLiveGTID (node_mgr n') = lastLiveGTID (node_mgr n)"
  using assms
  by (induction rule: node_step.induct)
    (auto simp: noteLiveGTIDDone_def noteApplyingGTID_def noteGTIDApplied_def resetManager_def
      catchUnappliedToLive_def result_simps Let_def)

lemma node_run_sorted:
  assumes "node_run n es n'" "node_inv n" "\<forall>e \<in> set es. \<not> is_sync e"
  shows "sorted_wrt (<) (lastLiveGTID (node_mgr n) # List.map_filter new_gtid es) \<and>
    last (lastLiveGTID (node_mgr n) # List.map_filter new_gtid es) = lastLiveGTID (node_mgr n')"
  using assms
proof (induction rule: node_run.induct)
  case (run_nil n)
  then show ?case by (simp add: List.map_filter_simps)
next
  case (run_snoc n es n' e n'')
  let ?xs = "lastLiveGTID (node_mgr n) # List.map_filter new_gtid es"
  have inv': "node_inv n'" using run_snoc by (auto intro: node_run_inv)
  have IH: "sorted_wrt (<) ?xs" "last ?xs = lastLiveGTID (node_mgr n')" using run_snoc by auto
  show ?case
  proof (cases "new_gtid e")
    case None
    with IH node_step_last_kept [OF run_snoc.hyps(2) None] run_snoc.prems(2) show ?thesis
      by (simp add: List.map_filter_def)
  next
    case (Some g)
    have g: "last ?xs < g" "lastLiveGTID (node_mgr n'') = g"
      using node_step_new_gtid [OF run_snoc.hyps(2) inv' Some] IH(2) by auto
    have "x \<le> last ?xs" if "x \<in> set ?xs" for x
      using IH(1) that by (cases ?xs rule: rev_cases) (auto simp: sorted_wrt_append)
    with g(1) have "\<forall>x \<in> set ?xs. x < g" by fastforce
    with IH(1) have "sorted_wrt (<) (?xs @ [g])" by (simp only: sorted_wrt_append) simp
    with g(2) Some show ?thesis by (simp add: List.map_filter_def)
  qed
qed

section \<open>Running a member\<close>

text \<open>The step relation as a function: one call at clock time \<open>now\<close>, \<open>None\<close> where it is not made.\<close>

fun node_exec :: "u64 \<Rightarrow> gtid_event \<Rightarrow> gtid_node \<Rightarrow> gtid_node option" where
  "node_exec now (EGet g) n =
     (case getGTIDForPrimary now (node_mgr n) of ((g', _, _), m') \<Rightarrow>
        if node_role n = Primary \<and> g' = g \<and> GTSeqNo g \<noteq> - 1 \<and> primarySeqNo (lastLiveGTID (node_mgr n)) \<noteq> - 1
        then Some (n\<lparr>node_mgr := m'\<rparr>) else None)"
| "node_exec now (EDone g) n =
     (if node_role n = Primary \<and> g \<in> liveGTIDs (node_mgr n)
      then Some (n\<lparr>node_mgr := noteLiveGTIDDone g (node_mgr n)\<rparr>) else None)"
| "node_exec now (EAdded g) n =
     (if node_role n = Secondary \<and> lastLiveGTID (node_mgr n) < g \<and> GTSeqNo g \<noteq> - 1
      then Some (n\<lparr>node_mgr := noteGTIDAdded g now 0 (node_mgr n)\<rparr>) else None)"
| "node_exec now (EApplying g) n =
     (if node_role n = Secondary \<and> lastUnappliedGTID (node_mgr n) < g \<and> g \<le> lastLiveGTID (node_mgr n) \<and>
         GTSeqNo g \<noteq> - 1
      then Some (n\<lparr>node_mgr := noteApplyingGTID g (node_mgr n)\<rparr>) else None)"
| "node_exec now (EApplied g) n =
     (if node_role n = Secondary \<and> g \<in> unappliedGTIDs (node_mgr n)
      then Some (n\<lparr>node_mgr := noteGTIDApplied g (node_mgr n)\<rparr>) else None)"
| "node_exec now ECatchUp n =
     (case catchUnappliedToLive (node_mgr n) of
        Inr m' \<Rightarrow> if node_role n = Secondary then Some (n\<lparr>node_role := Primary, node_mgr := m'\<rparr>) else None
      | Inl _ \<Rightarrow> None)"
| "node_exec now (ESync g) n =
     (case resetAfterInitialSync g now 0 (node_mgr n) of
        Inr m' \<Rightarrow> if node_role n = Secondary \<and> GTSeqNo g \<noteq> - 1 then Some (n\<lparr>node_mgr := m'\<rparr>) else None
      | Inl _ \<Rightarrow> None)"
| "node_exec now EAssume n =
     (case verifyReadyToBecomePrimary (node_mgr n) of
        Inr _ \<Rightarrow> if node_role n = Secondary
          then Some (n\<lparr>node_role := Primary, node_mgr := resetManager (node_mgr n)\<rparr>) else None
      | Inl _ \<Rightarrow> None)"
| "node_exec now ERelinquish n =
     (if node_role n = Primary \<and> liveGTIDs (node_mgr n) = {} then Some (n\<lparr>node_role := Secondary\<rparr>) else None)"

lemma node_exec_step: "node_exec now e n = Some n' \<Longrightarrow> node_step n e n'"
  by (cases e) (auto intro: node_step.intros split: if_splits prod.splits sum.splits)

fun node_execs :: "gtid_event list \<Rightarrow> gtid_node \<Rightarrow> gtid_node option" where
  "node_execs [] n = Some n"
| "node_execs (e # es) n = (case node_exec 0 e n of None \<Rightarrow> None | Some n' \<Rightarrow> node_execs es n')"

lemma node_run_append: "node_run n' es' n'' \<Longrightarrow> node_run n es n' \<Longrightarrow> node_run n (es @ es') n''"
  by (induction rule: node_run.induct) (simp_all add: run_snoc flip: append_assoc)

lemma node_execs_run: "node_execs es n = Some n' \<Longrightarrow> node_run n es n'"
proof (induction es arbitrary: n)
  case (Cons e es)
  then obtain n1 where n1: "node_exec 0 e n = Some n1" "node_execs es n1 = Some n'"
    by (auto split: option.splits)
  have "node_run n ([] @ [e]) n1" by (rule run_snoc [OF run_nil node_exec_step [OF n1(1)]])
  from node_run_append [OF Cons.IH [OF n1(2)] this] show ?case by simp
qed (simp add: run_nil)

lemmas exec_defs = node_start_def GTIDManager_def catchUnappliedToLive_def gtid_inc_def
  getGTIDForPrimary_def noteLiveGTIDDone_def noteGTIDAdded_def noteApplyingGTID_def noteGTIDApplied_def
  verifyReadyToBecomePrimary_def resetManager_def gtid_inc_primary_def gtid_order gtid_less_iff gtid_le_iff
  GTID_default_def Let_def

section \<open>Properties\<close>







text \<open>
  C38: a member that passes \<open>verifyReadyToBecomePrimary\<close> has applied everything it has
  replicated: no GTID is unapplied and the last applied GTID is the last live one, and the first GTID
  it hands out as a primary has a fresh primary number.
\<close>

theorem ready_to_become_primary:
  assumes "node_run (node_start g0 t0 h0 i) es n" "GTSeqNo g0 \<noteq> - 1" "node_step n EAssume n'"
  shows "unappliedGTIDs (node_mgr n) = {} \<and> lastUnappliedGTID (node_mgr n) = lastLiveGTID (node_mgr n) \<and>
    fst (fst (getGTIDForPrimary now (node_mgr n'))) = GTID (primarySeqNo (lastLiveGTID (node_mgr n)) + 1) 0"
proof -
  have "node_inv n" using assms(1) inv_start [OF assms(2)] by (rule node_run_inv)
  moreover from assms(3) have "verifyReadyToBecomePrimary (node_mgr n) = Inr ()"
    "node_mgr n' = resetManager (node_mgr n)"
    by (auto elim: node_step.cases)
  ultimately show ?thesis
    using ready_nothing_unapplied [of "node_mgr n"]
    by (simp add: node_inv_def getGTIDForPrimary_def resetManager_def Let_def gtid_inc_primary_def)
qed

theorem ready_to_become_primary_witness:
  "\<exists>n n'. node_run (node_start (GTID 1 5) 0 0 7) [EAdded (GTID 1 6), EApplying (GTID 1 6), EApplied (GTID 1 6)] n \<and>
     node_step n EAssume n' \<and> unappliedGTIDs (node_mgr n) = {}"
proof -
  let ?es = "[EAdded (GTID 1 6), EApplying (GTID 1 6), EApplied (GTID 1 6)]"
  obtain n n' where n: "node_execs ?es (node_start (GTID 1 5) 0 0 7) = Some n" "node_exec 0 EAssume n = Some n'"
    by (simp add: exec_defs)
  from ready_to_become_primary [OF node_execs_run [OF n(1)] _ node_exec_step [OF n(2)]]
    node_execs_run [OF n(1)] node_exec_step [OF n(2)] show ?thesis by auto
qed

end
