(* ===== verification/QLock.thy ===== *)
theory QLock
  imports Prelude
begin

text \<open>
  The server's global lock, the \<open>QLock\<close> of \<open>util/concurrency/qlock.h\<close>: four shared and
  exclusive modes (r, w, R, W), the upgrade from R to W and the transition from w to the
  exclusive state X.  Its operations, the threads that use it as a step relation, and the proof
  that no fatal assertion of the lock can fire and that holders are compatible as the table in
  the header of the class says.
\<close>

section \<open>State and legality\<close>

record qlock =
  r_n :: int
  w_n :: int
  R_n :: int
  W_n :: int
  U_n :: int
  X_n :: int
  numPendingGlobalWrites :: int
  generationX :: int
  generationXExit :: int

definition QLock_init :: qlock where
  "QLock_init = \<lparr>r_n = 0, w_n = 0, R_n = 0, W_n = 0, U_n = 0, X_n = 0,
     numPendingGlobalWrites = 0, generationX = 0, generationXExit = 0\<rparr>"

definition areQueueJumpingGlobalWritesPending :: "qlock \<Rightarrow> bool" where
  "areQueueJumpingGlobalWritesPending q \<longleftrightarrow> numPendingGlobalWrites q > 0"

definition W_legal :: "qlock \<Rightarrow> bool" where
  "W_legal q \<longleftrightarrow> r_n q + w_n q + R_n q + W_n q + X_n q = 0"

definition R_legal_ignore_greed :: "qlock \<Rightarrow> bool" where
  "R_legal_ignore_greed q \<longleftrightarrow> w_n q + W_n q + X_n q = 0"

definition r_legal_ignore_greed :: "qlock \<Rightarrow> bool" where
  "r_legal_ignore_greed q \<longleftrightarrow> W_n q + X_n q = 0"

definition w_legal_ignore_greed :: "qlock \<Rightarrow> bool" where
  "w_legal_ignore_greed q \<longleftrightarrow> R_n q + W_n q + X_n q = 0"

definition R_legal :: "qlock \<Rightarrow> bool" where
  "R_legal q \<longleftrightarrow> \<not> areQueueJumpingGlobalWritesPending q \<and> R_legal_ignore_greed q"

definition w_legal :: "qlock \<Rightarrow> bool" where
  "w_legal q \<longleftrightarrow> \<not> areQueueJumpingGlobalWritesPending q \<and> w_legal_ignore_greed q"

definition r_legal :: "qlock \<Rightarrow> bool" where
  "r_legal q \<longleftrightarrow> \<not> areQueueJumpingGlobalWritesPending q \<and> r_legal_ignore_greed q"

definition X_legal :: "qlock \<Rightarrow> bool" where
  "X_legal q \<longleftrightarrow> w_n q + r_n q + R_n q + W_n q = 0"

named_theorems qlock_legal \<open>legality predicates of the lock\<close>

lemmas legal_defs [qlock_legal] =
  areQueueJumpingGlobalWritesPending_def W_legal_def R_legal_ignore_greed_def
  r_legal_ignore_greed_def w_legal_ignore_greed_def R_legal_def w_legal_def r_legal_def X_legal_def

section \<open>Notification\<close>

definition i_block :: "char \<Rightarrow> char \<Rightarrow> bool result" where
  "i_block me them =
     (if me = CHR ''W'' then Inr True
      else if me = CHR ''R'' then Inr (them = CHR ''W'' \<or> them = CHR ''w'' \<or> them = CHR ''X'')
      else if me = CHR ''w'' then Inr (them = CHR ''W'' \<or> them = CHR ''R'' \<or> them = CHR ''X'')
      else if me = CHR ''r'' then Inr (them = CHR ''W'' \<or> them = CHR ''X'')
      else if me = CHR ''X'' then Inr True
      else Inl (Fatal 16200))"

text \<open>The condition variable of a mode and how it is signalled.\<close>

datatype notice = NotifyOne char | NotifyAll char

text \<open>\<open>legal && i_block(me, them)\<close>, the notices it adds.\<close>

definition notify_if :: "bool \<Rightarrow> char \<Rightarrow> char \<Rightarrow> notice \<Rightarrow> notice list result" where
  "notify_if legal me them nt =
     (if legal then bind_result (i_block me them) (\<lambda>b. Inr (if b then [nt] else [])) else Inr [])"

definition notifyWeUnlocked :: "char \<Rightarrow> qlock \<Rightarrow> notice list result" where
  "notifyWeUnlocked me q =
     bind_result (guardE (W_n q = 0) (Fatal 16201)) (\<lambda>_.
     let n0 = (if me = CHR ''X'' then [NotifyAll CHR ''X''] else []) in
     if U_n q \<noteq> 0 \<and> r_n q + w_n q + W_n q + X_n q = 0 \<and> R_n q = 1
     then Inr (n0 @ [NotifyOne CHR ''U''])
     else
     bind_result (notify_if (X_legal q) me CHR ''X'' (NotifyOne CHR ''X'')) (\<lambda>n1.
     bind_result (notify_if (W_legal q) me CHR ''W'' (NotifyOne CHR ''W'')) (\<lambda>n2.
     if n2 \<noteq> [] \<and> areQueueJumpingGlobalWritesPending q then Inr (n0 @ n1 @ n2)
     else
     bind_result (notify_if (R_legal_ignore_greed q) me CHR ''R'' (NotifyAll CHR ''R'')) (\<lambda>n3.
     bind_result (notify_if (w_legal_ignore_greed q) me CHR ''w'' (NotifyAll CHR ''w'')) (\<lambda>n4.
     bind_result (notify_if (r_legal_ignore_greed q) me CHR ''r'' (NotifyAll CHR ''r'')) (\<lambda>n5.
     Inr (n0 @ n1 @ n2 @ n3 @ n4 @ n5)))))))"

section \<open>Operations\<close>

text \<open>
  Every operation runs under the mutex \<open>m\<close>; a wait on a condition variable releases it.  One
  pass through an operation, from its start or from a wake-up to the next wait or the return, is
  therefore atomic.  \<open>Blocked q\<close> is a wait, \<open>Ret b q ns\<close> the return of \<open>b\<close> (\<open>True\<close> for
  void operations) with the notices sent.  An operation with a wait loop has an entry part and
  a loop part, the latter also run at each wake-up.
\<close>

datatype attempt = Blocked qlock | Ret bool qlock "notice list"

definition unlocked :: "char \<Rightarrow> bool \<Rightarrow> qlock \<Rightarrow> attempt result" where
  "unlocked me b q = bind_result (notifyWeUnlocked me q) (\<lambda>ns. Inr (Ret b q ns))"

definition lock_r :: "qlock \<Rightarrow> attempt result" where
  "lock_r q = Inr (if \<not> r_legal q then Blocked q else Ret True (q\<lparr>r_n := r_n q + 1\<rparr>) [])"

definition lock_w :: "qlock \<Rightarrow> attempt result" where
  "lock_w q = Inr (if \<not> w_legal q then Blocked q else Ret True (q\<lparr>w_n := w_n q + 1\<rparr>) [])"

definition lock_R :: "qlock \<Rightarrow> attempt result" where
  "lock_R q = Inr (if \<not> R_legal q then Blocked q else Ret True (q\<lparr>R_n := R_n q + 1\<rparr>) [])"

text \<open>\<open>timeout\<close>: the deadline has passed when the loop guard is evaluated.\<close>

definition lock_R_try :: "bool \<Rightarrow> qlock \<Rightarrow> attempt result" where
  "lock_R_try timeout q = Inr
     (if \<not> R_legal q \<and> \<not> timeout then Blocked q
      else if R_legal q then Ret True (q\<lparr>R_n := R_n q + 1\<rparr>) []
      else Ret False q [])"

definition lock_W_try_loop :: "bool \<Rightarrow> qlock \<Rightarrow> attempt result" where
  "lock_W_try_loop timeout q =
     (if \<not> W_legal q \<and> \<not> timeout then Inr (Blocked q)
      else let q1 = q\<lparr>numPendingGlobalWrites := numPendingGlobalWrites q - 1\<rparr> in
           if W_legal q1 then
             let q2 = q1\<lparr>W_n := W_n q1 + 1\<rparr> in
             bind_result (guardE (W_n q2 = 1) (Fatal 16202)) (\<lambda>_. Inr (Ret True q2 []))
           else Inr (Ret False q1 []))"

definition lock_W_try :: "bool \<Rightarrow> qlock \<Rightarrow> attempt result" where
  "lock_W_try timeout q =
     lock_W_try_loop timeout (q\<lparr>numPendingGlobalWrites := numPendingGlobalWrites q + 1\<rparr>)"

definition W_to_R :: "qlock \<Rightarrow> attempt result" where
  "W_to_R q =
     bind_result (guardE (W_n q = 1) (Fatal 16203)) (\<lambda>_.
     bind_result (guardE (R_n q = 0) (Fatal 16204)) (\<lambda>_.
     bind_result (guardE (U_n q = 0) (Fatal 16205)) (\<lambda>_.
     unlocked CHR ''W'' True (q\<lparr>W_n := 0, R_n := 1\<rparr>))))"

definition R_to_W_loop :: "qlock \<Rightarrow> attempt result" where
  "R_to_W_loop q =
     (if W_n q + R_n q + w_n q + r_n q > 1 then Inr (Blocked q)
      else let q1 = q\<lparr>numPendingGlobalWrites := numPendingGlobalWrites q - 1\<rparr> in
        bind_result (guardE (R_n q1 = 1) (Fatal 16209)) (\<lambda>_.
        bind_result (guardE (W_n q1 = 0) (Fatal 16210)) (\<lambda>_.
        bind_result (guardE (U_n q1 = 1) (Fatal 16211)) (\<lambda>_.
        Inr (Ret True (q1\<lparr>R_n := 0, W_n := 1, U_n := 0\<rparr>) [])))))"

definition R_to_W :: "qlock \<Rightarrow> attempt result" where
  "R_to_W q =
     bind_result (guardE (R_n q > 0) (Fatal 16206)) (\<lambda>_.
     bind_result (guardE (W_n q = 0) (Fatal 16207)) (\<lambda>_.
     bind_result (guardE (U_n q = 0) (Fatal 16208)) (\<lambda>_.
     R_to_W_loop (q\<lparr>U_n := 1, numPendingGlobalWrites := numPendingGlobalWrites q + 1\<rparr>))))"

definition w_to_X_loop :: "int \<Rightarrow> qlock \<Rightarrow> attempt result" where
  "w_to_X_loop myGeneration q =
     (if \<not> X_legal q \<and> myGeneration = generationX q then Inr (Blocked q)
      else if myGeneration = generationX q then
        bind_result (guardE (X_legal q) (Fatal 16214)) (\<lambda>_.
        bind_result (guardE (w_n q = 0) (Fatal 16215)) (\<lambda>_.
        unlocked CHR ''w'' True (q\<lparr>generationX := generationX q + 1\<rparr>)))
      else if myGeneration = generationXExit q then Inr (Blocked q)
      else
        bind_result (guardE (R_n q = 0) (Fatal 16216)) (\<lambda>_.
        bind_result (guardE (w_n q > 0) (Fatal 16217)) (\<lambda>_.
        Inr (Ret False q []))))"

definition w_to_X :: "qlock \<Rightarrow> attempt result" where
  "w_to_X q =
     bind_result (guardE (w_n q > 0) (Fatal 16212)) (\<lambda>_.
     let q1 = q\<lparr>X_n := X_n q + 1, w_n := w_n q - 1\<rparr> in w_to_X_loop (generationX q1) q1)"

definition X_to_w :: "qlock \<Rightarrow> attempt result" where
  "X_to_w q =
     bind_result (guardE (W_n q = 0) (Fatal 16219)) (\<lambda>_.
     bind_result (guardE (R_n q = 0) (Fatal 16220)) (\<lambda>_.
     bind_result (guardE (w_n q = 0) (Fatal 16221)) (\<lambda>_.
     bind_result (guardE (X_n q > 0) (Fatal 16222)) (\<lambda>_.
     unlocked CHR ''X'' True
       (q\<lparr>w_n := X_n q, X_n := 0, generationXExit := generationXExit q + 1\<rparr>)))))"

definition lock_W_loop :: "qlock \<Rightarrow> attempt result" where
  "lock_W_loop q = Inr
     (if \<not> W_legal q then Blocked q
      else let q1 = q\<lparr>numPendingGlobalWrites := numPendingGlobalWrites q - 1\<rparr> in
           Ret True (q1\<lparr>W_n := W_n q1 + 1\<rparr>) [])"

definition lock_W :: "qlock \<Rightarrow> attempt result" where
  "lock_W q = lock_W_loop (q\<lparr>numPendingGlobalWrites := numPendingGlobalWrites q + 1\<rparr>)"

definition unlock_r :: "qlock \<Rightarrow> attempt result" where
  "unlock_r q =
     bind_result (guardE (r_n q > 0) (Fatal 16137)) (\<lambda>_.
     unlocked CHR ''r'' True (q\<lparr>r_n := r_n q - 1\<rparr>))"

definition unlock_w :: "qlock \<Rightarrow> attempt result" where
  "unlock_w q =
     bind_result (guardE (w_n q > 0) (Fatal 16138)) (\<lambda>_.
     unlocked CHR ''w'' True (q\<lparr>w_n := w_n q - 1\<rparr>))"

definition unlock_R :: "qlock \<Rightarrow> attempt result" where
  "unlock_R q =
     bind_result (guardE (R_n q > 0) (Fatal 16139)) (\<lambda>_.
     unlocked CHR ''R'' True (q\<lparr>R_n := R_n q - 1\<rparr>))"

definition unlock_W :: "qlock \<Rightarrow> attempt result" where
  "unlock_W q =
     bind_result (guardE (W_n q = 1) (Fatal 16140)) (\<lambda>_.
     unlocked CHR ''W'' True (q\<lparr>W_n := W_n q - 1\<rparr>))"

section \<open>Threads\<close>

text \<open>
  Where a thread is with respect to the lock.  \<open>Hold_RW\<close> is R reached by \<open>W_to_R\<close>, the only
  place \<open>R_to_W\<close> may be called from (the note on \<open>R_to_W\<close>); \<open>Wait_X g\<close> is inside
  \<open>w_to_X\<close> with \<open>myGeneration = g\<close>.
\<close>

datatype qpc =
    Idle | Wait_r | Wait_w | Wait_R | Wait_Rtry | Wait_W | Wait_Wtry | Wait_U | Wait_X int
  | Hold_r | Hold_w | Hold_R | Hold_RW | Hold_W | Hold_X

text \<open>
  What a thread does next: call an operation it is entitled to (unlock what it holds, upgrade
  what may be upgraded), or wake up in the wait it is in, possibly spuriously; \<open>Wake True\<close> is
  a wake-up after the deadline of a timed wait.
\<close>

datatype qcall =
    Lock_r | Lock_w | Lock_R | Lock_R_try bool | Lock_W | Lock_W_try bool
  | Unlock_r | Unlock_w | Unlock_R | Unlock_W | To_R | To_W | To_X | From_X | Wake bool

text \<open>
  The operation a call runs, with the thread's next position if it blocks, returns true and
  returns false; \<open>None\<close> where the thread may not make the call.
\<close>

fun wake_of :: "bool \<Rightarrow> qpc \<Rightarrow> qlock \<Rightarrow> (attempt result \<times> qpc \<times> qpc \<times> qpc) option" where
  "wake_of b Wait_r q = Some (lock_r q, Wait_r, Hold_r, Idle)"
| "wake_of b Wait_w q = Some (lock_w q, Wait_w, Hold_w, Idle)"
| "wake_of b Wait_R q = Some (lock_R q, Wait_R, Hold_R, Idle)"
| "wake_of b Wait_Rtry q = Some (lock_R_try b q, Wait_Rtry, Hold_R, Idle)"
| "wake_of b Wait_W q = Some (lock_W_loop q, Wait_W, Hold_W, Idle)"
| "wake_of b Wait_Wtry q = Some (lock_W_try_loop b q, Wait_Wtry, Hold_W, Idle)"
| "wake_of b Wait_U q = Some (R_to_W_loop q, Wait_U, Hold_W, Idle)"
| "wake_of b (Wait_X g) q = Some (w_to_X_loop g q, Wait_X g, Hold_X, Hold_w)"
| "wake_of b _ q = None"

fun call_of :: "qcall \<Rightarrow> qpc \<Rightarrow> qlock \<Rightarrow> (attempt result \<times> qpc \<times> qpc \<times> qpc) option" where
  "call_of Lock_r p q = (if p = Idle then Some (lock_r q, Wait_r, Hold_r, Idle) else None)"
| "call_of Lock_w p q = (if p = Idle then Some (lock_w q, Wait_w, Hold_w, Idle) else None)"
| "call_of Lock_R p q = (if p = Idle then Some (lock_R q, Wait_R, Hold_R, Idle) else None)"
| "call_of (Lock_R_try b) p q =
     (if p = Idle then Some (lock_R_try b q, Wait_Rtry, Hold_R, Idle) else None)"
| "call_of Lock_W p q = (if p = Idle then Some (lock_W q, Wait_W, Hold_W, Idle) else None)"
| "call_of (Lock_W_try b) p q =
     (if p = Idle then Some (lock_W_try b q, Wait_Wtry, Hold_W, Idle) else None)"
| "call_of Unlock_r p q = (if p = Hold_r then Some (unlock_r q, Idle, Idle, Idle) else None)"
| "call_of Unlock_w p q = (if p = Hold_w then Some (unlock_w q, Idle, Idle, Idle) else None)"
| "call_of Unlock_R p q =
     (if p = Hold_R \<or> p = Hold_RW then Some (unlock_R q, Idle, Idle, Idle) else None)"
| "call_of Unlock_W p q = (if p = Hold_W then Some (unlock_W q, Idle, Idle, Idle) else None)"
| "call_of To_R p q = (if p = Hold_W then Some (W_to_R q, Idle, Hold_RW, Idle) else None)"
| "call_of To_W p q = (if p = Hold_RW then Some (R_to_W q, Wait_U, Hold_W, Idle) else None)"
| "call_of To_X p q =
     (if p = Hold_w then Some (w_to_X q, Wait_X (generationX q), Hold_X, Hold_w) else None)"
| "call_of From_X p q = (if p = Hold_X then Some (X_to_w q, Idle, Hold_w, Idle) else None)"
| "call_of (Wake b) p q = wake_of b p q"

record qsys =
  lk :: qlock
  pcs :: "nat \<Rightarrow> qpc"

definition after :: "nat \<Rightarrow> qsys \<Rightarrow> qpc \<Rightarrow> qpc \<Rightarrow> qpc \<Rightarrow> attempt \<Rightarrow> qsys" where
  "after t s pb pt pf a =
     (case a of
        Blocked q \<Rightarrow> \<lparr>lk = q, pcs = (pcs s)(t := pb)\<rparr>
      | Ret b q ns \<Rightarrow> \<lparr>lk = q, pcs = (pcs s)(t := (if b then pt else pf))\<rparr>)"

definition thread_call :: "qcall \<Rightarrow> nat \<Rightarrow> qsys \<Rightarrow> qsys result option" where
  "thread_call c t s =
     (case call_of c (pcs s t) (lk s) of
        None \<Rightarrow> None
      | Some (r, pb, pt, pf) \<Rightarrow> Some (bind_result r (\<lambda>a. Inr (after t s pb pt pf a))))"

definition qsys_init :: qsys where
  "qsys_init = \<lparr>lk = QLock_init, pcs = (\<lambda>_. Idle)\<rparr>"

inductive qreach :: "nat \<Rightarrow> qsys \<Rightarrow> bool" for N where
  start: "qreach N qsys_init"
| step: "qreach N s \<Longrightarrow> t < N \<Longrightarrow> thread_call c t s = Some (Inr s') \<Longrightarrow> qreach N s'"

section \<open>The lock's counters count its threads\<close>

definition cnt :: "nat \<Rightarrow> (qpc \<Rightarrow> bool) \<Rightarrow> (nat \<Rightarrow> qpc) \<Rightarrow> int" where
  "cnt N P f = (\<Sum>t<N. if P (f t) then 1 else 0)"

lemma cnt_upd [simp]:
  assumes "t < N"
  shows "cnt N P (f(t := x)) = cnt N P f + (if P x then 1 else 0) - (if P (f t) then 1 else 0)"
proof -
  have "(\<Sum>u\<in>{..<N} - {t}. if P ((f(t := x)) u) then 1 else 0)
      = (\<Sum>u\<in>{..<N} - {t}. if P (f u) then 1 else (0::int))"
    by (rule sum.cong) auto
  with assms show ?thesis
    by (simp add: cnt_def sum.remove [of "{..<N}" t])
qed

lemma cnt_nonneg [simp]: "0 \<le> cnt N P f"
  by (simp add: cnt_def sum_nonneg)

lemma cnt_pos:
  assumes "t < N" "P (f t)"
  shows "1 \<le> cnt N P f"
proof -
  have "cnt N P (f(t := f t)) = cnt N P (f(t := f t))" by simp
  have "(\<Sum>u\<in>{..<N} - {t}. if P (f u) then 1 else (0::int)) \<ge> 0" by (simp add: sum_nonneg)
  with assms show ?thesis by (simp add: cnt_def sum.remove [of "{..<N}" t])
qed

lemma cnt_two:
  assumes "t < N" "u < N" "t \<noteq> u" "P (f t)" "P (f u)"
  shows "2 \<le> cnt N P f"
proof -
  have "(\<Sum>v\<in>{..<N} - {t} - {u}. if P (f v) then 1 else (0::int)) \<ge> 0" by (simp add: sum_nonneg)
  with assms show ?thesis
    by (simp add: cnt_def sum.remove [of "{..<N}" t] sum.remove [of "{..<N} - {t}" u])
qed

lemma cnt_cong: "(\<And>t. t < N \<Longrightarrow> P (f t) = Q (f t)) \<Longrightarrow> cnt N P f = cnt N Q f"
  by (simp add: cnt_def)

text \<open>Threads inside \<open>w_to_X\<close>: since the last exit from X (counted in X) or before it (counted in w).\<close>

fun Xcur :: "int \<Rightarrow> qpc \<Rightarrow> bool" where
  "Xcur e (Wait_X g) = (g = e)"
| "Xcur e _ = False"

fun Xold :: "int \<Rightarrow> qpc \<Rightarrow> bool" where
  "Xold e (Wait_X g) = (g \<noteq> e)"
| "Xold e _ = False"

definition counts_ok :: "nat \<Rightarrow> qlock \<Rightarrow> (nat \<Rightarrow> qpc) \<Rightarrow> bool" where
  "counts_ok N q f \<longleftrightarrow>
     r_n q = cnt N ((=) Hold_r) f \<and>
     w_n q = cnt N ((=) Hold_w) f + cnt N (Xold (generationXExit q)) f \<and>
     R_n q = cnt N ((=) Hold_R) f + cnt N ((=) Hold_RW) f + cnt N ((=) Wait_U) f \<and>
     W_n q = cnt N ((=) Hold_W) f \<and>
     U_n q = cnt N ((=) Wait_U) f \<and>
     X_n q = cnt N ((=) Hold_X) f + cnt N (Xcur (generationXExit q)) f \<and>
     numPendingGlobalWrites q =
       cnt N ((=) Wait_W) f + cnt N ((=) Wait_Wtry) f + cnt N ((=) Wait_U) f \<and>
     generationX q = generationXExit q + cnt N ((=) Hold_X) f"

text \<open>
  The lock is held exclusively (W), read globally (R), shared by r and w holders, or exclusively
  in X (\<open>hx = 1\<close>).
\<close>

definition mode_ok :: "int \<Rightarrow> int \<Rightarrow> int \<Rightarrow> int \<Rightarrow> int \<Rightarrow> int \<Rightarrow> bool" where
  "mode_ok r w R W X hx \<longleftrightarrow>
     W = 1 \<and> r = 0 \<and> w = 0 \<and> R = 0 \<and> X = 0 \<and> hx = 0 \<or>
     W = 0 \<and> R > 0 \<and> w = 0 \<and> X = 0 \<and> hx = 0 \<or>
     W = 0 \<and> R = 0 \<and> hx = 0 \<or>
     W = 0 \<and> R = 0 \<and> w = 0 \<and> r = 0 \<and> hx = 1"

definition gens_ok :: "nat \<Rightarrow> int \<Rightarrow> (nat \<Rightarrow> qpc) \<Rightarrow> bool" where
  "gens_ok N e f \<longleftrightarrow> (\<forall>t g. t < N \<longrightarrow> f t = Wait_X g \<longrightarrow> g \<le> e)"

definition qinv :: "nat \<Rightarrow> qsys \<Rightarrow> bool" where
  "qinv N s \<longleftrightarrow> counts_ok N (lk s) (pcs s) \<and>
     mode_ok (r_n (lk s)) (w_n (lk s)) (R_n (lk s)) (W_n (lk s)) (X_n (lk s))
       (cnt N ((=) Hold_X) (pcs s)) \<and>
     cnt N ((=) Hold_RW) (pcs s) + cnt N ((=) Wait_U) (pcs s) \<le> 1 \<and>
     gens_ok N (generationXExit (lk s)) (pcs s)"

lemma qinv_init: "qinv N qsys_init"
  by (simp add: qinv_def counts_ok_def mode_ok_def gens_ok_def qsys_init_def QLock_init_def cnt_def)

lemma notify_total: "me \<in> {CHR ''r'', CHR ''w'', CHR ''R'', CHR ''W'', CHR ''X''} \<Longrightarrow> W_n q = 0 \<Longrightarrow>
    \<exists>ns. notifyWeUnlocked me q = Inr ns"
  by (auto simp: notifyWeUnlocked_def notify_if_def i_block_def Let_def)

section \<open>Every operation is safe\<close>

definition safe :: "nat \<Rightarrow> nat \<Rightarrow> qsys \<Rightarrow> attempt result \<times> qpc \<times> qpc \<times> qpc \<Rightarrow> bool" where
  "safe N t s c = (case c of (r, pb, pt, pf) \<Rightarrow>
     (\<exists>a. r = Inr a \<and> qinv N (after t s pb pt pf a)))"

lemma counts_nonneg:
  assumes "counts_ok N q f"
  shows "0 \<le> r_n q" "0 \<le> w_n q" "0 \<le> R_n q" "0 \<le> W_n q" "0 \<le> U_n q" "0 \<le> X_n q"
    "0 \<le> numPendingGlobalWrites q" "cnt N ((=) Hold_X) f \<le> X_n q" "U_n q \<le> R_n q"
  using assms by (simp_all add: counts_ok_def)

lemma gens_upd [simp]:
  "gens_ok N e f \<Longrightarrow> (\<forall>g. p = Wait_X g \<longrightarrow> g \<le> e) \<Longrightarrow> gens_ok N e (f(t := p))"
  by (auto simp: gens_ok_def)

text \<open>How each operation moves the lock between its modes.\<close>

lemma mode_acquire:
  assumes "mode_ok r w R W X hx" "0 \<le> r" "0 \<le> w" "0 \<le> R" "0 \<le> W" "0 \<le> X" "hx \<le> X"
  shows "W + X = 0 \<Longrightarrow> mode_ok (r + 1) w R W X hx"
    and "R + W + X = 0 \<Longrightarrow> mode_ok r (w + 1) R W X hx"
    and "w + W + X = 0 \<Longrightarrow> mode_ok r w (R + 1) W X hx"
    and "r + w + R + W + X = 0 \<Longrightarrow> mode_ok r w R (W + 1) X hx"
    and "w + r + R + W = 0 \<Longrightarrow> hx = 0 \<Longrightarrow> mode_ok r w R W X 1"
  using assms by (auto simp: mode_ok_def)

lemma mode_release:
  assumes "mode_ok r w R W X hx" "0 \<le> r" "0 \<le> w" "0 \<le> R" "0 \<le> W" "0 \<le> X" "hx \<le> X"
  shows "0 < r \<Longrightarrow> mode_ok (r - 1) w R W X hx"
    and "0 < w \<Longrightarrow> mode_ok r (w - 1) R W X hx"
    and "0 < R \<Longrightarrow> mode_ok r w (R - 1) W X hx"
    and "0 < W \<Longrightarrow> mode_ok r w R (W - 1) X hx"
    and "0 < W \<Longrightarrow> mode_ok r w 1 0 X hx"
    and "0 < R \<Longrightarrow> W + R + w + r \<le> 1 \<Longrightarrow> mode_ok r w 0 1 X hx"
    and "0 < w \<Longrightarrow> mode_ok r (w - 1) R W (X + 1) hx"
    and "0 < hx \<Longrightarrow> mode_ok r X R W 0 0"
  using assms by (auto simp: mode_ok_def)

text \<open>What the invariant gives an operation, in one bundle.\<close>

lemma qinv_D:
  assumes "qinv N s"
  shows "counts_ok N (lk s) (pcs s)"
    and "mode_ok (r_n (lk s)) (w_n (lk s)) (R_n (lk s)) (W_n (lk s)) (X_n (lk s))
       (cnt N ((=) Hold_X) (pcs s))"
    and "cnt N ((=) Hold_RW) (pcs s) + cnt N ((=) Wait_U) (pcs s) \<le> 1"
    and "gens_ok N (generationXExit (lk s)) (pcs s)"
    and "0 \<le> r_n (lk s)" "0 \<le> w_n (lk s)" "0 \<le> R_n (lk s)" "0 \<le> W_n (lk s)" "0 \<le> X_n (lk s)"
    and "cnt N ((=) Hold_X) (pcs s) \<le> X_n (lk s)"
  using assms by (auto simp: qinv_def dest: counts_nonneg)

lemmas mode_rules = mode_acquire mode_release

lemma unlocked_total:
  "me \<in> {CHR ''r'', CHR ''w'', CHR ''R'', CHR ''W'', CHR ''X''} \<Longrightarrow> W_n q = 0 \<Longrightarrow>
    \<exists>ns. unlocked me b q = Inr (Ret b q ns)"
  using notify_total [of me q] by (auto simp: unlocked_def)

lemma holder_counted:
  assumes "counts_ok N (lk s) (pcs s)" "t < N"
  shows "pcs s t = Hold_r \<Longrightarrow> 0 < r_n (lk s)"
    and "pcs s t = Hold_w \<Longrightarrow> 0 < w_n (lk s)"
    and "pcs s t = Hold_R \<or> pcs s t = Hold_RW \<or> pcs s t = Wait_U \<Longrightarrow> 0 < R_n (lk s)"
    and "pcs s t = Hold_W \<Longrightarrow> 0 < W_n (lk s)"
    and "pcs s t = Hold_X \<Longrightarrow> 0 < cnt N ((=) Hold_X) (pcs s) \<and> 0 < X_n (lk s)"
    and "pcs s t = Wait_X g \<Longrightarrow> g \<noteq> generationXExit (lk s) \<Longrightarrow> 0 < w_n (lk s)"
    and "pcs s t = Hold_RW \<Longrightarrow> 0 < cnt N ((=) Hold_RW) (pcs s)"
    and "pcs s t = Wait_U \<Longrightarrow> 0 < cnt N ((=) Wait_U) (pcs s)"
  using assms cnt_pos [of t N "(=) Hold_r" "pcs s"] cnt_pos [of t N "(=) Hold_w" "pcs s"]
    cnt_pos [of t N "(=) Hold_R" "pcs s"] cnt_pos [of t N "(=) Hold_RW" "pcs s"]
    cnt_pos [of t N "(=) Wait_U" "pcs s"] cnt_pos [of t N "(=) Hold_W" "pcs s"]
    cnt_pos [of t N "(=) Hold_X" "pcs s"] cnt_pos [of t N "Xold (generationXExit (lk s))" "pcs s"]
    cnt_nonneg [of N "Xold (generationXExit (lk s))" "pcs s"]
    cnt_nonneg [of N "Xcur (generationXExit (lk s))" "pcs s"]
    cnt_nonneg [of N "(=) Hold_w" "pcs s"] cnt_nonneg [of N "(=) Hold_R" "pcs s"]
    cnt_nonneg [of N "(=) Hold_RW" "pcs s"] cnt_nonneg [of N "(=) Wait_U" "pcs s"]
  by (auto simp: counts_ok_def simp del: cnt_nonneg)

lemma safe_lock_r:
  assumes inv: "qinv N s" and t: "t < N" "pcs s t = Idle \<or> pcs s t = Wait_r"
  shows "safe N t s (lock_r (lk s), Wait_r, Hold_r, Idle)"
proof -
  have "counts_ok N (lk s) ((pcs s)(t := Wait_r))"
    "counts_ok N (lk s\<lparr>r_n := r_n (lk s) + 1\<rparr>) ((pcs s)(t := Hold_r))"
    
    using qinv_D(1) [OF inv] t by (auto simp: counts_ok_def)
  with qinv_D [OF inv] t show ?thesis
    by (auto simp: safe_def lock_r_def after_def qinv_def mode_acquire r_legal_def r_legal_ignore_greed_def)
qed

lemma safe_lock_w:
  assumes inv: "qinv N s" and t: "t < N" "pcs s t = Idle \<or> pcs s t = Wait_w"
  shows "safe N t s (lock_w (lk s), Wait_w, Hold_w, Idle)"
proof -
  have "counts_ok N (lk s) ((pcs s)(t := Wait_w))"
    "counts_ok N (lk s\<lparr>w_n := w_n (lk s) + 1\<rparr>) ((pcs s)(t := Hold_w))"
    
    using qinv_D(1) [OF inv] t by (auto simp: counts_ok_def)
  with qinv_D [OF inv] t show ?thesis
    by (auto simp: safe_def lock_w_def after_def qinv_def mode_acquire w_legal_def w_legal_ignore_greed_def)
qed

lemma safe_lock_R:
  assumes inv: "qinv N s" and t: "t < N" "pcs s t = Idle \<or> pcs s t = Wait_R"
  shows "safe N t s (lock_R (lk s), Wait_R, Hold_R, Idle)"
proof -
  have "counts_ok N (lk s) ((pcs s)(t := Wait_R))"
    "counts_ok N (lk s\<lparr>R_n := R_n (lk s) + 1\<rparr>) ((pcs s)(t := Hold_R))"
    
    using qinv_D(1) [OF inv] t by (auto simp: counts_ok_def)
  with qinv_D [OF inv] t show ?thesis
    by (auto simp: safe_def lock_R_def after_def qinv_def mode_acquire R_legal_def R_legal_ignore_greed_def)
qed

lemma safe_lock_R_try:
  assumes inv: "qinv N s" and t: "t < N" "pcs s t = Idle \<or> pcs s t = Wait_Rtry"
  shows "safe N t s (lock_R_try b (lk s), Wait_Rtry, Hold_R, Idle)"
proof -
  have "counts_ok N (lk s) ((pcs s)(t := Wait_Rtry))"
    "counts_ok N (lk s\<lparr>R_n := R_n (lk s) + 1\<rparr>) ((pcs s)(t := Hold_R))"
    "counts_ok N (lk s) ((pcs s)(t := Idle))"
    using qinv_D(1) [OF inv] t by (auto simp: counts_ok_def)
  with qinv_D [OF inv] t show ?thesis
    by (auto simp: safe_def lock_R_try_def after_def qinv_def mode_acquire R_legal_def R_legal_ignore_greed_def)
qed

text \<open>
  An operation with an entry part: once the entry part is done, the thread is where a wake-up
  finds it.
\<close>

lemma safe_entered:
  assumes "safe N t \<lparr>lk = q, pcs = (pcs s)(t := p)\<rparr> c"
  shows "safe N t s c"
proof -
  have "after t \<lparr>lk = q, pcs = (pcs s)(t := p)\<rparr> pb pt pf a = after t s pb pt pf a" for pb pt pf a
    by (cases a) (simp_all add: after_def)
  with assms show ?thesis by (cases c) (simp add: safe_def)
qed

lemma safe_lock_W_loop:
  assumes inv: "qinv N s" and t: "t < N" "pcs s t = Wait_W"
  shows "safe N t s (lock_W_loop (lk s), Wait_W, Hold_W, Idle)"
proof -
  have "counts_ok N (lk s) ((pcs s)(t := Wait_W))"
    "counts_ok N (lk s\<lparr>numPendingGlobalWrites := numPendingGlobalWrites (lk s) - 1,
        W_n := W_n (lk s) + 1\<rparr>) ((pcs s)(t := Hold_W))"
    using qinv_D(1) [OF inv] t by (auto simp: counts_ok_def)
  with qinv_D [OF inv] t show ?thesis
    by (auto simp: safe_def lock_W_loop_def after_def qinv_def Let_def mode_acquire W_legal_def)
qed

lemma safe_lock_W_try_loop:
  assumes inv: "qinv N s" and t: "t < N" "pcs s t = Wait_Wtry"
  shows "safe N t s (lock_W_try_loop b (lk s), Wait_Wtry, Hold_W, Idle)"
proof -
  have "counts_ok N (lk s) ((pcs s)(t := Wait_Wtry))"
    "counts_ok N (lk s\<lparr>numPendingGlobalWrites := numPendingGlobalWrites (lk s) - 1,
        W_n := W_n (lk s) + 1\<rparr>) ((pcs s)(t := Hold_W))"
    "counts_ok N (lk s\<lparr>numPendingGlobalWrites := numPendingGlobalWrites (lk s) - 1\<rparr>)
        ((pcs s)(t := Idle))"
    using qinv_D(1) [OF inv] t by (auto simp: counts_ok_def)
  moreover have "W_n (lk s) = 0" if "W_legal (lk s)"
    using that qinv_D(5-9) [OF inv] by (simp add: W_legal_def)
  ultimately show ?thesis
    using qinv_D [OF inv] t
    by (auto simp: safe_def lock_W_try_loop_def after_def qinv_def Let_def mode_acquire W_legal_def)
qed

lemma safe_lock_W:
  assumes inv: "qinv N s" and t: "t < N" "pcs s t = Idle"
  shows "safe N t s (lock_W (lk s), Wait_W, Hold_W, Idle)"
    and "safe N t s (lock_W_try b (lk s), Wait_Wtry, Hold_W, Idle)"
proof -
  let ?q = "lk s\<lparr>numPendingGlobalWrites := numPendingGlobalWrites (lk s) + 1\<rparr>"
  have "qinv N \<lparr>lk = ?q, pcs = (pcs s)(t := Wait_W)\<rparr>" "qinv N \<lparr>lk = ?q, pcs = (pcs s)(t := Wait_Wtry)\<rparr>"
    using inv t by (auto simp: qinv_def counts_ok_def)
  from safe_lock_W_loop [OF this(1) t(1)] safe_lock_W_try_loop [OF this(2) t(1), of b]
  have "safe N t \<lparr>lk = ?q, pcs = (pcs s)(t := Wait_W)\<rparr> (lock_W (lk s), Wait_W, Hold_W, Idle)"
    "safe N t \<lparr>lk = ?q, pcs = (pcs s)(t := Wait_Wtry)\<rparr> (lock_W_try b (lk s), Wait_Wtry, Hold_W, Idle)"
    by (simp_all add: lock_W_def lock_W_try_def)
  from this [THEN safe_entered] show "safe N t s (lock_W (lk s), Wait_W, Hold_W, Idle)"
    and "safe N t s (lock_W_try b (lk s), Wait_Wtry, Hold_W, Idle)" .
qed

text \<open>The releasing operations: counters and mode follow, and notification cannot fail.\<close>

lemma safe_unlocked:
  assumes "me \<in> {CHR ''r'', CHR ''w'', CHR ''R'', CHR ''W'', CHR ''X''}" "W_n q = 0"
    and "qinv N \<lparr>lk = q, pcs = (pcs s)(t := pt)\<rparr>"
  shows "safe N t s (unlocked me True q, pb, pt, pf)"
  using unlocked_total [OF assms(1,2), of True] assms(3) by (auto simp: safe_def after_def)

lemma mode_W_zero:
  assumes "mode_ok r w R W X hx"
  shows "0 < r \<or> 0 < w \<or> 0 < R \<or> 0 < hx \<Longrightarrow> W = 0"
    and "0 < W \<Longrightarrow> W = 1 \<and> r = 0 \<and> w = 0 \<and> R = 0 \<and> X = 0"
    and "0 < R \<Longrightarrow> w = 0 \<and> X = 0"
    and "0 < w \<Longrightarrow> R = 0"
    and "0 < w \<Longrightarrow> hx = 0"
    and "0 < hx \<Longrightarrow> hx = 1 \<and> W = 0 \<and> R = 0 \<and> w = 0 \<and> r = 0"
  using assms by (auto simp: mode_ok_def)

lemma safe_unlock_r:
  assumes inv: "qinv N s" and t: "t < N" "pcs s t = Hold_r"
  shows "safe N t s (unlock_r (lk s), Idle, Idle, Idle)"
proof -
  note D = qinv_D [OF inv]
  have pos: "0 < r_n (lk s)" using holder_counted(1) [OF D(1) t] .
  have "qinv N \<lparr>lk = lk s\<lparr>r_n := r_n (lk s) - 1\<rparr>, pcs = (pcs s)(t := Idle)\<rparr>"
    using D t mode_release(1) [OF D(2,5-10) pos] by (auto simp: qinv_def counts_ok_def)
  with pos mode_W_zero(1) [OF D(2)] show ?thesis by (simp add: unlock_r_def safe_unlocked)
qed

lemma safe_unlock_w:
  assumes inv: "qinv N s" and t: "t < N" "pcs s t = Hold_w"
  shows "safe N t s (unlock_w (lk s), Idle, Idle, Idle)"
proof -
  note D = qinv_D [OF inv]
  have pos: "0 < w_n (lk s)" using holder_counted(2) [OF D(1) t] .
  have "qinv N \<lparr>lk = lk s\<lparr>w_n := w_n (lk s) - 1\<rparr>, pcs = (pcs s)(t := Idle)\<rparr>"
    using D t mode_release(2) [OF D(2,5-10) pos] by (auto simp: qinv_def counts_ok_def)
  with pos mode_W_zero(1) [OF D(2)] show ?thesis by (simp add: unlock_w_def safe_unlocked)
qed

lemma safe_unlock_R:
  assumes inv: "qinv N s" and t: "t < N" "pcs s t = Hold_R \<or> pcs s t = Hold_RW"
  shows "safe N t s (unlock_R (lk s), Idle, Idle, Idle)"
proof -
  note D = qinv_D [OF inv]
  have pos: "0 < R_n (lk s)" using holder_counted(3) [OF D(1) t(1)] t(2) by blast
  have "qinv N \<lparr>lk = lk s\<lparr>R_n := R_n (lk s) - 1\<rparr>, pcs = (pcs s)(t := Idle)\<rparr>"
    using D t mode_release(3) [OF D(2,5-10) pos] by (auto simp: qinv_def counts_ok_def)
  with pos mode_W_zero(1) [OF D(2)] show ?thesis by (simp add: unlock_R_def safe_unlocked)
qed

lemma safe_unlock_W:
  assumes inv: "qinv N s" and t: "t < N" "pcs s t = Hold_W"
  shows "safe N t s (unlock_W (lk s), Idle, Idle, Idle)"
proof -
  note D = qinv_D [OF inv]
  have pos: "0 < W_n (lk s)" using holder_counted(4) [OF D(1) t] .
  have "qinv N \<lparr>lk = lk s\<lparr>W_n := W_n (lk s) - 1\<rparr>, pcs = (pcs s)(t := Idle)\<rparr>"
    using D t mode_release(4) [OF D(2,5-10) pos] by (auto simp: qinv_def counts_ok_def)
  with mode_W_zero(2) [OF D(2) pos] show ?thesis by (simp add: unlock_W_def safe_unlocked)
qed

text \<open>The downgrade and the upgrade.\<close>

lemma safe_W_to_R:
  assumes inv: "qinv N s" and t: "t < N" "pcs s t = Hold_W"
  shows "safe N t s (W_to_R (lk s), Idle, Hold_RW, Idle)"
proof -
  note D = qinv_D [OF inv]
  have pos: "0 < W_n (lk s)" using holder_counted(4) [OF D(1) t] .
  have z: "W_n (lk s) = 1" "R_n (lk s) = 0" "U_n (lk s) = 0"
    using mode_W_zero(2) [OF D(2) pos] counts_nonneg(5,9) [OF D(1)] by auto
  have "qinv N \<lparr>lk = lk s\<lparr>W_n := 0, R_n := 1\<rparr>, pcs = (pcs s)(t := Hold_RW)\<rparr>"
    using D t z mode_release(5) [OF D(2,5-10) pos] cnt_nonneg [of N "(=) Hold_R" "pcs s"]
      cnt_nonneg [of N "(=) Hold_RW" "pcs s"] by (auto simp: qinv_def counts_ok_def simp del: cnt_nonneg)
  with z show ?thesis by (simp add: W_to_R_def safe_unlocked)
qed

lemma safe_blocked:
  assumes "qinv N s" "pcs s t = p"
  shows "safe N t s (Inr (Blocked (lk s)), p, pt, pf)"
proof -
  have "after t s p pt pf (Blocked (lk s)) = s"
    using assms(2) by (cases s) (simp add: after_def fun_upd_idem)
  with assms(1) show ?thesis by (simp add: safe_def)
qed

lemma safe_R_to_W_loop:
  assumes inv: "qinv N s" and t: "t < N" "pcs s t = Wait_U"
  shows "safe N t s (R_to_W_loop (lk s), Wait_U, Hold_W, Idle)"
proof (cases "W_n (lk s) + R_n (lk s) + w_n (lk s) + r_n (lk s) > 1")
  case True
  with safe_blocked [OF inv t(2)] show ?thesis by (simp add: R_to_W_loop_def)
next
  case False
  note D = qinv_D [OF inv]
  have pos: "0 < R_n (lk s)" "0 < U_n (lk s)" 
    using holder_counted(3) [OF D(1) t(1)] cnt_pos [OF t(1), of "(=) Wait_U" "pcs s"] D(1) t(2)
    by (auto simp: counts_ok_def)
  have z: "R_n (lk s) = 1" "W_n (lk s) = 0" "U_n (lk s) = 1"
    using False pos D(5-8) counts_nonneg(9) [OF D(1)] by auto
  have "qinv N \<lparr>lk = lk s\<lparr>numPendingGlobalWrites := numPendingGlobalWrites (lk s) - 1,
      R_n := 0, W_n := 1, U_n := 0\<rparr>, pcs = (pcs s)(t := Hold_W)\<rparr>"
    using D t z False mode_release(6) [OF D(2,5-10) pos(1)] by (auto simp: qinv_def counts_ok_def)
  with False z show ?thesis by (simp add: safe_def R_to_W_loop_def after_def)
qed

lemma safe_R_to_W:
  assumes inv: "qinv N s" and t: "t < N" "pcs s t = Hold_RW"
  shows "safe N t s (R_to_W (lk s), Wait_U, Hold_W, Idle)"
proof -
  note D = qinv_D [OF inv]
  let ?s = "\<lparr>lk = lk s\<lparr>U_n := 1, numPendingGlobalWrites := numPendingGlobalWrites (lk s) + 1\<rparr>,
    pcs = (pcs s)(t := Wait_U)\<rparr>"
  have pos: "0 < R_n (lk s)" using holder_counted(3) [OF D(1) t(1)] t(2) by blast
  have z: "W_n (lk s) = 0" using mode_W_zero(1) [OF D(2)] pos by simp
  have u: "U_n (lk s) = 0"
    using D(1,3) cnt_pos [OF t(1), of "(=) Hold_RW" "pcs s"] t(2) cnt_nonneg [of N "(=) Wait_U" "pcs s"]
    by (simp add: counts_ok_def del: cnt_nonneg)
  have "qinv N ?s" using D t u by (auto simp: qinv_def counts_ok_def)
  from safe_R_to_W_loop [OF this t(1)] pos z u
  have "safe N t ?s (R_to_W (lk s), Wait_U, Hold_W, Idle)" by (simp add: R_to_W_def)
  then show ?thesis by (rule safe_entered)
qed

text \<open>Into X and out of it.\<close>

lemma safe_w_to_X_loop:
  assumes inv: "qinv N s" and t: "t < N" "pcs s t = Wait_X g"
  shows "safe N t s (w_to_X_loop g (lk s), Wait_X g, Hold_X, Hold_w)"
proof -
  note D = qinv_D [OF inv]
  let ?q = "lk s\<lparr>generationX := generationX (lk s) + 1\<rparr>"
  have ge: "g \<le> generationXExit (lk s)" using D(4) t by (simp add: gens_ok_def)
  have gx: "generationX (lk s) = generationXExit (lk s) + cnt N ((=) Hold_X) (pcs s)"
    using D(1) by (simp add: counts_ok_def)
  show ?thesis
  proof (cases "g = generationX (lk s)")
    case True
    with gx ge have hx: "cnt N ((=) Hold_X) (pcs s) = 0" "g = generationXExit (lk s)"
      using cnt_nonneg [of N "(=) Hold_X" "pcs s"] by (auto simp del: cnt_nonneg)
    show ?thesis
    proof (cases "X_legal (lk s)")
      case True
      then have z: "w_n (lk s) = 0" "W_n (lk s) = 0" using D(5-8) by (auto simp: X_legal_def)
      have "qinv N \<lparr>lk = ?q, pcs = (pcs s)(t := Hold_X)\<rparr>"
        using D t hx mode_acquire(5) [OF D(2,5-10)] True
        by (auto simp: qinv_def counts_ok_def X_legal_def)
      with True z \<open>g = generationX (lk s)\<close> show ?thesis
        by (simp add: w_to_X_loop_def safe_unlocked)
    qed (use True safe_blocked [OF inv t(2)] in \<open>simp add: w_to_X_loop_def\<close>)
  next
    case ng: False
    show ?thesis
    proof (cases "g = generationXExit (lk s)")
      case False
      then have pos: "0 < w_n (lk s)" using holder_counted(6) [OF D(1) t] by simp
      have "R_n (lk s) = 0" using mode_W_zero(4) [OF D(2) pos] .
      moreover have "qinv N \<lparr>lk = lk s, pcs = (pcs s)(t := Hold_w)\<rparr>"
        using D t False by (auto simp: qinv_def counts_ok_def)
      ultimately show ?thesis using ng False pos by (simp add: w_to_X_loop_def safe_def after_def)
    qed (use ng safe_blocked [OF inv t(2)] in \<open>simp add: w_to_X_loop_def\<close>)
  qed
qed

lemma safe_w_to_X:
  assumes inv: "qinv N s" and t: "t < N" "pcs s t = Hold_w"
  shows "safe N t s (w_to_X (lk s), Wait_X (generationX (lk s)), Hold_X, Hold_w)"
proof -
  note D = qinv_D [OF inv]
  let ?s = "\<lparr>lk = lk s\<lparr>X_n := X_n (lk s) + 1, w_n := w_n (lk s) - 1\<rparr>,
    pcs = (pcs s)(t := Wait_X (generationX (lk s)))\<rparr>"
  have pos: "0 < w_n (lk s)" using holder_counted(2) [OF D(1) t] .
  then have "cnt N ((=) Hold_X) (pcs s) = 0" using mode_W_zero(5) [OF D(2)] by simp
  moreover from this have "generationX (lk s) = generationXExit (lk s)" using D(1) by (simp add: counts_ok_def)
  ultimately have "qinv N ?s"
    using D t mode_release(7) [OF D(2,5-10) pos] by (auto simp: qinv_def counts_ok_def)
  from safe_w_to_X_loop [OF this t(1)] pos
  have "safe N t ?s (w_to_X (lk s), Wait_X (generationX (lk s)), Hold_X, Hold_w)"
    by (simp add: w_to_X_def)
  then show ?thesis by (rule safe_entered)
qed

text \<open>At an exit from X, every thread that was waiting for X is handed w.\<close>

lemma cnt_exit:
  assumes "gens_ok N e f"
  shows "cnt N (Xcur (e + 1)) f = 0" "cnt N (Xold (e + 1)) f = cnt N (Xcur e) f + cnt N (Xold e) f"
proof -
  have c: "\<not> Xcur (e + 1) (f u)" "Xold (e + 1) (f u) \<longleftrightarrow> Xcur e (f u) \<or> Xold e (f u)"
    "\<not> (Xcur e (f u) \<and> Xold e (f u))" if "u < N" for u
    using assms that by (cases "f u"; fastforce simp: gens_ok_def)+
  show "cnt N (Xcur (e + 1)) f = 0" using c(1) by (simp add: cnt_def)
  show "cnt N (Xold (e + 1)) f = cnt N (Xcur e) f + cnt N (Xold e) f"
    unfolding cnt_def sum.distrib [symmetric] by (rule sum.cong) (use c in auto)
qed

lemma safe_X_to_w:
  assumes inv: "qinv N s" and t: "t < N" "pcs s t = Hold_X"
  shows "safe N t s (X_to_w (lk s), Idle, Hold_w, Idle)"
proof -
  note D = qinv_D [OF inv]
  let ?e = "generationXExit (lk s)"
  let ?s = "\<lparr>lk = lk s\<lparr>w_n := X_n (lk s), X_n := 0, generationXExit := ?e + 1\<rparr>,
    pcs = (pcs s)(t := Hold_w)\<rparr>"
  have hx: "0 < cnt N ((=) Hold_X) (pcs s)" "0 < X_n (lk s)" using holder_counted(5) [OF D(1) t] by auto
  have z: "cnt N ((=) Hold_X) (pcs s) = 1" "W_n (lk s) = 0" "R_n (lk s) = 0" "w_n (lk s) = 0"
    using mode_W_zero(6) [OF D(2) hx(1)] by auto
  have "gens_ok N (?e + 1) (pcs s)" using D(4) by (fastforce simp: gens_ok_def)
  moreover have "counts_ok N (lk ?s) (pcs ?s)"
    using D(1) t z cnt_exit [OF D(4)] cnt_nonneg [of N "Xold ?e" "pcs s"]
      cnt_nonneg [of N "(=) Hold_w" "pcs s"]
    by (auto simp: counts_ok_def simp del: cnt_nonneg)
  ultimately have "qinv N ?s"
    using D t z mode_release(8) [OF D(2,5-10) hx(1)] by (auto simp: qinv_def)
  with z hx show ?thesis by (simp add: X_to_w_def safe_unlocked)
qed

lemma safe_wake:
  assumes "qinv N s" "t < N" "wake_of b (pcs s t) (lk s) = Some c"
  shows "safe N t s c"
  using assms(3)
  by (cases "pcs s t")
    (auto simp: safe_lock_r safe_lock_w safe_lock_R safe_lock_R_try safe_lock_W_loop
       safe_lock_W_try_loop safe_R_to_W_loop safe_w_to_X_loop assms(1,2))

lemma safe_call:
  assumes "qinv N s" "t < N" "call_of k (pcs s t) (lk s) = Some c"
  shows "safe N t s c"
  using assms(3)
  by (cases k)
    (auto simp: safe_lock_r safe_lock_w safe_lock_R safe_lock_R_try safe_lock_W
       safe_unlock_r safe_unlock_w safe_unlock_R safe_unlock_W safe_W_to_R safe_R_to_W
       safe_w_to_X safe_X_to_w assms(1,2) split: if_splits intro: safe_wake [OF assms(1,2)])

lemma thread_call_safe:
  assumes "qinv N s" "t < N" "thread_call k t s = Some r"
  shows "\<exists>s'. r = Inr s' \<and> qinv N s'"
  using assms(3) safe_call [OF assms(1,2), of k]
  by (auto simp: thread_call_def safe_def split: option.splits)

lemma qreach_inv: "qreach N s \<Longrightarrow> qinv N s"
  by (induction rule: qreach.induct) (use qinv_init thread_call_safe in fastforce)+

section \<open>Wake-ups\<close>

text \<open>A waiter would not block again if it woke up now; its condition variable was signalled.\<close>

definition can_proceed :: "qpc \<Rightarrow> qlock \<Rightarrow> bool" where
  "can_proceed p q =
     (case wake_of False p q of
        Some (Inr (Blocked _), _) \<Rightarrow> False
      | Some _ \<Rightarrow> True
      | None \<Rightarrow> False)"

fun waits_on :: "qpc \<Rightarrow> char option" where
  "waits_on Wait_r = Some CHR ''r''"
| "waits_on Wait_w = Some CHR ''w''"
| "waits_on Wait_R = Some CHR ''R''"
| "waits_on Wait_Rtry = Some CHR ''R''"
| "waits_on Wait_W = Some CHR ''W''"
| "waits_on Wait_Wtry = Some CHR ''W''"
| "waits_on Wait_U = Some CHR ''U''"
| "waits_on (Wait_X g) = Some CHR ''X''"
| "waits_on _ = None"

definition noticed :: "qpc \<Rightarrow> notice list \<Rightarrow> bool" where
  "noticed p ns = (case waits_on p of None \<Rightarrow> False
     | Some c \<Rightarrow> NotifyOne c \<in> set ns \<or> NotifyAll c \<in> set ns)"

definition blocks :: "attempt result \<Rightarrow> bool" where
  "blocks r \<longleftrightarrow> (\<exists>q. r = Inr (Blocked q))"

lemma blocks_simps [simp]:
  "blocks (Inr (Blocked q))" "\<not> blocks (Inr (Ret b q ns))" "\<not> blocks (unlocked me b q)"
  "blocks (bind_result (guardE c e) f) = (c \<and> blocks (f ()))"
  "blocks (if c then r1 else r2) = (if c then blocks r1 else blocks r2)"
  "blocks (Inr (if c then a1 else a2)) = (if c then blocks (Inr a1) else blocks (Inr a2))"
  by (auto simp: blocks_def unlocked_def bind_result_eq_Inr guardE_eq_Inr)

lemma can_proceed_iff:
  "can_proceed p q = (case wake_of False p q of None \<Rightarrow> False | Some c \<Rightarrow> \<not> blocks (fst c))"
  by (auto simp: can_proceed_def blocks_def split: option.splits sum.splits attempt.splits)

lemma can_proceed_simps [simp]:
  "can_proceed Wait_r q = r_legal q"
  "can_proceed Wait_w q = w_legal q"
  "can_proceed Wait_R q = R_legal q"
  "can_proceed Wait_Rtry q = R_legal q"
  "can_proceed Wait_W q = W_legal q"
  "can_proceed Wait_Wtry q = W_legal q"
  "can_proceed Wait_U q = (W_n q + R_n q + w_n q + r_n q \<le> 1)"
  "can_proceed (Wait_X g) q = (if g = generationX q then X_legal q else g \<noteq> generationXExit q)"
  by (simp_all add: can_proceed_iff lock_r_def lock_w_def lock_R_def lock_R_try_def lock_W_loop_def
      lock_W_try_loop_def R_to_W_loop_def w_to_X_loop_def Let_def)

lemma can_proceed_waits: "can_proceed p q \<Longrightarrow> waits_on p \<noteq> None"
  by (cases p) (simp_all add: can_proceed_def)

text \<open>
  The legality predicates notifications are decided by, as a summary: a class whose acquisition
  has become legal is signalled, provided releasing \<open>me\<close> is what made it so.
\<close>

lemma notify_eq:
  assumes "\<And>c. i_block me c = Inr (blk c)" "W_n q = 0"
    and "\<not> (U_n q \<noteq> 0 \<and> r_n q + w_n q + W_n q + X_n q = 0 \<and> R_n q = 1)"
  shows "notifyWeUnlocked me q = Inr
    ((if me = CHR ''X'' then [NotifyAll CHR ''X''] else []) @
     (if X_legal q \<and> blk CHR ''X'' then [NotifyOne CHR ''X''] else []) @
     (if W_legal q \<and> blk CHR ''W'' then [NotifyOne CHR ''W''] else []) @
     (if W_legal q \<and> blk CHR ''W'' \<and> areQueueJumpingGlobalWritesPending q then []
      else (if R_legal_ignore_greed q \<and> blk CHR ''R'' then [NotifyAll CHR ''R''] else []) @
        (if w_legal_ignore_greed q \<and> blk CHR ''w'' then [NotifyAll CHR ''w''] else []) @
        (if r_legal_ignore_greed q \<and> blk CHR ''r'' then [NotifyAll CHR ''r''] else [])))"
proof -
  have n: "notify_if l me c nt = Inr (if l \<and> blk c then [nt] else [])" for l c nt
    using assms(1) by (simp add: notify_if_def)
  show ?thesis
    using assms(2,3) unfolding notifyWeUnlocked_def n Let_def by simp
qed

lemma i_block_eq:
  "i_block CHR ''r'' c = Inr (c = CHR ''W'' \<or> c = CHR ''X'')"
  "i_block CHR ''w'' c = Inr (c = CHR ''W'' \<or> c = CHR ''R'' \<or> c = CHR ''X'')"
  "i_block CHR ''R'' c = Inr (c = CHR ''W'' \<or> c = CHR ''w'' \<or> c = CHR ''X'')"
  "i_block CHR ''W'' c = Inr True"
  "i_block CHR ''X'' c = Inr True"
  by (simp_all add: i_block_def)

lemmas notify_eqs =
  notify_eq [OF i_block_eq(1)] notify_eq [OF i_block_eq(2)] notify_eq [OF i_block_eq(3)]
  notify_eq [OF i_block_eq(4)] notify_eq [OF i_block_eq(5)]

text \<open>The upgrade is signalled alone, when only the upgrader's R is left.\<close>

lemma notify_U:
  "U_n q \<noteq> 0 \<Longrightarrow> r_n q + w_n q + W_n q + X_n q = 0 \<Longrightarrow> R_n q = 1 \<Longrightarrow> W_n q = 0 \<Longrightarrow>
    notifyWeUnlocked me q =
      Inr ((if me = CHR ''X'' then [NotifyAll CHR ''X''] else []) @ [NotifyOne CHR ''U''])"
  by (simp add: notifyWeUnlocked_def)

text \<open>Every waiter that a change of the lock enables is signalled.\<close>

definition wakes :: "qlock \<Rightarrow> qlock \<Rightarrow> notice list \<Rightarrow> bool" where
  "wakes q q' ns \<longleftrightarrow> (\<forall>p. (\<forall>g. p = Wait_X g \<longrightarrow> g \<le> generationXExit q) \<longrightarrow>
     (p = Wait_U \<longrightarrow> U_n q' \<noteq> 0) \<longrightarrow> can_proceed p q' \<longrightarrow> can_proceed p q \<or> noticed p ns)"

lemma wakesI:
  assumes "r_legal q' \<Longrightarrow> r_legal q \<or> NotifyAll CHR ''r'' \<in> set ns"
    and "w_legal q' \<Longrightarrow> w_legal q \<or> NotifyAll CHR ''w'' \<in> set ns"
    and "R_legal q' \<Longrightarrow> R_legal q \<or> NotifyAll CHR ''R'' \<in> set ns"
    and "W_legal q' \<Longrightarrow> W_legal q \<or> NotifyOne CHR ''W'' \<in> set ns"
    and "U_n q' \<noteq> 0 \<Longrightarrow> can_proceed Wait_U q' \<Longrightarrow> can_proceed Wait_U q \<or> NotifyOne CHR ''U'' \<in> set ns"
    and "\<And>g. g \<le> generationXExit q \<Longrightarrow> can_proceed (Wait_X g) q' \<Longrightarrow>
      can_proceed (Wait_X g) q \<or> NotifyOne CHR ''X'' \<in> set ns \<or> NotifyAll CHR ''X'' \<in> set ns"
  shows "wakes q q' ns"
  unfolding wakes_def
proof (intro allI impI)
  fix p
  assume "\<forall>g. p = Wait_X g \<longrightarrow> g \<le> generationXExit q" "p = Wait_U \<longrightarrow> U_n q' \<noteq> 0" "can_proceed p q'"
  with assms show "can_proceed p q \<or> noticed p ns"
    using can_proceed_waits [of p q'] by (cases p) (auto simp: noticed_def)
qed

text \<open>Taking a lock enables nobody.\<close>

lemma wakes_acquire:
  assumes "0 \<le> r_n q" "0 \<le> w_n q" "0 \<le> R_n q" "0 \<le> W_n q" "0 \<le> X_n q" "U_n q \<le> R_n q"
  shows "wakes q (q\<lparr>r_n := r_n q + 1\<rparr>) []" "wakes q (q\<lparr>w_n := w_n q + 1\<rparr>) []"
    "wakes q (q\<lparr>R_n := R_n q + 1\<rparr>) []"
    "wakes q (q\<lparr>numPendingGlobalWrites := k, W_n := W_n q + 1\<rparr>) []" "wakes q q []"
  by (rule wakesI; use assms in \<open>auto simp: legal_defs\<close>)+

text \<open>Releasing one signals those it enables; \<open>U_ready\<close> is the condition of the upgrade.\<close>

definition U_ready :: "qlock \<Rightarrow> bool" where
  "U_ready q \<longleftrightarrow> U_n q \<noteq> 0 \<and> r_n q + w_n q + W_n q + X_n q = 0 \<and> R_n q = 1"

lemma wakes_U:
  assumes "notifyWeUnlocked me q' = Inr ns" "U_ready q'" "W_n q' = 0"
    and "0 \<le> r_n q'" "0 \<le> w_n q'" "0 \<le> X_n q'"
    and "r_legal q' \<Longrightarrow> r_legal q" "R_legal q' \<Longrightarrow> R_legal q"
    and "generationX q' = generationX q" "generationXExit q' = generationXExit q"
  shows "wakes q q' ns"
proof -
  have "NotifyOne CHR ''U'' \<in> set ns"
    using assms(1-3) notify_U [of q' me] by (auto simp: U_ready_def)
  with assms show ?thesis
    by (intro wakesI) (auto simp: U_ready_def w_legal_def w_legal_ignore_greed_def W_legal_def X_legal_def
        split: if_splits)
qed

definition counters_ok :: "qlock \<Rightarrow> bool" where
  "counters_ok q \<longleftrightarrow> 0 \<le> r_n q \<and> 0 \<le> w_n q \<and> 0 \<le> R_n q \<and> 0 \<le> W_n q \<and> 0 \<le> X_n q \<and>
     0 \<le> U_n q \<and> U_n q \<le> R_n q"

lemma wakes_unlock_r:
  assumes "mode_ok (r_n q) (w_n q) (R_n q) (W_n q) (X_n q) hx" "counters_ok q" "0 < r_n q"
    and n: "notifyWeUnlocked CHR ''r'' (q\<lparr>r_n := r_n q - 1\<rparr>) = Inr ns"
  shows "wakes q (q\<lparr>r_n := r_n q - 1\<rparr>) ns"
proof (cases "U_ready (q\<lparr>r_n := r_n q - 1\<rparr>)")
  case True
  with n show ?thesis
    by (rule wakes_U) (use assms in \<open>auto simp: legal_defs mode_ok_def counters_ok_def\<close>)
next
  case False
  have "W_n q = 0" using assms(1,3) by (auto simp: mode_ok_def)
  with n False have "ns = (if X_legal (q\<lparr>r_n := r_n q - 1\<rparr>) then [NotifyOne CHR ''X''] else []) @
      (if W_legal (q\<lparr>r_n := r_n q - 1\<rparr>) then [NotifyOne CHR ''W''] else [])"
    by (simp add: notify_eqs U_ready_def split: if_splits)
  with assms False show ?thesis
    by (intro wakesI) (auto simp: legal_defs mode_ok_def U_ready_def counters_ok_def split: if_splits)
qed

lemma wakes_unlock_w:
  assumes "mode_ok (r_n q) (w_n q) (R_n q) (W_n q) (X_n q) hx" "counters_ok q" "0 < w_n q"
    and n: "notifyWeUnlocked CHR ''w'' (q\<lparr>w_n := w_n q - 1\<rparr>) = Inr ns"
  shows "wakes q (q\<lparr>w_n := w_n q - 1\<rparr>) ns"
proof -
  have z: "W_n q = 0" "R_n q = 0" "U_n q = 0"
    using assms(1-3) by (auto simp: mode_ok_def counters_ok_def)
  then show ?thesis using n assms
    by (intro wakesI) (auto simp: notify_eqs legal_defs mode_ok_def counters_ok_def split: if_splits)
qed

lemma wakes_unlock_R:
  assumes "mode_ok (r_n q) (w_n q) (R_n q) (W_n q) (X_n q) hx" "counters_ok q" "U_n q < R_n q"
    and n: "notifyWeUnlocked CHR ''R'' (q\<lparr>R_n := R_n q - 1\<rparr>) = Inr ns"
  shows "wakes q (q\<lparr>R_n := R_n q - 1\<rparr>) ns"
proof (cases "U_ready (q\<lparr>R_n := R_n q - 1\<rparr>)")
  case True
  with n show ?thesis
    by (rule wakes_U) (use assms in \<open>auto simp: legal_defs mode_ok_def counters_ok_def\<close>)
next
  case False
  have z: "W_n q = 0" "w_n q = 0" "X_n q = 0"
    using assms(1-3) by (auto simp: mode_ok_def counters_ok_def)
  with n False assms show ?thesis
    by (intro wakesI) (auto simp: notify_eqs legal_defs U_ready_def counters_ok_def split: if_splits)
qed

lemma wakes_unlock_W:
  assumes "mode_ok (r_n q) (w_n q) (R_n q) (W_n q) (X_n q) hx" "counters_ok q" "0 < W_n q"
    and n: "notifyWeUnlocked CHR ''W'' (q\<lparr>W_n := W_n q - 1\<rparr>) = Inr ns"
  shows "wakes q (q\<lparr>W_n := W_n q - 1\<rparr>) ns"
proof -
  have z: "W_n q = 1" "R_n q = 0" "U_n q = 0" "r_n q = 0" "w_n q = 0" "X_n q = 0"
    using assms(1-3) by (auto simp: mode_ok_def counters_ok_def)
  then show ?thesis using n
    by (intro wakesI) (auto simp: notify_eqs legal_defs split: if_splits)
qed

lemma wakes_W_to_R:
  assumes "W_n q = 1" "R_n q = 0" "U_n q = 0" "w_n q = 0" "X_n q = 0" "r_n q = 0"
    and n: "notifyWeUnlocked CHR ''W'' (q\<lparr>W_n := 0, R_n := 1\<rparr>) = Inr ns"
  shows "wakes q (q\<lparr>W_n := 0, R_n := 1\<rparr>) ns"
  using assms by (intro wakesI) (auto simp: notify_eqs legal_defs split: if_splits)

lemma wakes_to_W:
  assumes "0 \<le> r_n q" "0 \<le> w_n q" "0 \<le> X_n q"
  shows "wakes q (q\<lparr>numPendingGlobalWrites := k, R_n := 0, W_n := 1, U_n := 0\<rparr>) []"
  using assms by (intro wakesI) (auto simp: legal_defs split: if_splits)

text \<open>A thread that enters X does so from w, and all the others inside \<open>w_to_X\<close> keep waiting.\<close>

lemma wakes_to_X:
  assumes "X_legal q'" "0 \<le> w_n q'" "0 \<le> r_n q'" "0 \<le> R_n q'" "0 \<le> W_n q'" "0 < X_n q'" "U_n q' = 0"
    and "generationX q' = generationXExit q' + 1" "generationXExit q' = generationXExit q"
    and "generationX q = generationXExit q"
  shows "wakes q q' ns"
  using assms by (intro wakesI) (auto simp: legal_defs split: if_splits)

lemma wakes_X_to_w:
  assumes "W_n q = 0" "R_n q = 0" "w_n q = 0" "U_n q = 0" "0 < X_n q"
    and n: "notifyWeUnlocked CHR ''X''
      (q\<lparr>w_n := X_n q, X_n := 0, generationXExit := generationXExit q + 1\<rparr>) = Inr ns"
  shows "wakes q (q\<lparr>w_n := X_n q, X_n := 0, generationXExit := generationXExit q + 1\<rparr>) ns"
  using assms by (intro wakesI) (auto simp: notify_eqs legal_defs split: if_splits)

lemma qinv_counters: "qinv N s \<Longrightarrow> counters_ok (lk s)"
  using counts_nonneg [OF qinv_D(1)] by (simp add: counters_ok_def)

lemma unlocked_eq: "unlocked me b q = Inr (Ret b' q' ns) \<longleftrightarrow> b' = b \<and> q' = q \<and> notifyWeUnlocked me q = Inr ns"
  by (auto simp: unlocked_def bind_result_eq_Inr)

lemma w_to_X_loop_ret:
  "w_to_X_loop g q = Inr (Ret b q' ns) \<Longrightarrow>
     q' = q \<and> ns = [] \<and> generationX q \<noteq> g \<or>
     b \<and> g = generationX q \<and> X_legal q \<and> q' = q\<lparr>generationX := generationX q + 1\<rparr>"
  by (auto simp: w_to_X_loop_def bind_result_eq_Inr guardE_eq_Inr unlocked_eq split: if_splits)

lemma wakes_w_to_X_loop:
  assumes inv: "qinv N s" and t: "t < N" "pcs s t = Wait_X g"
    and r: "w_to_X_loop g (lk s) = Inr (Ret b q' ns)"
  shows "wakes (lk s) q' ns"
proof (cases "g = generationX (lk s)")
  case True
  note D = qinv_D [OF inv]
  have "g \<le> generationXExit (lk s)" "generationXExit (lk s) \<le> generationX (lk s)"
    using D(1,4) t by (simp_all add: gens_ok_def counts_ok_def)
  with True have e: "generationX (lk s) = generationXExit (lk s)" by simp
  have "0 < X_n (lk s)"
    using cnt_pos [OF t(1), of "Xcur (generationXExit (lk s))" "pcs s"] True e t(2) D(1)
      cnt_nonneg [of N "(=) Hold_X" "pcs s"]
    by (simp add: counts_ok_def del: cnt_nonneg)
  with w_to_X_loop_ret [OF r] True e qinv_counters [OF inv] show ?thesis
    by (auto intro!: wakes_to_X simp: counters_ok_def X_legal_def)
next
  case False
  with w_to_X_loop_ret [OF r] wakes_acquire(5) [of "lk s"] qinv_counters [OF inv] show ?thesis
    by (auto simp: counters_ok_def)
qed

lemma wakes_w_to_X:
  assumes inv: "qinv N s" and t: "t < N" "pcs s t = Hold_w"
    and r: "w_to_X (lk s) = Inr (Ret b q' ns)"
  shows "wakes (lk s) q' ns"
proof -
  note D = qinv_D [OF inv]
  have pos: "0 < w_n (lk s)" using holder_counted(2) [OF D(1) t] .
  then have e: "generationX (lk s) = generationXExit (lk s)"
    using mode_W_zero(5) [OF D(2)] D(1) by (simp add: counts_ok_def)
  from r pos have "w_to_X_loop (generationX (lk s))
      (lk s\<lparr>X_n := X_n (lk s) + 1, w_n := w_n (lk s) - 1\<rparr>) = Inr (Ret b q' ns)"
    by (simp add: w_to_X_def)
  from w_to_X_loop_ret [OF this] e pos qinv_counters [OF inv] show ?thesis
    by (auto intro!: wakes_to_X simp: counters_ok_def X_legal_def)
qed

lemma wake_wakes:
  assumes inv: "qinv N s" and t: "t < N"
    and c: "wake_of d (pcs s t) (lk s) = Some (Inr (Ret b q' ns), pb, pt, pf)" "b \<or> pb \<noteq> Wait_Wtry"
  shows "wakes (lk s) q' ns"
proof (cases "pcs s t")
  case (Wait_X g)
  with c(1) wakes_w_to_X_loop [OF inv t this] show ?thesis by simp
qed (use c wakes_acquire [of "lk s"] wakes_to_W [of "lk s"] qinv_counters [OF inv] in
    \<open>auto simp: lock_r_def lock_w_def lock_R_def lock_R_try_def lock_W_loop_def lock_W_try_loop_def
      R_to_W_loop_def Let_def bind_result_eq_Inr guardE_eq_Inr counters_ok_def split: if_splits\<close>)

lemma wakes_R_to_W:
  assumes "counters_ok q" "R_to_W q = Inr (Ret b q' ns)"
  shows "wakes q q' ns"
  using assms wakes_to_W [of q "numPendingGlobalWrites q"]
  by (auto simp: R_to_W_def R_to_W_loop_def Let_def bind_result_eq_Inr guardE_eq_Inr counters_ok_def
      split: if_splits)

lemma wakes_locks:
  assumes "counters_ok q"
  shows "lock_r q = Inr (Ret b q' ns) \<Longrightarrow> wakes q q' ns"
    and "lock_w q = Inr (Ret b q' ns) \<Longrightarrow> wakes q q' ns"
    and "lock_R q = Inr (Ret b q' ns) \<Longrightarrow> wakes q q' ns"
    and "lock_R_try d q = Inr (Ret b q' ns) \<Longrightarrow> wakes q q' ns"
    and "lock_W q = Inr (Ret b q' ns) \<Longrightarrow> wakes q q' ns"
    and "lock_W_try d q = Inr (Ret True q' ns) \<Longrightarrow> wakes q q' ns"
  using assms wakes_acquire(1-3,5) [of q] wakes_acquire(4) [of q "numPendingGlobalWrites q"]
  by (auto simp: lock_r_def lock_w_def lock_R_def lock_R_try_def lock_W_def lock_W_try_def
      lock_W_loop_def lock_W_try_loop_def W_legal_def Let_def bind_result_eq_Inr guardE_eq_Inr counters_ok_def split: if_splits)

lemma wakes_unlocks:
  assumes inv: "qinv N s" and t: "t < N"
  shows "pcs s t = Hold_r \<Longrightarrow> unlock_r (lk s) = Inr (Ret b q' ns) \<Longrightarrow> wakes (lk s) q' ns"
    and "pcs s t = Hold_w \<Longrightarrow> unlock_w (lk s) = Inr (Ret b q' ns) \<Longrightarrow> wakes (lk s) q' ns"
    and "pcs s t = Hold_R \<or> pcs s t = Hold_RW \<Longrightarrow> unlock_R (lk s) = Inr (Ret b q' ns) \<Longrightarrow>
      wakes (lk s) q' ns"
    and "pcs s t = Hold_W \<Longrightarrow> unlock_W (lk s) = Inr (Ret b q' ns) \<Longrightarrow> wakes (lk s) q' ns"
    and "pcs s t = Hold_W \<Longrightarrow> W_to_R (lk s) = Inr (Ret b q' ns) \<Longrightarrow> wakes (lk s) q' ns"
    and "pcs s t = Hold_X \<Longrightarrow> X_to_w (lk s) = Inr (Ret b q' ns) \<Longrightarrow> wakes (lk s) q' ns"
proof -
  note D = qinv_D [OF inv] and C = qinv_counters [OF inv]
  note rel = wakes_unlock_r [OF D(2) C] wakes_unlock_w [OF D(2) C] wakes_unlock_R [OF D(2) C]
    wakes_unlock_W [OF D(2) C]
  note S = unlocked_eq bind_result_eq_Inr guardE_eq_Inr
  show "wakes (lk s) q' ns" if "pcs s t = Hold_r" "unlock_r (lk s) = Inr (Ret b q' ns)"
    using rel(1) that(2) by (auto simp: unlock_r_def S)
  show "wakes (lk s) q' ns" if "pcs s t = Hold_w" "unlock_w (lk s) = Inr (Ret b q' ns)"
    using rel(2) that(2) by (auto simp: unlock_w_def S)
  show "wakes (lk s) q' ns" if p: "pcs s t = Hold_R \<or> pcs s t = Hold_RW"
    and r: "unlock_R (lk s) = Inr (Ret b q' ns)"
  proof -
    have "U_n (lk s) < R_n (lk s)"
      using p D(1) cnt_pos [OF t, of "(=) Hold_R" "pcs s"] cnt_pos [OF t, of "(=) Hold_RW" "pcs s"]
        cnt_nonneg [of N "(=) Hold_R" "pcs s"] cnt_nonneg [of N "(=) Hold_RW" "pcs s"]
      by (auto simp: counts_ok_def simp del: cnt_nonneg)
    with rel(3) r show ?thesis by (auto simp: unlock_R_def S)
  qed
  show "wakes (lk s) q' ns" if "pcs s t = Hold_W" "unlock_W (lk s) = Inr (Ret b q' ns)"
    using rel(4) that(2) by (auto simp: unlock_W_def S)
  show "wakes (lk s) q' ns" if "pcs s t = Hold_W" "W_to_R (lk s) = Inr (Ret b q' ns)"
    using wakes_W_to_R [of "lk s"] that(2) mode_W_zero(2) [OF D(2)] by (auto simp: W_to_R_def S)
  show "wakes (lk s) q' ns" if "pcs s t = Hold_X" "X_to_w (lk s) = Inr (Ret b q' ns)"
    using wakes_X_to_w [of "lk s"] that(2) C by (auto simp: X_to_w_def S counters_ok_def)
qed

lemma call_wakes:
  assumes inv: "qinv N s" and t: "t < N"
    and c: "call_of k (pcs s t) (lk s) = Some (Inr (Ret b q' ns), pb, pt, pf)" "b \<or> pb \<noteq> Wait_Wtry"
  shows "wakes (lk s) q' ns"
proof (cases k)
  case (Wake d)
  with c wake_wakes [OF inv t, of d b q' ns pb pt pf] show ?thesis by simp
next
  case To_X
  with c(1) wakes_w_to_X [OF inv t, of b q' ns] show ?thesis by (simp split: if_splits)
qed (use c wakes_locks [OF qinv_counters [OF inv]] wakes_unlocks [OF inv t, of b q' ns]
    wakes_R_to_W [OF qinv_counters [OF inv], of b q' ns] in \<open>auto split: if_splits\<close>)

section \<open>Compatibility of holders\<close>

text \<open>The mode a thread holds, and the table of modes that may be held together.\<close>

datatype qmode = Mode_r | Mode_w | Mode_R | Mode_W | Mode_X

fun holds :: "qpc \<Rightarrow> qmode option" where
  "holds Hold_r = Some Mode_r"
| "holds Hold_w = Some Mode_w"
| "holds Hold_R = Some Mode_R"
| "holds Hold_RW = Some Mode_R"
| "holds Wait_U = Some Mode_R"
| "holds Hold_W = Some Mode_W"
| "holds Hold_X = Some Mode_X"
| "holds _ = None"

definition allowed :: "qmode \<Rightarrow> qmode \<Rightarrow> bool" where
  "allowed a b =
     (case a of
        Mode_r \<Rightarrow> b \<in> {Mode_r, Mode_w, Mode_R}
      | Mode_w \<Rightarrow> b \<in> {Mode_r, Mode_w}
      | Mode_R \<Rightarrow> b \<in> {Mode_r, Mode_R}
      | Mode_W \<Rightarrow> False
      | Mode_X \<Rightarrow> False)"

text \<open>The counter behind a held mode.\<close>

definition mode_count :: "nat \<Rightarrow> qsys \<Rightarrow> qmode \<Rightarrow> int" where
  "mode_count N s m =
     (case m of Mode_r \<Rightarrow> r_n (lk s) | Mode_w \<Rightarrow> w_n (lk s) | Mode_R \<Rightarrow> R_n (lk s)
      | Mode_W \<Rightarrow> W_n (lk s) | Mode_X \<Rightarrow> cnt N ((=) Hold_X) (pcs s))"

lemma holds_counted:
  assumes "qinv N s" "t < N" "holds (pcs s t) = Some m"
  shows "0 < mode_count N s m"
  using assms(3) holder_counted [OF qinv_D(1) [OF assms(1)] assms(2)]
  by (cases "pcs s t") (auto simp: mode_count_def)

lemma holds_exclusive:
  "holds p = Some Mode_W \<longleftrightarrow> p = Hold_W" "holds p = Some Mode_X \<longleftrightarrow> p = Hold_X"
  by (cases p; simp)+

lemma one_W_one_X:
  assumes "qinv N s" "t < N" "u < N" "t \<noteq> u"
  shows "\<not> (pcs s t = Hold_W \<and> pcs s u = Hold_W)" "\<not> (pcs s t = Hold_X \<and> pcs s u = Hold_X)"
proof -
  note D = qinv_D [OF assms(1)]
  have "cnt N ((=) Hold_W) (pcs s) \<le> 1" "cnt N ((=) Hold_X) (pcs s) \<le> 1"
    using D(1,2) by (auto simp: counts_ok_def mode_ok_def)
  then show "\<not> (pcs s t = Hold_W \<and> pcs s u = Hold_W)" "\<not> (pcs s t = Hold_X \<and> pcs s u = Hold_X)"
    using cnt_two [OF assms(2-4), of "(=) Hold_W" "pcs s"] cnt_two [OF assms(2-4), of "(=) Hold_X" "pcs s"]
    by auto
qed

lemma holds_allowed:
  assumes inv: "qinv N s" and t: "t < N" "u < N" "t \<noteq> u"
    and h: "holds (pcs s t) = Some a" "holds (pcs s u) = Some b"
  shows "allowed a b"
proof -
  have c: "0 < mode_count N s a" "0 < mode_count N s b"
    using holds_counted [OF inv] t h by blast+
  have n: "a = Mode_W \<Longrightarrow> b \<noteq> Mode_W" "a = Mode_X \<Longrightarrow> b \<noteq> Mode_X"
    using one_W_one_X [OF inv t] h by (auto simp: holds_exclusive)
  from qinv_D(2) [OF inv] c n show ?thesis
    unfolding mode_ok_def mode_count_def allowed_def by (cases a; cases b) auto
qed

section \<open>Properties\<close>

text \<open>A run of calls, with the notices sent; \<open>None\<close> where a call is not available or fails.\<close>

fun run_calls :: "(qcall \<times> nat) list \<Rightarrow> qsys \<Rightarrow> (qsys \<times> notice list) option" where
  "run_calls [] s = Some (s, [])"
| "run_calls ((c, t) # cs) s =
     (case call_of c (pcs s t) (lk s) of
        Some (Inr a, pb, pt, pf) \<Rightarrow>
          (case run_calls cs (after t s pb pt pf a) of
             None \<Rightarrow> None
           | Some (s', ns) \<Rightarrow> Some (s', (case a of Blocked _ \<Rightarrow> [] | Ret _ _ ns0 \<Rightarrow> ns0) @ ns))
      | _ \<Rightarrow> None)"

lemma qreach_run:
  "run_calls cs s = Some (s', ns) \<Longrightarrow> qreach N s \<Longrightarrow> \<forall>(c, t) \<in> set cs. t < N \<Longrightarrow> qreach N s'"
proof (induction cs s arbitrary: ns rule: run_calls.induct)
  case (2 c t cs s)
  then obtain a pb pt pf ns' where a: "call_of c (pcs s t) (lk s) = Some (Inr a, pb, pt, pf)"
    "run_calls cs (after t s pb pt pf a) = Some (s', ns')"
    by (auto split: option.splits prod.splits sum.splits)
  then have "thread_call c t s = Some (Inr (after t s pb pt pf a))" by (simp add: thread_call_def)
  with 2(3,4) have "qreach N (after t s pb pt pf a)" by (auto intro: qreach.step)
  with 2(1) [OF a(1) refl refl refl refl] a(2) 2(4) show ?case by auto
qed simp

text \<open>
  C11: no fatal assertion of the lock can fire: from the initial state, under every interleaving of
  the calls the threads are entitled to make, of spurious wake-ups and of timeouts, every call
  blocks or returns.
\<close>

theorem qlock_no_fatal:
  assumes "qreach N s" "t < N" "thread_call c t s = Some r"
  shows "\<exists>s'. r = Inr s'"
  using thread_call_safe [OF qreach_inv [OF assms(1)] assms(2,3)] by blast

theorem qlock_no_fatal_witness:
  "\<exists>s'. thread_call From_X 0 (fst (the (run_calls
     [(Lock_w, 0), (Lock_w, 1), (To_X, 1), (To_X, 0)] qsys_init))) = Some (Inr s')"
proof -
  let ?cs = "[(Lock_w, 0), (Lock_w, 1), (To_X, 1), (To_X, 0)] :: (qcall \<times> nat) list"
  obtain s ns where s: "run_calls ?cs qsys_init = Some (s, ns)" "pcs s 0 = Hold_X"
    by (auto simp: qsys_init_def QLock_init_def lock_w_def w_to_X_def w_to_X_loop_def Let_def
      legal_defs after_def unlocked_def notifyWeUnlocked_def notify_if_def i_block_def)
  have r: "qreach 2 s" by (rule qreach_run [OF s(1) qreach.start]) simp
  have "thread_call From_X 0 s = Some (bind_result (X_to_w (lk s)) (\<lambda>a. Inr (after 0 s Idle Hold_w Idle a)))"
    using s(2) by (simp add: thread_call_def)
  with qlock_no_fatal [OF r _ this] s(1) show ?thesis by auto
qed

text \<open>
  C10: holders are compatible: two threads hold the lock at the same time only in modes that the
  table of the class comment allows together; in particular W and X exclude everybody else.
\<close>

theorem qlock_compatible:
  assumes "qreach N s" "t < N" "u < N" "t \<noteq> u"
    and "holds (pcs s t) = Some a" "holds (pcs s u) = Some b"
  shows "allowed a b"
  using assms(2-6) by (rule holds_allowed [OF qreach_inv [OF assms(1)]])

theorem qlock_compatible_witness:
  "\<exists>s. qreach 2 s \<and> holds (pcs s 0) = Some Mode_R \<and> holds (pcs s 1) = Some Mode_r \<and> allowed Mode_R Mode_r"
proof -
  let ?cs = "[(Lock_R, 0), (Lock_r, 1)] :: (qcall \<times> nat) list"
  obtain s ns where s: "run_calls ?cs qsys_init = Some (s, ns)" "pcs s 0 = Hold_R" "pcs s 1 = Hold_r"
    by (auto simp: qsys_init_def QLock_init_def lock_R_def lock_r_def legal_defs after_def)
  have r: "qreach 2 s" by (rule qreach_run [OF s(1) qreach.start]) simp
  from qlock_compatible [OF r, of 0 1 Mode_R Mode_r] s r show ?thesis by auto
qed



text \<open>
  The exception is needed.  A reader that blocked because a \<open>lock_W_try\<close> was pending is not
  signalled when that call gives up, nor when the w it was compatible with is released: every
  other thread is idle, the lock is free, and the reader still waits for a notice that nobody
  has sent.
\<close>

theorem qlock_try_loses_wakeup:
  "\<exists>s ns. run_calls [(Lock_w, 0), (Lock_W_try False, 1), (Lock_r, 2), (Wake True, 1), (Unlock_w, 0)]
       qsys_init = Some (s, ns) \<and>
     lk s = QLock_init \<and> pcs s = (\<lambda>_. Idle)(2 := Wait_r) \<and> can_proceed Wait_r (lk s) \<and> \<not> noticed Wait_r ns"
  by (auto simp: qsys_init_def QLock_init_def lock_w_def lock_r_def lock_W_try_def lock_W_try_loop_def
      unlock_w_def unlocked_def notifyWeUnlocked_def notify_if_def i_block_def legal_defs after_def
      noticed_def Let_def)

end
