(* ===== verification/Comparators.thy ===== *)
theory Comparators
  imports Prelude
begin

text \<open>
  Three-way comparison functions as the C++ code uses them (negative, zero, positive): when such
  a function orders its arguments, how lexicographic composition keeps that, and the contract
  \<open>three_way\<close> that containers ordered by such a function rely on.
\<close>

section \<open>Signs\<close>

definition icmp :: "'a::linorder \<Rightarrow> 'a \<Rightarrow> int" where
  "icmp a b = (if a < b then -1 else if a = b then 0 else 1)"

definition lex :: "int \<Rightarrow> int \<Rightarrow> int" where
  "lex x y = (if x \<noteq> 0 then x else y)"

text \<open>The results \<open>x\<close>, \<open>y\<close>, \<open>z\<close> of comparing a with b, b with c and a with c fit together.\<close>

definition tri :: "int \<Rightarrow> int \<Rightarrow> int \<Rightarrow> bool" where
  "tri x y z \<longleftrightarrow> (x \<le> 0 \<and> y \<le> 0 \<longrightarrow> z \<le> 0 \<and> (z = 0 \<longrightarrow> x = 0 \<and> y = 0)) \<and>
     (x \<ge> 0 \<and> y \<ge> 0 \<longrightarrow> z \<ge> 0 \<and> (z = 0 \<longrightarrow> x = 0 \<and> y = 0))"

lemma icmp_simps [simp]:
  "icmp a a = 0" "icmp a b = 0 \<longleftrightarrow> a = b" "icmp a b < 0 \<longleftrightarrow> a < b" "0 < icmp a b \<longleftrightarrow> b < a"
  "icmp a b \<le> 0 \<longleftrightarrow> a \<le> b" "0 \<le> icmp a b \<longleftrightarrow> b \<le> a"
  by (auto simp: icmp_def)

lemma icmp_antisym: "icmp b a = - icmp a b"
  by (auto simp: icmp_def)

lemma sgn_icmp [simp]: "sgn (icmp a b) = icmp a b"
  by (simp add: icmp_def)

lemma sgn_diff: "sgn (a - b) = icmp a (b :: int)"
  by (simp add: icmp_def sgn_if)

lemma tri_icmp: "tri (icmp a b) (icmp b c) (icmp a c)"
  by (auto simp: tri_def)

lemma tri_diff: "tri (a - b) (b - c) (a - c :: int)"
  by (auto simp: tri_def)

lemma tri_zero: "tri 0 0 0"
  by (simp add: tri_def)

lemma tri_0: "tri 0 y z \<Longrightarrow> sgn y = sgn z"
  by (cases "y < 0"; cases "y = 0") (auto simp: tri_def)

lemma tri_lex: "tri x y z \<Longrightarrow> (x = 0 \<Longrightarrow> y = 0 \<Longrightarrow> tri x' y' z') \<Longrightarrow> tri (lex x x') (lex y y') (lex z z')"
  by (auto simp: tri_def lex_def)

lemma tri_neg: "tri (- x) (- y) (- z) \<longleftrightarrow> tri x y z"
  by (auto simp: tri_def)

lemma tri_sgn: "tri (sgn x) (sgn y) (sgn z) \<longleftrightarrow> tri x y z"
  by (auto simp: tri_def sgn_if)

lemma tri_swap: "tri (- y) (- x) (- z) \<longleftrightarrow> tri x y z"
  by (auto simp: tri_def)

lemma sgn_lex: "sgn (lex x y) = lex (sgn x) (sgn y)"
  by (simp add: lex_def sgn_if)

lemma lex_neg: "lex (- x) (- y) = - lex x y"
  by (simp add: lex_def)

lemma lex_simps [simp]: "lex 0 y = y" "lex x 0 = x" "lex x y = 0 \<longleftrightarrow> x = 0 \<and> y = 0"
  by (auto simp: lex_def)

section \<open>The contract of a three-way comparison\<close>

locale three_way =
  fixes dom :: "'a \<Rightarrow> bool"
    and cmp :: "'a \<Rightarrow> 'a \<Rightarrow> int"
  assumes antisym: "dom a \<Longrightarrow> dom b \<Longrightarrow> sgn (cmp b a) = - sgn (cmp a b)"
    and fits: "dom a \<Longrightarrow> dom b \<Longrightarrow> dom c \<Longrightarrow> tri (cmp a b) (cmp b c) (cmp a c)"
begin

lemma refl: "dom a \<Longrightarrow> cmp a a = 0"
  using antisym [of a a] by (simp add: sgn_if split: if_splits)

lemma gt_iff: "dom a \<Longrightarrow> dom b \<Longrightarrow> 0 < cmp b a \<longleftrightarrow> cmp a b < 0"
  using antisym [of a b] by (auto simp: sgn_if split: if_splits)

lemma eq_sym: "dom a \<Longrightarrow> dom b \<Longrightarrow> cmp a b = 0 \<Longrightarrow> cmp b a = 0"
  using antisym [of a b] by (auto simp: sgn_if split: if_splits)

lemma less_trans:
  "dom a \<Longrightarrow> dom b \<Longrightarrow> dom c \<Longrightarrow> cmp a b < 0 \<Longrightarrow> cmp b c < 0 \<Longrightarrow> cmp a c < 0"
  using fits [of a b c] by (auto simp: tri_def)

lemma le_trans:
  "dom a \<Longrightarrow> dom b \<Longrightarrow> dom c \<Longrightarrow> cmp a b \<le> 0 \<Longrightarrow> cmp b c \<le> 0 \<Longrightarrow> cmp a c \<le> 0"
  using fits [of a b c] by (auto simp: tri_def)

text \<open>Keys that compare equal are interchangeable.\<close>

lemma eq_cong:
  assumes "dom a" "dom b" "dom c" "cmp a b = 0"
  shows "sgn (cmp a c) = sgn (cmp b c)"
proof -
  have "cmp b a = 0" using assms eq_sym by blast
  with fits [OF assms(1-3)] fits [OF assms(2,1,3)] assms(4) have "tri 0 (cmp b c) (cmp a c)" by simp
  then show ?thesis by (simp add: tri_0)
qed

text \<open>Finitely many values can be compared by numbers in their place.\<close>

lemma rank:
  assumes "finite S" "\<And>a. a \<in> S \<Longrightarrow> dom a"
  obtains r :: "'a \<Rightarrow> nat" where
    "\<And>a b. a \<in> S \<Longrightarrow> b \<in> S \<Longrightarrow> (cmp a b < 0 \<longleftrightarrow> r a < r b) \<and> (cmp a b \<le> 0 \<longleftrightarrow> r a \<le> r b) \<and>
      (0 \<le> cmp a b \<longleftrightarrow> r b \<le> r a) \<and> (0 < cmp a b \<longleftrightarrow> r b < r a) \<and> (cmp a b = 0 \<longleftrightarrow> r a = r b)"
proof -
  define r where "r = (\<lambda>a. card {c \<in> S. cmp c a < 0})"
  have lt: "r a < r b" if ab: "a \<in> S" "b \<in> S" "cmp a b < 0" for a b
  proof -
    have "{c \<in> S. cmp c a < 0} \<subset> {c \<in> S. cmp c b < 0}"
      using ab assms(2) less_trans [of _ a b] refl [of a] by force
    then show ?thesis unfolding r_def using assms(1) by (intro psubset_card_mono) auto
  qed
  have eq: "r a = r b" if "a \<in> S" "b \<in> S" "cmp a b = 0" for a b
  proof -
    have "cmp c a < 0 \<longleftrightarrow> cmp c b < 0" if "c \<in> S" for c
      using fits [of c a b] fits [of c b a] eq_sym [of a b] \<open>a \<in> S\<close> \<open>b \<in> S\<close> \<open>cmp a b = 0\<close> that assms(2)
      by (auto simp: tri_def)
    then show ?thesis unfolding r_def by (intro arg_cong [where f = card]) auto
  qed
  have "(cmp a b < 0 \<longleftrightarrow> r a < r b) \<and> (cmp a b \<le> 0 \<longleftrightarrow> r a \<le> r b) \<and>
      (0 \<le> cmp a b \<longleftrightarrow> r b \<le> r a) \<and> (0 < cmp a b \<longleftrightarrow> r b < r a) \<and> (cmp a b = 0 \<longleftrightarrow> r a = r b)"
    if ab: "a \<in> S" "b \<in> S" for a b
  proof -
    consider "cmp a b < 0" | "cmp a b = 0" | "0 < cmp a b" by linarith
    then show ?thesis
      using lt [OF ab] lt [OF ab(2,1)] eq [OF ab] gt_iff [of b a] assms(2) [OF ab(1)] assms(2) [OF ab(2)] by cases auto
  qed
  with that show thesis by blast
qed

end

section \<open>Byte strings\<close>

text \<open>
  \<open>strcmp\<close> reads up to the first NUL of either argument; \<open>lexcmp\<close> is the order it gives on
  the strings before the NUL.
\<close>

fun lexcmp :: "byte list \<Rightarrow> byte list \<Rightarrow> int" where
  "lexcmp [] [] = 0"
| "lexcmp [] (y # ys) = -1"
| "lexcmp (x # xs) [] = 1"
| "lexcmp (x # xs) (y # ys) = (if x < y then -1 else if y < x then 1 else lexcmp xs ys)"

definition cstr :: "byte list \<Rightarrow> byte list" where
  "cstr s = takeWhile (\<lambda>b. b \<noteq> 0) s"

definition strcmp :: "byte list \<Rightarrow> byte list \<Rightarrow> int" where
  "strcmp s t = lexcmp (cstr s) (cstr t)"

lemma lexcmp_refl [simp]: "lexcmp s s = 0"
  by (induction s) auto

lemma lexcmp_eq_0 [simp]: "lexcmp s t = 0 \<longleftrightarrow> s = t"
  by (induction s t rule: lexcmp.induct) auto

lemma sgn_lexcmp [simp]: "sgn (lexcmp s t) = lexcmp s t"
  by (induction s t rule: lexcmp.induct) auto

lemma lexcmp_antisym: "lexcmp t s = - lexcmp s t"
  by (induction s t rule: lexcmp.induct) auto

lemma lexcmp_Cons: "lexcmp (x # xs) (y # ys) = lex (icmp x y) (lexcmp xs ys)"
  by (auto simp: lex_def icmp_def)

lemma tri_lexcmp: "tri (lexcmp s t) (lexcmp t u) (lexcmp s u)"
proof (induction s arbitrary: t u)
  case Nil
  then show ?case by (cases t; cases u) (auto simp: tri_def)
next
  case (Cons x xs)
  show ?case
  proof (cases t)
    case Nil
    then show ?thesis by (cases u) (auto simp: tri_def)
  next
    case (Cons y ys)
    then show ?thesis
      using Cons.IH by (cases u) (auto simp: lexcmp_Cons tri_lex tri_icmp simp del: lexcmp.simps(4), auto simp: tri_def)
  qed
qed

lemma sgn_strcmp [simp]: "sgn (strcmp s t) = strcmp s t"
  by (simp add: strcmp_def)

lemma strcmp_refl [simp]: "strcmp s s = 0"
  by (simp add: strcmp_def)

lemma strcmp_antisym: "strcmp t s = - strcmp s t"
  unfolding strcmp_def by (rule lexcmp_antisym)

lemma tri_strcmp: "tri (strcmp s t) (strcmp t u) (strcmp s u)"
  by (simp add: strcmp_def tri_lexcmp)

interpretation strcmp_order: three_way "\<lambda>_. True" strcmp
  by unfold_locales (simp_all only: sgn_strcmp tri_strcmp, rule strcmp_antisym)

text \<open>
  \<open>memcmp\<close> over the common length, then the lengths: the order of the strings, whether or not
  the terminating NUL is included.
\<close>

lemma memcmp_lex_length: "sgn (lex (memcmp s t) (int (length s) - int (length t))) = lexcmp s t"
  by (induction s t rule: lexcmp.induct) (auto simp: lex_def)

lemma lexcmp_snoc0: "lexcmp (s @ [0]) (t @ [0]) = lexcmp s t"
proof (induction s t rule: lexcmp.induct)
  case (2 y ys)
  then show ?case by (cases ys) (auto simp: word_gt_0)
next
  case (3 x xs)
  then show ?case by (cases xs) (auto simp: word_gt_0)
qed auto

lemma memcmp_trans_eq: "length s = length t \<Longrightarrow> memcmp s t = lexcmp s t"
  by (induction s t rule: lexcmp.induct) auto

end
