(* ===== verification/Double.thy ===== *)
theory Double
  imports Comparators "HOL-Library.Log_Nat"
begin

text \<open>
  The \<open>double\<close> of the C++ code: IEEE 754 binary64.  A double is stored as its 64-bit pattern;
  its value is a NaN, an infinity or a finite number, kept exactly as the integer
  \<open>value * 2^1074\<close> (every finite double is a multiple of \<open>2^-1074\<close>).  Comparison is that of the
  values; conversion from an integer rounds to nearest, ties to even; conversion to an integer
  truncates and is undefined outside the range of the target.
\<close>

section \<open>Values\<close>

datatype dbl = NaN | NegInf | PosInf | Fin int

definition dbl_scale :: int where
  "dbl_scale = 2 ^ 1074"

definition dbl_of_bits :: "u64 \<Rightarrow> dbl" where
  "dbl_of_bits w =
     (let n = unat w; s = n div 2 ^ 63; e = n div 2 ^ 52 mod 2 ^ 11; m = n mod 2 ^ 52;
          signed = (\<lambda>v. Fin (if s = 0 then v else - v))
      in if e = 2047 then (if m \<noteq> 0 then NaN else if s = 0 then PosInf else NegInf)
         else if e = 0 then signed (int m)
         else signed (int (2 ^ 52 + m) * 2 ^ (e - 1)))"

fun isNaN :: "dbl \<Rightarrow> bool" where
  "isNaN NaN = True"
| "isNaN _ = False"

fun dbl_lt :: "dbl \<Rightarrow> dbl \<Rightarrow> bool" where
  "dbl_lt (Fin a) (Fin b) = (a < b)"
| "dbl_lt (Fin a) PosInf = True"
| "dbl_lt NegInf y = (y \<noteq> NaN \<and> y \<noteq> NegInf)"
| "dbl_lt _ _ = False"

definition dbl_eq :: "dbl \<Rightarrow> dbl \<Rightarrow> bool" where
  "dbl_eq x y \<longleftrightarrow> x \<noteq> NaN \<and> x = y"

section \<open>Conversions\<close>

text \<open>The integer a conversion of \<open>i\<close> to double yields.\<close>

definition round53 :: "int \<Rightarrow> int" where
  "round53 i =
     (let a = \<bar>i\<bar>; k = nat (bitlen a) - 53; q = a div 2 ^ k; r = a mod 2 ^ k;
          q' = (if 2 * r > 2 ^ k \<or> 2 * r = 2 ^ k \<and> odd q then q + 1 else q)
      in sgn i * (if k = 0 then a else q' * 2 ^ k))"

definition dbl_of_int :: "int \<Rightarrow> dbl" where
  "dbl_of_int i = Fin (round53 i * dbl_scale)"

text \<open>The bit pattern of a conversion that is exact.\<close>

definition dbl_bits_of_int :: "int \<Rightarrow> u64" where
  "dbl_bits_of_int i =
     (if i = 0 then 0
      else let a = nat \<bar>i\<bar>; k = nat (bitlen \<bar>i\<bar> - 1)
           in of_nat ((if i < 0 then 2 ^ 63 else 0) + (1023 + k) * 2 ^ 52 + (a * 2 ^ (52 - k) - 2 ^ 52)))"

definition int_of_dbl :: "dbl \<Rightarrow> int option" where
  "int_of_dbl d =
     (case d of Fin v \<Rightarrow> Some (sgn v * (\<bar>v\<bar> div dbl_scale)) | _ \<Rightarrow> None)"

lemma dbl_scale_pos [simp]: "0 < dbl_scale" "dbl_scale \<noteq> 0" "\<bar>dbl_scale\<bar> = dbl_scale"
  by (simp_all add: dbl_scale_def)

lemma int_of_dbl_exact [simp]: "int_of_dbl (Fin (i * dbl_scale)) = Some i"
proof -
  have "\<bar>i * dbl_scale\<bar> div dbl_scale = \<bar>i\<bar>"
    using dbl_scale_pos by (simp add: abs_mult)
  moreover have "sgn (i * dbl_scale) = sgn i"
    using dbl_scale_pos by (simp add: sgn_mult)
  ultimately show ?thesis by (simp add: int_of_dbl_def mult_sgn_abs)
qed

lemma bitlen_le: "\<bar>i\<bar> < 2 ^ n \<Longrightarrow> nat (bitlen \<bar>i\<bar>) \<le> n"
  using bitlen_le_iff_power [of "\<bar>i\<bar>" "int n"] by simp

lemma round53_exact: "\<bar>i\<bar> < 2 ^ 53 \<Longrightarrow> round53 i = i"
  using bitlen_le [of i 53] by (simp add: round53_def Let_def mult_sgn_abs)

lemma dbl_of_int_exact: "\<bar>i\<bar> < 2 ^ 53 \<Longrightarrow> dbl_of_int i = Fin (i * dbl_scale)"
  by (simp add: dbl_of_int_def round53_exact)

text \<open>An integer of more than 53 bits stays outside the exact range when it is rounded.\<close>

lemma round53_large:
  assumes "2 ^ 53 \<le> i"
  shows "2 ^ 53 \<le> round53 i"
proof -
  define k where "k = nat (bitlen i) - 53"
  have pos: "0 < i" using assms by (rule less_le_trans [rotated]) simp
  have e: "nat (bitlen i - 1) = nat (bitlen i) - 1" by arith
  note b = bitlen_bounds [OF pos, unfolded e]
  have "(2::int) ^ 53 < 2 ^ nat (bitlen i)" using assms b by (rule le_less_trans [OF _ conjunct2])
  then have "53 < nat (bitlen i)" by (rule power_less_imp_less_exp [rotated]) simp
  then have k: "1 \<le> k" "nat (bitlen i) - 1 = 52 + k" by (simp_all add: k_def)
  have "2 ^ 52 * 2 ^ k \<le> i" using b k(2) by (simp only: power_add)
  from zdiv_mono1 [OF this, of "2 ^ k"] have q: "2 ^ 52 \<le> i div 2 ^ k" by simp
  have "(2::int) ^ 53 \<le> 2 ^ (52 + k)" using k(1) by (intro power_increasing) simp_all
  moreover have "(2::int) ^ (52 + k) \<le> q' * 2 ^ k" if "2 ^ 52 \<le> q'" for q' :: int
    unfolding power_add using that by (intro mult_right_mono) simp_all
  ultimately have "(2::int) ^ 53 \<le> q' * 2 ^ k" if "2 ^ 52 \<le> q'" for q'
    using that by (meson order_trans)
  from this [OF q] this [of "i div 2 ^ k + 1"] q have
    "(2::int) ^ 53 \<le> (if c then i div 2 ^ k + 1 else i div 2 ^ k) * 2 ^ k" for c by simp
  moreover have "round53 i = (if 2 * (i mod 2 ^ k) > 2 ^ k \<or> 2 * (i mod 2 ^ k) = 2 ^ k \<and> odd (i div 2 ^ k)
      then i div 2 ^ k + 1 else i div 2 ^ k) * 2 ^ k"
    using pos k(1) by (simp only: round53_def Let_def k_def [symmetric] abs_of_pos sgn_pos mult_1) simp
  ultimately show ?thesis by presburger
qed

text \<open>The pattern of an exact conversion denotes the integer.\<close>

lemma unat_of_nat_u64: "n < 2 ^ 64 \<Longrightarrow> unat (of_nat n :: u64) = n"
  by (simp add: unsigned_of_nat take_bit_nat_eq_self)

lemma dbl_of_fields:
  assumes "s \<le> 1" "e < 2 ^ 11" "m < 2 ^ 52"
  shows "dbl_of_bits (of_nat (s * 2 ^ 63 + e * 2 ^ 52 + m)) =
     (let signed = (\<lambda>v. Fin (if s = 0 then v else - v))
      in if e = 2047 then (if m \<noteq> 0 then NaN else if s = 0 then PosInf else NegInf)
         else if e = 0 then signed (int m)
         else signed (int (2 ^ 52 + m) * 2 ^ (e - 1)))"
proof -
  let ?n = "s * 2 ^ 63 + e * 2 ^ 52 + m"
  have "?n < 2 ^ 64" using assms by simp
  then have u: "unat (of_nat ?n :: u64) = ?n" by (rule unat_of_nat_u64)
  have n: "?n = (s * 2 ^ 11 + e) * 2 ^ 52 + m" by simp
  have d52: "?n div 2 ^ 52 = s * 2 ^ 11 + e" and m52: "?n mod 2 ^ 52 = m"
    using assms(3) unfolding n by (simp_all only: div_mult_self3 mod_mult_self3 div_less mod_less)
  have e11: "(s * 2 ^ 11 + e) mod 2 ^ 11 = e" using assms(2) by simp
  have s63: "?n div 2 ^ 63 = s" using assms by simp
  show ?thesis unfolding dbl_of_bits_def u Let_def d52 m52 e11 s63 by (rule refl)
qed

lemma dbl_of_bits_of_int:
  assumes "\<bar>i\<bar> < 2 ^ 53"
  shows "dbl_of_bits (dbl_bits_of_int i) = Fin (i * dbl_scale)"
proof (cases "i = 0")
  case True
  then show ?thesis by (simp add: dbl_bits_of_int_def dbl_of_bits_def)
next
  case False
  define a where "a = nat \<bar>i\<bar>"
  define k where "k = nat (bitlen \<bar>i\<bar> - 1)"
  have "nat (bitlen \<bar>i\<bar>) \<le> 53" using assms by (rule bitlen_le)
  moreover have "0 < bitlen \<bar>i\<bar>" using False bitlen_eq_zero_iff [of "\<bar>i\<bar>"] bitlen_nonneg [of "\<bar>i\<bar>"] by simp
  ultimately have k: "k \<le> 52" "nat (bitlen \<bar>i\<bar>) = Suc k" unfolding k_def by auto
  have "2 ^ k \<le> int a" "int a < 2 ^ Suc k"
    using bitlen_bounds [of "\<bar>i\<bar>"] False k(2) by (simp_all add: a_def k_def)
  then have "int (2 ^ k) \<le> int a" "int a < int (2 ^ Suc k)" by simp_all
  then have a: "2 ^ k \<le> a" "a < 2 ^ Suc k" by (simp_all only: of_nat_le_iff of_nat_less_iff)
  have p: "2 ^ k * 2 ^ (52 - k) = (2 ^ 52 :: nat)" using k(1) by (simp flip: power_add)
  have "2 ^ k * 2 ^ (52 - k) \<le> a * 2 ^ (52 - k)" using a(1) by simp
  moreover have "a * 2 ^ (52 - k) < 2 ^ 53"
  proof -
    have "a * 2 ^ (52 - k) < 2 ^ Suc k * 2 ^ (52 - k)" using a(2) by simp
    also have "\<dots> = 2 ^ 53" using p by simp
    finally show ?thesis .
  qed
  ultimately have m: "2 ^ 52 \<le> a * 2 ^ (52 - k)" "a * 2 ^ (52 - k) - 2 ^ 52 < 2 ^ 52"
    using p by auto
  let ?s = "if i < 0 then 1 else 0 :: nat"
  have bits: "dbl_bits_of_int i = of_nat (?s * 2 ^ 63 + (1023 + k) * 2 ^ 52 + (a * 2 ^ (52 - k) - 2 ^ 52))"
    using False by (simp add: dbl_bits_of_int_def Let_def a_def k_def)
  have "int (2 ^ 52 + (a * 2 ^ (52 - k) - 2 ^ 52)) * 2 ^ (1023 + k - 1) = \<bar>i\<bar> * dbl_scale"
  proof -
    have "2 ^ 52 + (a * 2 ^ (52 - k) - 2 ^ 52) = a * 2 ^ (52 - k)" using m(1) by simp
    moreover have "(2::int) ^ (52 - k) * 2 ^ (1023 + k - 1) = dbl_scale"
    proof -
      have "52 - k + (1023 + k - 1) = 1074" using k(1) by simp
      then show ?thesis by (simp only: dbl_scale_def power_add [symmetric])
    qed
    moreover have "int a = \<bar>i\<bar>" by (simp add: a_def)
    ultimately show ?thesis by (simp only: of_nat_mult of_nat_power of_nat_numeral mult.assoc)
  qed
  moreover have "dbl_of_bits (dbl_bits_of_int i) =
      Fin (if ?s = 0 then int (2 ^ 52 + (a * 2 ^ (52 - k) - 2 ^ 52)) * 2 ^ (1023 + k - 1)
           else - (int (2 ^ 52 + (a * 2 ^ (52 - k) - 2 ^ 52)) * 2 ^ (1023 + k - 1)))"
    unfolding bits
  proof (subst dbl_of_fields)
    show "?s \<le> 1" "1023 + k < 2 ^ 11" "a * 2 ^ (52 - k) - 2 ^ 52 < 2 ^ 52" using k(1) m(2) by simp_all
    have "1023 + k \<noteq> 2047" "1023 + k \<noteq> 0" using k(1) by simp_all
    then show "(let signed = \<lambda>v. Fin (if ?s = 0 then v else - v)
      in if 1023 + k = 2047
         then if a * 2 ^ (52 - k) - 2 ^ 52 \<noteq> 0 then NaN else if ?s = 0 then PosInf else NegInf
         else if 1023 + k = 0 then signed (int (a * 2 ^ (52 - k) - 2 ^ 52))
         else signed (int (2 ^ 52 + (a * 2 ^ (52 - k) - 2 ^ 52)) * 2 ^ (1023 + k - 1))) =
      Fin (if ?s = 0 then int (2 ^ 52 + (a * 2 ^ (52 - k) - 2 ^ 52)) * 2 ^ (1023 + k - 1)
           else - (int (2 ^ 52 + (a * 2 ^ (52 - k) - 2 ^ 52)) * 2 ^ (1023 + k - 1)))"
      by (simp only: Let_def if_False)
  qed
  ultimately have "dbl_of_bits (dbl_bits_of_int i) = Fin (if ?s = 0 then \<bar>i\<bar> * dbl_scale else - (\<bar>i\<bar> * dbl_scale))"
    by (simp only:)
  then show ?thesis by (simp split: if_splits)
qed

lemma round53_neg: "round53 (- i) = - round53 i"
  by (simp add: round53_def Let_def)

section \<open>Comparison\<close>

text \<open>The position of a value in the order that puts NaN first.\<close>

definition dbl_rank :: "dbl \<Rightarrow> int" where
  "dbl_rank d = (case d of NaN \<Rightarrow> 0 | NegInf \<Rightarrow> 1 | Fin _ \<Rightarrow> 2 | PosInf \<Rightarrow> 3)"

definition dbl_fin :: "dbl \<Rightarrow> int" where
  "dbl_fin d = (case d of Fin v \<Rightarrow> v | _ \<Rightarrow> 0)"

text \<open>The three-way comparison written out with \<open><\<close>, \<open>==\<close> and \<open>isNaN\<close>.\<close>

definition dbl_cmp :: "dbl \<Rightarrow> dbl \<Rightarrow> int" where
  "dbl_cmp l r =
     (if dbl_lt l r then -1
      else if dbl_eq l r then 0
      else if isNaN l then (if isNaN r then 0 else -1)
      else 1)"

lemma dbl_cmp_rank: "dbl_cmp l r = lex (icmp (dbl_rank l) (dbl_rank r)) (icmp (dbl_fin l) (dbl_fin r))"
  by (cases l; cases r) (auto simp: dbl_cmp_def dbl_eq_def dbl_rank_def dbl_fin_def icmp_def lex_def)

lemma sgn_dbl_cmp [simp]: "sgn (dbl_cmp l r) = dbl_cmp l r"
  by (simp add: dbl_cmp_def)

lemma dbl_cmp_antisym: "dbl_cmp r l = - dbl_cmp l r"
  unfolding dbl_cmp_rank by (simp add: icmp_antisym [of "dbl_rank r"] icmp_antisym [of "dbl_fin r"] lex_neg)

lemma tri_dbl_cmp: "tri (dbl_cmp a b) (dbl_cmp b c) (dbl_cmp a c)"
  unfolding dbl_cmp_rank by (intro tri_lex tri_icmp)

interpretation dbl_order: three_way "\<lambda>_. True" dbl_cmp
  by unfold_locales (simp_all only: sgn_dbl_cmp tri_dbl_cmp, rule dbl_cmp_antisym)

lemma dbl_cmp_Fin [simp]: "dbl_cmp (Fin a) (Fin b) = icmp a b"
  by (simp add: dbl_cmp_def dbl_eq_def icmp_def)

lemma icmp_scale [simp]: "icmp (a * dbl_scale) (b * dbl_scale) = icmp a b"
  using dbl_scale_pos by (simp add: icmp_def)

end
