(* ===== verification/Bson.thy ===== *)
theory Bson
  imports Double "HOL-Library.Monad_Syntax"
begin

text \<open>
  BSON documents (\<open>bson/bsontypes.h\<close>, \<open>bsonelement.h\<close>, \<open>bsonobj.h\<close>, \<open>bson-inl.h\<close>,
  \<open>bsonobjbuilder.h\<close>): elements as a datatype with one constructor per BSON type, their byte
  layout as the builder writes it and the iterator reads it, and the accessors of elements and
  objects.
\<close>

section \<open>Elements and objects\<close>

type_synonym bstr = "byte list"

text \<open>Names of the source as byte strings.\<close>

definition str :: "string \<Rightarrow> bstr" where
  "str s = map (\<lambda>c. of_nat (of_char c)) s"

text \<open>
  Integers are kept as their bit patterns, a double as its 64-bit pattern, strings and binary
  data as bytes, an object id as its 12 bytes.
\<close>

datatype bson_value =
    MinKeyV
  | DoubleV u64
  | StringV bstr
  | ObjectV "(bstr \<times> bson_value) list"
  | ArrayV "(bstr \<times> bson_value) list"
  | BinDataV byte bstr
  | UndefinedV
  | OIDV bstr
  | BoolV bool
  | DateV u64
  | NullV
  | RegExV bstr bstr
  | DBRefV bstr bstr
  | CodeV bstr
  | SymbolV bstr
  | CodeWScopeV bstr "(bstr \<times> bson_value) list"
  | IntV u32
  | TimestampV u64
  | LongV u64
  | MaxKeyV

type_synonym bson_elem = "bstr \<times> bson_value"
type_synonym bson = "bson_elem list"

text \<open>\<open>BSONType\<close>; an absent element (\<open>eoo()\<close>) has type 0.\<close>

fun bson_type :: "bson_value \<Rightarrow> int" where
  "bson_type MinKeyV = -1"
| "bson_type (DoubleV _) = 1"
| "bson_type (StringV _) = 2"
| "bson_type (ObjectV _) = 3"
| "bson_type (ArrayV _) = 4"
| "bson_type (BinDataV _ _) = 5"
| "bson_type UndefinedV = 6"
| "bson_type (OIDV _) = 7"
| "bson_type (BoolV _) = 8"
| "bson_type (DateV _) = 9"
| "bson_type NullV = 10"
| "bson_type (RegExV _ _) = 11"
| "bson_type (DBRefV _ _) = 12"
| "bson_type (CodeV _) = 13"
| "bson_type (SymbolV _) = 14"
| "bson_type (CodeWScopeV _ _) = 15"
| "bson_type (IntV _) = 16"
| "bson_type (TimestampV _) = 17"
| "bson_type (LongV _) = 18"
| "bson_type MaxKeyV = 127"

definition canonicalizeBSONType :: "int \<Rightarrow> int result" where
  "canonicalizeBSONType t =
     (if t = -1 \<or> t = 127 then Inr t
      else if t = 0 \<or> t = 6 then Inr 0
      else if t = 10 then Inr 5
      else if t = 1 \<or> t = 16 \<or> t = 18 then Inr 10
      else if t = 2 \<or> t = 14 then Inr 15
      else if t = 3 then Inr 20
      else if t = 4 then Inr 25
      else if t = 5 then Inr 30
      else if t = 7 then Inr 35
      else if t = 8 then Inr 40
      else if t = 9 \<or> t = 17 then Inr 45
      else if t = 11 then Inr 50
      else if t = 12 then Inr 55
      else if t = 13 then Inr 60
      else if t = 15 then Inr 65
      else Inl VerifyFailed)"

text \<open>The canonical type of an element of the model; it always exists.\<close>

fun canonicalType :: "bson_value \<Rightarrow> int" where
  "canonicalType MinKeyV = -1"
| "canonicalType MaxKeyV = 127"
| "canonicalType UndefinedV = 0"
| "canonicalType NullV = 5"
| "canonicalType (DoubleV _) = 10"
| "canonicalType (IntV _) = 10"
| "canonicalType (LongV _) = 10"
| "canonicalType (StringV _) = 15"
| "canonicalType (SymbolV _) = 15"
| "canonicalType (ObjectV _) = 20"
| "canonicalType (ArrayV _) = 25"
| "canonicalType (BinDataV _ _) = 30"
| "canonicalType (OIDV _) = 35"
| "canonicalType (BoolV _) = 40"
| "canonicalType (DateV _) = 45"
| "canonicalType (TimestampV _) = 45"
| "canonicalType (RegExV _ _) = 50"
| "canonicalType (DBRefV _ _) = 55"
| "canonicalType (CodeV _) = 60"
| "canonicalType (CodeWScopeV _ _) = 65"

lemma canonicalType_eq: "canonicalizeBSONType (bson_type v) = Inr (canonicalType v)"
  by (cases v) (simp_all add: canonicalizeBSONType_def)

section \<open>Numbers\<close>

fun isNumber :: "bson_value \<Rightarrow> bool" where
  "isNumber (LongV _) = True"
| "isNumber (DoubleV _) = True"
| "isNumber (IntV _) = True"
| "isNumber _ = False"

fun isSimpleType :: "bson_value \<Rightarrow> bool" where
  "isSimpleType (LongV _) = True"
| "isSimpleType (DoubleV _) = True"
| "isSimpleType (IntV _) = True"
| "isSimpleType (StringV _) = True"
| "isSimpleType (BoolV _) = True"
| "isSimpleType (DateV _) = True"
| "isSimpleType (OIDV _) = True"
| "isSimpleType _ = False"

fun trueValue :: "bson_value \<Rightarrow> bool" where
  "trueValue (LongV n) = (n \<noteq> 0)"
| "trueValue (DoubleV d) = (dbl_of_bits d \<noteq> Fin 0)"
| "trueValue (IntV n) = (n \<noteq> 0)"
| "trueValue (BoolV b) = b"
| "trueValue NullV = False"
| "trueValue UndefinedV = False"
| "trueValue _ = True"

fun numberDouble :: "bson_value \<Rightarrow> dbl" where
  "numberDouble (DoubleV d) = dbl_of_bits d"
| "numberDouble (IntV n) = dbl_of_int (sint n)"
| "numberDouble (LongV n) = dbl_of_int (sint n)"
| "numberDouble _ = Fin 0"

text \<open>
  A cast of a double to an integer type truncates; outside the range of the type (and for NaN)
  the C++ standard leaves it undefined, which is \<open>None\<close>.
\<close>

definition cast_dbl_int :: "dbl \<Rightarrow> u32 option" where
  "cast_dbl_int d =
     (case int_of_dbl d of
        None \<Rightarrow> None
      | Some i \<Rightarrow> if - (2 ^ 31) \<le> i \<and> i < 2 ^ 31 then Some (of_int i) else None)"

definition cast_dbl_long :: "dbl \<Rightarrow> u64 option" where
  "cast_dbl_long d =
     (case int_of_dbl d of
        None \<Rightarrow> None
      | Some i \<Rightarrow> if - (2 ^ 63) \<le> i \<and> i < 2 ^ 63 then Some (of_int i) else None)"

fun numberInt :: "bson_value \<Rightarrow> u32 option" where
  "numberInt (DoubleV d) = cast_dbl_int (dbl_of_bits d)"
| "numberInt (IntV n) = Some n"
| "numberInt (LongV n) = Some (ucast n)"
| "numberInt _ = Some 0"

fun numberLong :: "bson_value \<Rightarrow> u64 option" where
  "numberLong (DoubleV d) = cast_dbl_long (dbl_of_bits d)"
| "numberLong (IntV n) = Some (scast n)"
| "numberLong (LongV n) = Some n"
| "numberLong _ = Some 0"

fun safeNumberLong :: "bson_value \<Rightarrow> u64 option" where
  "safeNumberLong (DoubleV b) =
     (let d = dbl_of_bits b in
      if isNaN d then Some 0
      else if dbl_lt (dbl_of_int (2 ^ 63 - 1)) d then Some (2 ^ 63 - 1)
      else if dbl_lt d (dbl_of_int (- (2 ^ 63))) then Some (2 ^ 63)
      else numberLong (DoubleV b))"
| "safeNumberLong v = numberLong v"

section \<open>Byte layout\<close>

text \<open>The type byte, the name with its NUL, and the value as the builder's \<open>append\<close>s write it.\<close>

definition cstring :: "bstr \<Rightarrow> byte list" where
  "cstring s = s @ [0]"

definition sized_string :: "bstr \<Rightarrow> byte list" where
  "sized_string s = le_bytes 4 (of_nat (length s + 1) :: u32) @ cstring s"

definition type_byte :: "bson_value \<Rightarrow> byte" where
  "type_byte v = of_int (bson_type v)"

text \<open>An object: its size, its elements and the terminating \<open>EOO\<close>.\<close>

definition frame :: "byte list \<Rightarrow> byte list" where
  "frame body = le_bytes 4 (of_nat (length body + 5) :: u32) @ body @ [0]"

function enc_value :: "bson_value \<Rightarrow> byte list"
  and enc_elems :: "bson \<Rightarrow> byte list" where
  "enc_value MinKeyV = []"
| "enc_value (DoubleV d) = le_bytes 8 d"
| "enc_value (StringV s) = sized_string s"
| "enc_value (ObjectV b) = frame (enc_elems b)"
| "enc_value (ArrayV b) = frame (enc_elems b)"
| "enc_value (BinDataV t d) = le_bytes 4 (of_nat (length d) :: u32) @ t # d"
| "enc_value UndefinedV = []"
| "enc_value (OIDV i) = i"
| "enc_value (BoolV b) = [if b then 1 else 0]"
| "enc_value (DateV d) = le_bytes 8 d"
| "enc_value NullV = []"
| "enc_value (RegExV r f) = cstring r @ cstring f"
| "enc_value (DBRefV ns i) = sized_string ns @ i"
| "enc_value (CodeV c) = sized_string c"
| "enc_value (SymbolV s) = sized_string s"
| "enc_value (CodeWScopeV c b) =
     (let body = sized_string c @ frame (enc_elems b)
      in le_bytes 4 (of_nat (length body + 4) :: u32) @ body)"
| "enc_value (IntV n) = le_bytes 4 n"
| "enc_value (TimestampV t) = le_bytes 8 t"
| "enc_value (LongV n) = le_bytes 8 n"
| "enc_value MaxKeyV = []"
| "enc_elems [] = []"
| "enc_elems ((n, v) # es) = type_byte v # cstring n @ enc_value v @ enc_elems es"
  by pat_completeness auto
termination
  by (relation "measure (\<lambda>x. case x of Inl v \<Rightarrow> size v | Inr es \<Rightarrow> size_list (size_prod (\<lambda>_. 0) size) es)") auto

definition enc_obj :: "bson \<Rightarrow> byte list" where
  "enc_obj b = frame (enc_elems b)"

section \<open>Reading the layout\<close>

text \<open>
  Reads through a pointer into the buffer; \<open>None\<close> is a read past its end or a value that is no
  BSON.  \<open>read_cstr\<close> is \<open>strlen\<close> and a skip past the NUL.
\<close>

definition read_n :: "nat \<Rightarrow> byte list \<Rightarrow> (byte list \<times> byte list) option" where
  "read_n n bs = (if n \<le> length bs then Some (take n bs, drop n bs) else None)"

definition read_cstr :: "byte list \<Rightarrow> (bstr \<times> byte list) option" where
  "read_cstr bs = (if 0 \<in> set bs then Some (cstr bs, tl (dropWhile (\<lambda>b. b \<noteq> 0) bs)) else None)"

definition read_u32 :: "byte list \<Rightarrow> (u32 \<times> byte list) option" where
  "read_u32 bs = do { (x, r) \<leftarrow> read_n 4 bs; Some (le_word x, r) }"

definition read_u64 :: "byte list \<Rightarrow> (u64 \<times> byte list) option" where
  "read_u64 bs = do { (x, r) \<leftarrow> read_n 8 bs; Some (le_word x, r) }"

definition read_str :: "byte list \<Rightarrow> (bstr \<times> byte list) option" where
  "read_str bs = do {
     (n, r) \<leftarrow> read_u32 bs;
     (x, r) \<leftarrow> read_n (unat n) r;
     if n = 0 then None else Some (butlast x, r) }"

text \<open>
  The elements of an object, up to its \<open>EOO\<close>, as \<open>BSONObjIterator\<close> visits them and the accessors
  of \<open>BSONElement\<close> see them.  The first argument bounds the depth of the recursion; the length of
  the buffer is always enough.
\<close>

fun dec_value :: "nat \<Rightarrow> byte \<Rightarrow> byte list \<Rightarrow> (bson_value \<times> byte list) option"
  and dec_elems :: "nat \<Rightarrow> byte list \<Rightarrow> (bson \<times> byte list) option" where
  "dec_value 0 t bs = None"
| "dec_value (Suc k) t bs =
     (if t = 255 then Some (MinKeyV, bs)
      else if t = 127 then Some (MaxKeyV, bs)
      else if t = 6 then Some (UndefinedV, bs)
      else if t = 10 then Some (NullV, bs)
      else if t = 1 then do { (x, r) \<leftarrow> read_u64 bs; Some (DoubleV x, r) }
      else if t = 2 then do { (x, r) \<leftarrow> read_str bs; Some (StringV x, r) }
      else if t = 3 then do { (_, r) \<leftarrow> read_u32 bs; (es, r) \<leftarrow> dec_elems k r; Some (ObjectV es, r) }
      else if t = 4 then do { (_, r) \<leftarrow> read_u32 bs; (es, r) \<leftarrow> dec_elems k r; Some (ArrayV es, r) }
      else if t = 5 then do { (n, r) \<leftarrow> read_u32 bs; (st, r) \<leftarrow> read_n 1 r; (x, r) \<leftarrow> read_n (unat n) r;
        Some (BinDataV (hd st) x, r) }
      else if t = 7 then do { (x, r) \<leftarrow> read_n 12 bs; Some (OIDV x, r) }
      else if t = 8 then do { (x, r) \<leftarrow> read_n 1 bs; Some (BoolV (hd x \<noteq> 0), r) }
      else if t = 9 then do { (x, r) \<leftarrow> read_u64 bs; Some (DateV x, r) }
      else if t = 11 then do { (x, r) \<leftarrow> read_cstr bs; (y, r) \<leftarrow> read_cstr r; Some (RegExV x y, r) }
      else if t = 12 then do { (x, r) \<leftarrow> read_str bs; (y, r) \<leftarrow> read_n 12 r; Some (DBRefV x y, r) }
      else if t = 13 then do { (x, r) \<leftarrow> read_str bs; Some (CodeV x, r) }
      else if t = 14 then do { (x, r) \<leftarrow> read_str bs; Some (SymbolV x, r) }
      else if t = 15 then do { (_, r) \<leftarrow> read_u32 bs; (x, r) \<leftarrow> read_str r; (_, r) \<leftarrow> read_u32 r;
        (es, r) \<leftarrow> dec_elems k r; Some (CodeWScopeV x es, r) }
      else if t = 16 then do { (x, r) \<leftarrow> read_u32 bs; Some (IntV x, r) }
      else if t = 17 then do { (x, r) \<leftarrow> read_u64 bs; Some (TimestampV x, r) }
      else if t = 18 then do { (x, r) \<leftarrow> read_u64 bs; Some (LongV x, r) }
      else None)"
| "dec_elems 0 bs = None"
| "dec_elems (Suc k) bs =
     (case bs of
        [] \<Rightarrow> None
      | t # r \<Rightarrow>
          if t = 0 then Some ([], r)
          else do { (n, r) \<leftarrow> read_cstr r; (v, r) \<leftarrow> dec_value k t r; (es, r) \<leftarrow> dec_elems k r;
            Some ((n, v) # es, r) })"

definition dec_obj :: "byte list \<Rightarrow> (bson \<times> byte list) option" where
  "dec_obj bs = do { (_, r) \<leftarrow> read_u32 bs; dec_elems (Suc (length bs)) r }"

section \<open>Well-formed elements and the round trip\<close>

text \<open>
  What the builder's callers ensure: names and regular expressions are C strings, object ids have
  12 bytes, and every size fits the \<open>int\<close> it is written as.
\<close>

function wf_value :: "bson_value \<Rightarrow> bool"
  and wf_elems :: "bson \<Rightarrow> bool" where
  "wf_value (StringV s) = (length s + 1 < 2 ^ 31)"
| "wf_value (ObjectV b) = (wf_elems b \<and> length (enc_elems b) + 5 < 2 ^ 31)"
| "wf_value (ArrayV b) = (wf_elems b \<and> length (enc_elems b) + 5 < 2 ^ 31)"
| "wf_value (BinDataV t d) = (length d < 2 ^ 31)"
| "wf_value (OIDV i) = (length i = 12)"
| "wf_value (RegExV r f) = (0 \<notin> set r \<and> 0 \<notin> set f)"
| "wf_value (DBRefV ns i) = (length ns + 1 < 2 ^ 31 \<and> length i = 12)"
| "wf_value (CodeV c) = (length c + 1 < 2 ^ 31)"
| "wf_value (SymbolV c) = (length c + 1 < 2 ^ 31)"
| "wf_value (CodeWScopeV c b) = (wf_elems b \<and> length (enc_value (CodeWScopeV c b)) < 2 ^ 31)"
| "wf_value MinKeyV = True"
| "wf_value MaxKeyV = True"
| "wf_value UndefinedV = True"
| "wf_value NullV = True"
| "wf_value (DoubleV d) = True"
| "wf_value (BoolV b) = True"
| "wf_value (DateV d) = True"
| "wf_value (IntV n) = True"
| "wf_value (TimestampV t) = True"
| "wf_value (LongV n) = True"
| "wf_elems [] = True"
| "wf_elems ((n, v) # es) = (0 \<notin> set n \<and> wf_value v \<and> wf_elems es)"
  by pat_completeness auto
termination
  by (relation "measure (\<lambda>x. case x of Inl v \<Rightarrow> size v | Inr es \<Rightarrow> size_list (size_prod (\<lambda>_. 0) size) es)") auto

definition wf_obj :: "bson \<Rightarrow> bool" where
  "wf_obj b \<longleftrightarrow> wf_elems b \<and> length (enc_obj b) < 2 ^ 31"

lemma type_byte_simps [simp]:
  "type_byte MinKeyV = 255" "type_byte MaxKeyV = 127" "type_byte UndefinedV = 6" "type_byte NullV = 10"
  "type_byte (DoubleV d) = 1" "type_byte (StringV s) = 2" "type_byte (ObjectV b) = 3"
  "type_byte (ArrayV b) = 4" "type_byte (BinDataV st x) = 5" "type_byte (OIDV i) = 7"
  "type_byte (BoolV c) = 8" "type_byte (DateV d) = 9" "type_byte (RegExV r f) = 11"
  "type_byte (DBRefV ns i) = 12" "type_byte (CodeV s) = 13" "type_byte (SymbolV s) = 14"
  "type_byte (CodeWScopeV s b) = 15" "type_byte (IntV n) = 16" "type_byte (TimestampV t) = 17"
  "type_byte (LongV l) = 18"
  by (simp_all add: type_byte_def)

lemma type_byte_not_eoo [simp]: "type_byte v \<noteq> 0"
  by (cases v) simp_all

lemma read_n_append [simp]: "length x = n \<Longrightarrow> read_n n (x @ r) = Some (x, r)"
  by (auto simp: read_n_def)

lemma read_n_1 [simp]: "read_n (Suc 0) (x # r) = Some ([x], r)" "read_n 1 (x # r) = Some ([x], r)"
  by (auto simp: read_n_def)

lemma read_u32_le [simp]: "read_u32 (le_bytes 4 x @ r) = Some (x, r)"
  by (simp add: read_u32_def)

lemma read_u64_le [simp]: "read_u64 (le_bytes 8 x @ r) = Some (x, r)"
  by (simp add: read_u64_def)

lemma cstr_append [simp]: "0 \<notin> set s \<Longrightarrow> cstr (s @ 0 # r) = s"
  by (induction s) (auto simp: cstr_def)

lemma dropWhile_cstr: "0 \<notin> set s \<Longrightarrow> dropWhile (\<lambda>b. b \<noteq> 0) (s @ 0 # r) = 0 # r"
  by (induction s) auto

lemma read_cstr_append [simp]: "0 \<notin> set s \<Longrightarrow> read_cstr (s @ 0 # r) = Some (s, r)"
  by (simp add: read_cstr_def dropWhile_cstr)

lemma unat_of_nat_u32: "n < 2 ^ 32 \<Longrightarrow> unat (of_nat n :: u32) = n"
  by (simp add: unsigned_of_nat take_bit_nat_eq_self)

lemma read_str_append [simp]: 
  assumes "length s + 1 < 2 ^ 31"
  shows "read_str (sized_string s @ r) = Some (s, r)"
proof -
  have u: "unat (of_nat (length s + 1) :: u32) = length s + 1" using assms by (intro unat_of_nat_u32) simp
  then have "(of_nat (length s + 1) :: u32) \<noteq> 0" by (metis Suc_eq_plus1 Zero_not_Suc unat_0)
  moreover have "read_n (length s + 1) ((s @ [0]) @ r) = Some (s @ [0], r)" by (rule read_n_append) simp
  ultimately show ?thesis
    using u by (simp add: read_str_def sized_string_def cstring_def del: of_nat_Suc of_nat_add)
qed

lemma length_frame [simp]: "length (frame b) = length b + 5"
  by (simp add: frame_def)

lemma dec_enc:
  "length (enc_value v) \<le> k \<Longrightarrow> wf_value v \<Longrightarrow> dec_value (Suc k) (type_byte v) (enc_value v @ r) = Some (v, r)"
  "length (enc_elems es) \<le> k \<Longrightarrow> wf_elems es \<Longrightarrow> dec_elems (Suc k) (enc_elems es @ 0 # r) = Some (es, r)"
proof (induction v and es arbitrary: k r and k r rule: enc_value_enc_elems.induct)
  case (4 b)
  then show ?case by (cases k) (simp_all add: frame_def)
next
  case (5 b)
  then show ?case by (cases k) (simp_all add: frame_def)
next
  case (6 t d)
  then show ?case by (simp add: unat_of_nat_u32)
next
  case (16 c b)
  then have "length c + 1 < 2 ^ 31" by (simp add: Let_def sized_string_def cstring_def)
  with 16 show ?case by (cases k) (simp_all add: frame_def Let_def)
next
  case (22 n v es)
  then show ?case by (cases k) (simp_all add: cstring_def)
qed (simp_all add: cstring_def)

lemma dec_enc_obj: "wf_obj b \<Longrightarrow> dec_obj (enc_obj b @ r) = Some (b, r)"
  using dec_enc(2) [of b "length (enc_obj b @ r)" r]
  by (simp add: dec_obj_def enc_obj_def frame_def wf_obj_def del: dec_elems.simps)

end
