(* ===== verification/BsonCompare.thy ===== *)
theory BsonCompare
  imports Bson
begin

text \<open>
  The order of BSON values (\<open>compareElementValues\<close> and \<open>BSONElement::woCompare\<close> of
  \<open>bson/bson-inl.h\<close>, \<open>BSONObj::woCompare\<close> of \<open>db/jsobj.cpp\<close>, \<open>bson/ordering.h\<close>), and when it is an
  order: index keys, shard keys and sort keys rely on it.
\<close>

section \<open>Accessors of the right-hand side\<close>

text \<open>
  \<open>compareElementValues\<close> is called on elements of one canonical type, and reads its second
  argument with the accessors for the type of the first.
\<close>

fun bool_byte :: "bson_value \<Rightarrow> int" where
  "bool_byte (BoolV b) = (if b then 1 else 0)"
| "bool_byte _ = 0"

fun date :: "bson_value \<Rightarrow> u64" where
  "date (DateV d) = d"
| "date (TimestampV t) = t"
| "date _ = 0"

fun oid :: "bson_value \<Rightarrow> bstr" where
  "oid (OIDV i) = i"
| "oid _ = []"

text \<open>\<open>valuestr()\<close> without its terminating NUL.\<close>

fun valuestr :: "bson_value \<Rightarrow> bstr" where
  "valuestr (StringV s) = s"
| "valuestr (SymbolV s) = s"
| "valuestr (CodeV s) = s"
| "valuestr _ = []"

fun embeddedObject :: "bson_value \<Rightarrow> bson" where
  "embeddedObject (ObjectV b) = b"
| "embeddedObject (ArrayV b) = b"
| "embeddedObject _ = []"

fun binData :: "bson_value \<Rightarrow> byte \<times> bstr" where
  "binData (BinDataV t d) = (t, d)"
| "binData _ = (0, [])"

fun regex :: "bson_value \<Rightarrow> bstr \<times> bstr" where
  "regex (RegExV r f) = (r, f)"
| "regex _ = ([], [])"

text \<open>What \<open>codeWScopeCode()\<close> points to: the code, its NUL and the scope.\<close>

fun codeWScopeCode :: "bson_value \<Rightarrow> byte list" where
  "codeWScopeCode (CodeWScopeV c b) = cstring c @ enc_obj b"
| "codeWScopeCode _ = []"

definition codeWScopeScopeDataUnsafe :: "bson_value \<Rightarrow> byte list" where
  "codeWScopeScopeDataUnsafe v = drop (length (cstr (codeWScopeCode v)) + 1) (codeWScopeCode v)"

definition str_cmp :: "bstr \<Rightarrow> bstr \<Rightarrow> int" where
  "str_cmp l r =
     (let lsz = length l + 1; rsz = length r + 1; common = min lsz rsz;
          res = memcmp (take common (cstring l)) (take common (cstring r))
      in if res \<noteq> 0 then res else int lsz - int rsz)"

section \<open>Comparison\<close>

text \<open>
  The second function is the loop of \<open>BSONObj::woCompare(r)\<close> without an ordering, with field names
  considered, as it is called on embedded objects; its body is \<open>BSONElement::woCompare\<close>.
\<close>

function compareElementValues :: "bson_value \<Rightarrow> bson_value \<Rightarrow> int"
  and woCompare_embedded :: "bson \<Rightarrow> bson \<Rightarrow> int" where
  "compareElementValues UndefinedV r = icmp (canonicalType UndefinedV) (canonicalType r)"
| "compareElementValues NullV r = icmp (canonicalType NullV) (canonicalType r)"
| "compareElementValues MaxKeyV r = icmp (canonicalType MaxKeyV) (canonicalType r)"
| "compareElementValues MinKeyV r = icmp (canonicalType MinKeyV) (canonicalType r)"
| "compareElementValues (BoolV b) r = bool_byte (BoolV b) - bool_byte r"
| "compareElementValues (TimestampV t) r = icmp t (date r)"
| "compareElementValues (DateV d) r = icmp (sint d) (sint (date r))"
| "compareElementValues (LongV n) r =
     (case r of
        LongV m \<Rightarrow> icmp (sint n) (sint m)
      | _ \<Rightarrow> dbl_cmp (numberDouble (LongV n)) (numberDouble r))"
| "compareElementValues (IntV n) r =
     (case r of
        IntV m \<Rightarrow> icmp (sint n) (sint m)
      | _ \<Rightarrow> dbl_cmp (numberDouble (IntV n)) (numberDouble r))"
| "compareElementValues (DoubleV d) r = dbl_cmp (numberDouble (DoubleV d)) (numberDouble r)"
| "compareElementValues (OIDV i) r = memcmp i (oid r)"
| "compareElementValues (CodeV s) r = str_cmp s (valuestr r)"
| "compareElementValues (SymbolV s) r = str_cmp s (valuestr r)"
| "compareElementValues (StringV s) r = str_cmp s (valuestr r)"
| "compareElementValues (ObjectV b) r = woCompare_embedded b (embeddedObject r)"
| "compareElementValues (ArrayV b) r = woCompare_embedded b (embeddedObject r)"
| "compareElementValues (DBRefV ns i) r =
     (let l = enc_value (DBRefV ns i); r = enc_value r
      in lex (int (length l) - int (length r)) (memcmp l r))"
| "compareElementValues (BinDataV t d) r =
     lex (int (length d) - int (length (snd (binData r)))) (memcmp (t # d) (fst (binData r) # snd (binData r)))"
| "compareElementValues (RegExV x f) r = lex (strcmp x (fst (regex r))) (strcmp f (snd (regex r)))"
| "compareElementValues (CodeWScopeV c b) r =
     lex (canonicalType (CodeWScopeV c b) - canonicalType r)
      (lex (strcmp (codeWScopeCode (CodeWScopeV c b)) (codeWScopeCode r))
        (strcmp (codeWScopeScopeDataUnsafe (CodeWScopeV c b)) (codeWScopeScopeDataUnsafe r)))"
| "woCompare_embedded [] [] = 0"
| "woCompare_embedded [] (f # fs) = -1"
| "woCompare_embedded (e # es) [] = 1"
| "woCompare_embedded ((n, l) # es) ((m, r) # fs) =
     (let x = canonicalType l - canonicalType r;
          x = (if x \<noteq> 0 \<and> (\<not> isNumber l \<or> \<not> isNumber r) then x
               else lex (strcmp n m) (compareElementValues l r))
      in if x \<noteq> 0 then x else woCompare_embedded es fs)"
  by pat_completeness auto
termination
  by (relation "measure (\<lambda>x. case x of Inl (v, _) \<Rightarrow> size v
      | Inr (es, _) \<Rightarrow> size_list (size_prod (\<lambda>_. 0) size) es)") auto

definition elem_woCompare :: "bson_elem \<Rightarrow> bson_elem \<Rightarrow> bool \<Rightarrow> int" where
  "elem_woCompare l r considerFieldName =
     (let x = canonicalType (snd l) - canonicalType (snd r)
      in if x \<noteq> 0 \<and> (\<not> isNumber (snd l) \<or> \<not> isNumber (snd r)) then x
         else lex (if considerFieldName then strcmp (fst l) (fst r) else 0)
           (compareElementValues (snd l) (snd r)))"

text \<open>\<open>Ordering\<close>: bit \<open>i\<close> is set when field \<open>i\<close> of the key pattern is descending.\<close>

type_synonym ordering = u32

fun Ordering_make_from :: "nat \<Rightarrow> u32 \<Rightarrow> bson \<Rightarrow> ordering result" where
  "Ordering_make_from n b [] = Inr b"
| "Ordering_make_from n b ((_, v) # k) =
     (if n \<le> 31
      then Ordering_make_from (n + 1) (if dbl_lt (numberDouble v) (Fin 0) then set_bit n b else b) k
      else Inl (UserAssertion 13103))"

definition Ordering_make :: "bson \<Rightarrow> ordering result" where
  "Ordering_make k = Ordering_make_from 0 0 k"

definition Ordering_get :: "ordering \<Rightarrow> nat \<Rightarrow> int" where
  "Ordering_get bits i = (if bit bits i then -1 else 1)"

definition descending :: "ordering \<Rightarrow> nat \<Rightarrow> bool" where
  "descending bits i \<longleftrightarrow> bit bits i"

text \<open>The loops of \<open>BSONObj::woCompare\<close>; \<open>i\<close> is the position of the bit in \<open>mask\<close>.\<close>

fun woCompare_loop :: "ordering \<Rightarrow> bool \<Rightarrow> nat \<Rightarrow> bson \<Rightarrow> bson \<Rightarrow> int" where
  "woCompare_loop ord cfn i [] [] = 0"
| "woCompare_loop ord cfn i [] (r # rs) = -1"
| "woCompare_loop ord cfn i (l # ls) [] = 1"
| "woCompare_loop ord cfn i (l # ls) (r # rs) =
     (let x = elem_woCompare l r cfn;
          x = (if descending ord i then - x else x)
      in if x \<noteq> 0 then x else woCompare_loop ord cfn (i + 1) ls rs)"

definition woCompare :: "bson \<Rightarrow> bson \<Rightarrow> ordering \<Rightarrow> bool \<Rightarrow> int" where
  "woCompare l r ord cfn =
     (if l = [] then (if r = [] then 0 else -1)
      else if r = [] then 1
      else woCompare_loop ord cfn 0 l r)"

text \<open>With a key pattern; where the pattern is shorter its iterator yields \<open>EOO\<close>, whose number is 0.\<close>

fun woCompare_idx_loop :: "bool \<Rightarrow> bson \<Rightarrow> bool \<Rightarrow> bson \<Rightarrow> bson \<Rightarrow> int" where
  "woCompare_idx_loop ordered k cfn [] [] = 0"
| "woCompare_idx_loop ordered k cfn [] (r # rs) = -1"
| "woCompare_idx_loop ordered k cfn (l # ls) [] = 1"
| "woCompare_idx_loop ordered k cfn (l # ls) (r # rs) =
     (let x = elem_woCompare l r cfn;
          x = (if ordered \<and> k \<noteq> [] \<and> dbl_lt (numberDouble (snd (hd k))) (Fin 0) then - x else x)
      in if x \<noteq> 0 then x else woCompare_idx_loop ordered (tl k) cfn ls rs)"

definition woCompare_idx :: "bson \<Rightarrow> bson \<Rightarrow> bson \<Rightarrow> bool \<Rightarrow> int" where
  "woCompare_idx l r idxKey cfn =
     (if l = [] then (if r = [] then 0 else -1)
      else if r = [] then 1
      else woCompare_idx_loop (idxKey \<noteq> []) idxKey cfn l r)"

text \<open>
  \<open>BSONObj::equal\<close>, the deep equality behind \<open>operator==\<close>.  Past the end of the second object the
  loop compares with \<open>EOO\<close>, which equals an unnamed \<open>Undefined\<close>; the iterator's \<open>verify\<close> then fails.
\<close>

fun bson_equal :: "bson \<Rightarrow> bson \<Rightarrow> bool result" where
  "bson_equal [] r = Inr (r = [])"
| "bson_equal (l # ls) [] =
     (if snd l = UndefinedV \<and> strcmp (fst l) [] = 0 then Inl VerifyFailed else Inr False)"
| "bson_equal (l # ls) (r # rs) = (if elem_woCompare l r True = 0 then bson_equal ls rs else Inr False)"

section \<open>Comparison by keys\<close>

text \<open>A predicate on every value inside a document, scopes of code excepted (they are compared as bytes).\<close>

function all_value :: "(bson_value \<Rightarrow> bool) \<Rightarrow> bson_value \<Rightarrow> bool"
  and all_elems :: "(bson_value \<Rightarrow> bool) \<Rightarrow> bson \<Rightarrow> bool" where
  "all_value P v = (P v \<and> all_elems P (embeddedObject v))"
| "all_elems P [] = True"
| "all_elems P ((n, v) # es) = (all_value P v \<and> all_elems P es)"
  by pat_completeness auto
termination
proof (relation "measure (\<lambda>x. case x of Inl (_, v) \<Rightarrow> Suc (2 * size v)
      | Inr (_, es) \<Rightarrow> 2 * size_list (size_prod (\<lambda>_. 0) size) es)")
  fix P v
  show "(Inr (P, embeddedObject v), Inl (P, v)) \<in> measure (\<lambda>x. case x of Inl (_, v) \<Rightarrow> Suc (2 * size v)
      | Inr (_, es) \<Rightarrow> 2 * size_list (size_prod (\<lambda>_. 0) size) es)"
    by (cases v) auto
qed auto

text \<open>
  Dates are signed and timestamps unsigned, and a date is compared with a timestamp by the sign
  convention of the left operand: they are ordered together only where both conventions agree.
\<close>

fun time_ok :: "bool \<Rightarrow> bson_value \<Rightarrow> bool" where
  "time_ok b (DateV d) = (b \<or> d < 2 ^ 63)"
| "time_ok b (TimestampV t) = (\<not> b \<and> t < 2 ^ 63)"
| "time_ok b (OIDV i) = (length i = 12)"
| "time_ok b _ = True"

fun long_ok :: "bson_value \<Rightarrow> bool" where
  "long_ok (LongV n) = (\<bar>sint n\<bar> < 2 ^ 53)"
| "long_ok _ = True"

lemma memcmp_common:
  "memcmp (take (min (length s) (length t)) s) (take (min (length s) (length t)) t) = memcmp s t"
  by (induction s t rule: memcmp.induct) auto

lemma sgn_str_cmp [simp]: "sgn (str_cmp l r) = lexcmp l r"
proof -
  have "str_cmp l r = lex (memcmp (cstring l) (cstring r)) (int (length (cstring l)) - int (length (cstring r)))"
    using memcmp_common [of "cstring l" "cstring r"] by (simp add: str_cmp_def Let_def lex_def cstring_def)
  then have "sgn (str_cmp l r) = lexcmp (cstring l) (cstring r)" by (simp only: memcmp_lex_length)
  then show ?thesis by (simp add: cstring_def lexcmp_snoc0)
qed

lemma cmp_number:
  assumes "isNumber l" "isNumber r" "long_ok l" "long_ok r"
  shows "compareElementValues l r = dbl_cmp (numberDouble l) (numberDouble r)"
proof -
  have "\<bar>sint (i :: u32)\<bar> < 2 ^ 53" for i
    using sint_greater_eq [of i] sint_less [of i] by (simp add: abs_if)
  with assms show ?thesis
    by (cases l; cases r) (simp_all add: dbl_of_int_exact)
qed

lemma sint_small: "x < 2 ^ 63 \<Longrightarrow> sint (x :: u64) = uint x"
proof -
  assume "x < 2 ^ 63"
  then have "uint x < 2 ^ 63" by (simp add: word_less_def)
  moreover have "- (2 ^ 63) \<le> uint x" by (rule order_trans [OF _ unsigned_greater_eq]) simp
  ultimately show ?thesis by (simp only: sint_uint) (simp add: signed_take_bit_int_eq_self)
qed

lemma icmp_uint: "icmp (uint x) (uint y) = icmp x y"
  by (simp add: icmp_def word_less_def word_uint_eq_iff)

lemma cmp_time:
  assumes "canonicalType l = 45" "canonicalType r = 45" "time_ok b l" "time_ok b r"
  shows "compareElementValues l r = icmp (sint (date l)) (sint (date r))"
  using assms
  by (cases l; cases r) (auto simp: sint_small icmp_uint)

lemma cmp_string:
  assumes "canonicalType l = canonicalType r" "canonicalType l = 15 \<or> canonicalType l = 60"
  shows "sgn (compareElementValues l r) = lexcmp (valuestr l) (valuestr r)"
  using assms by (cases l; cases r) auto

lemma cmp_embedded:
  assumes "canonicalType l = canonicalType r" "canonicalType l = 20 \<or> canonicalType l = 25"
  shows "compareElementValues l r = woCompare_embedded (embeddedObject l) (embeddedObject r)"
  using assms by (cases l; cases r) auto

lemma cmp_bindata:
  assumes "canonicalType l = 30" "canonicalType r = 30"
  shows "sgn (compareElementValues l r) =
    lex (icmp (length (snd (binData l))) (length (snd (binData r))))
      (lexcmp (fst (binData l) # snd (binData l)) (fst (binData r) # snd (binData r)))"
  using assms by (cases l; cases r) (auto simp: sgn_lex sgn_diff lex_def icmp_def memcmp_trans_eq)

lemma cmp_oid:
  assumes "canonicalType l = 35" "canonicalType r = 35" "time_ok b l" "time_ok b r"
  shows "compareElementValues l r = lexcmp (oid l) (oid r)"
  using assms by (cases l; cases r) (auto simp: memcmp_trans_eq)

lemma cmp_bool:
  assumes "canonicalType l = 40" "canonicalType r = 40"
  shows "compareElementValues l r = bool_byte l - bool_byte r"
  using assms by (cases l; cases r) auto

lemma cmp_regex:
  assumes "canonicalType l = 50" "canonicalType r = 50"
  shows "compareElementValues l r =
    lex (strcmp (fst (regex l)) (fst (regex r))) (strcmp (snd (regex l)) (snd (regex r)))"
  using assms by (cases l; cases r) auto

lemma cmp_dbref:
  assumes "canonicalType l = 55" "canonicalType r = 55"
  shows "sgn (compareElementValues l r) =
    lex (icmp (length (enc_value l)) (length (enc_value r))) (lexcmp (enc_value l) (enc_value r))"
  using assms
  by (cases l; cases r)
    (auto simp: sgn_lex sgn_diff lex_def icmp_def memcmp_trans_eq Let_def simp del: enc_value.simps)

lemma cmp_scope:
  assumes "canonicalType l = 65" "canonicalType r = 65"
  shows "compareElementValues l r =
    lex (strcmp (codeWScopeCode l) (codeWScopeCode r))
      (strcmp (codeWScopeScopeDataUnsafe l) (codeWScopeScopeDataUnsafe r))"
  using assms by (cases l; cases r) auto

lemma cmp_single:
  assumes "canonicalType l = canonicalType r" "canonicalType l \<in> {-1, 0, 5, 127}"
  shows "compareElementValues l r = 0"
  using assms by (cases l; cases r) auto

lemma canonicalType_range:
  "canonicalType v \<in> {-1, 0, 5, 127} \<or> isNumber v \<and> canonicalType v = 10 \<or>
   canonicalType v \<in> {15, 60} \<or> canonicalType v \<in> {20, 25} \<or> canonicalType v \<in> {30, 35, 40, 45, 50, 55, 65}"
  by (cases v) auto

lemma isNumber_canonical: "isNumber v \<longleftrightarrow> canonicalType v = 10"
  by (cases v) auto
section \<open>The comparison orders its arguments\<close>

text \<open>One step of the loop on embedded objects, on keys.\<close>

lemma embedded_Cons:
  "woCompare_embedded ((n, l) # es) ((m, r) # fs) =
     lex (canonicalType l - canonicalType r)
       (lex (lex (strcmp n m) (compareElementValues l r)) (woCompare_embedded es fs))"
  by (auto simp: lex_def Let_def isNumber_canonical)

lemma num_antisym:
  "isNumber l \<Longrightarrow> isNumber r \<Longrightarrow> compareElementValues r l = - compareElementValues l r"
  by (cases l; cases r) (simp_all, (rule icmp_antisym dbl_cmp_antisym)+)

text \<open>Antisymmetry on one canonical type, given it on the elements of the left operand.\<close>

lemma flat_antisym:
  assumes t: "canonicalType l = canonicalType r" "canonicalType l \<noteq> 20" "canonicalType l \<noteq> 25"
    and ok: "time_ok b l" "time_ok b r"
  shows "sgn (compareElementValues r l) = - sgn (compareElementValues l r)"
proof -
  consider "canonicalType l \<in> {-1, 0, 5, 127}" | "isNumber l" | "canonicalType l = 15 \<or> canonicalType l = 60"
    | "canonicalType l = 30" | "canonicalType l = 35" | "canonicalType l = 40" | "canonicalType l = 45"
    | "canonicalType l = 50" | "canonicalType l = 55" | "canonicalType l = 65"
    using canonicalType_range [of l] t by fastforce
  then show ?thesis
  proof cases
    case 1
    then show ?thesis using cmp_single [of l r] cmp_single [of r l] t by simp
  next
    case 2
    then show ?thesis using num_antisym [of l r] t by (simp add: isNumber_canonical)
  next
    case 3
    then show ?thesis using cmp_string [of l r] cmp_string [of r l] t
      by (metis lexcmp_antisym)
  next
    case 4
    then show ?thesis using cmp_bindata [of l r] cmp_bindata [of r l] t
      by (simp add: icmp_antisym [of "length (snd (binData r))"] lexcmp_antisym [of "_ # snd (binData r)"] lex_neg
        del: lexcmp.simps)
  next
    case 5
    then show ?thesis using cmp_oid [of l r] cmp_oid [of r l] t ok by (metis lexcmp_antisym sgn_lexcmp)
  next
    case 6
    then show ?thesis using cmp_bool [of l r] cmp_bool [of r l] t by (simp add: sgn_if)
  next
    case 7
    then show ?thesis using cmp_time [of l r] cmp_time [of r l] t ok by (metis icmp_antisym sgn_icmp)
  next
    case 8
    then show ?thesis using cmp_regex [of l r] cmp_regex [of r l] t
      by (simp add: strcmp_antisym [of "fst (regex r)"] strcmp_antisym [of "snd (regex r)"] lex_neg sgn_minus)
  next
    case 9
    then show ?thesis using cmp_dbref [of l r] cmp_dbref [of r l] t
      by (simp add: icmp_antisym [of "length (enc_value r)"] lexcmp_antisym [of "enc_value r"] lex_neg)
  next
    case 10
    then show ?thesis using cmp_scope [of l r] cmp_scope [of r l] t
      by (simp add: strcmp_antisym [of "codeWScopeCode r"] strcmp_antisym [of "codeWScopeScopeDataUnsafe r"]
        lex_neg sgn_minus)
  qed
qed

lemma embedded_antisym:
  assumes "\<And>n v r. (n, v) \<in> set es \<Longrightarrow> canonicalType v = canonicalType r \<Longrightarrow>
      all_value (time_ok b) v \<Longrightarrow> all_value (time_ok b) r \<Longrightarrow>
      sgn (compareElementValues r v) = - sgn (compareElementValues v r)"
    and "all_elems (time_ok b) es" "all_elems (time_ok b) fs"
  shows "sgn (woCompare_embedded fs es) = - sgn (woCompare_embedded es fs)"
  using assms
proof (induction es arbitrary: fs)
  case Nil
  then show ?case by (cases fs) auto
next
  case (Cons e es)
  obtain n l where e: "e = (n, l)" by fastforce
  show ?case
  proof (cases fs)
    case Nil
    then show ?thesis by (simp add: e)
  next
    case (Cons f gs)
    obtain m r where f: "f = (m, r)" by fastforce
    have IH: "sgn (woCompare_embedded gs es) = - sgn (woCompare_embedded es gs)"
      using Cons.prems Cons e f by (intro Cons.IH) auto
    have el: "sgn (compareElementValues r l) = - sgn (compareElementValues l r)"
      if "canonicalType l = canonicalType r"
      using Cons.prems Cons e f that by (intro Cons.prems(1)) auto
    show ?thesis
    proof (cases "canonicalType l = canonicalType r")
      case True
      then show ?thesis
        using IH el [OF True] unfolding Cons e f
        by (simp add: embedded_Cons sgn_lex strcmp_antisym [of m n] lex_neg sgn_minus del: woCompare_embedded.simps)
    next
      case False
      then show ?thesis
        unfolding Cons e f by (simp add: embedded_Cons lex_def sgn_if del: woCompare_embedded.simps)
    qed
  qed
qed

lemma value_antisym:
  "canonicalType l = canonicalType r \<Longrightarrow> all_value (time_ok b) l \<Longrightarrow> all_value (time_ok b) r \<Longrightarrow>
     sgn (compareElementValues r l) = - sgn (compareElementValues l r)"
proof (induction l arbitrary: r)
  case (ObjectV es)
  then have c: "compareElementValues r (ObjectV es) = woCompare_embedded (embeddedObject r) es"
    using cmp_embedded [of r "ObjectV es"] by simp
  have "sgn (woCompare_embedded (embeddedObject r) es) = - sgn (woCompare_embedded es (embeddedObject r))"
    by (rule embedded_antisym [of es b]) (use ObjectV in \<open>force+\<close>)
  with c show ?case by simp
next
  case (ArrayV es)
  then have c: "compareElementValues r (ArrayV es) = woCompare_embedded (embeddedObject r) es"
    using cmp_embedded [of r "ArrayV es"] by simp
  have "sgn (woCompare_embedded (embeddedObject r) es) = - sgn (woCompare_embedded es (embeddedObject r))"
    by (rule embedded_antisym [of es b]) (use ArrayV in \<open>force+\<close>)
  with c show ?case by simp
qed (rule flat_antisym [where b = b]; simp)+

text \<open>Transitivity on one canonical type.\<close>

lemma flat_tri:
  assumes t: "canonicalType x = canonicalType y" "canonicalType y = canonicalType z"
      "canonicalType x \<noteq> 20" "canonicalType x \<noteq> 25"
    and ok: "time_ok b x" "time_ok b y" "time_ok b z" "long_ok x" "long_ok y" "long_ok z"
  shows "tri (compareElementValues x y) (compareElementValues y z) (compareElementValues x z)"
proof -
  consider "canonicalType x \<in> {-1, 0, 5, 127}" | "isNumber x" | "canonicalType x = 15 \<or> canonicalType x = 60"
    | "canonicalType x = 30" | "canonicalType x = 35" | "canonicalType x = 40" | "canonicalType x = 45"
    | "canonicalType x = 50" | "canonicalType x = 55" | "canonicalType x = 65"
    using canonicalType_range [of x] t by fastforce
  then show ?thesis
  proof cases
    case 1
    then show ?thesis using cmp_single [of x y] cmp_single [of y z] cmp_single [of x z] t by (simp add: tri_zero)
  next
    case 2
    then show ?thesis using cmp_number [of x y] cmp_number [of y z] cmp_number [of x z] t ok
      by (simp add: isNumber_canonical tri_dbl_cmp)
  next
    case 3
    then have "tri (sgn (compareElementValues x y)) (sgn (compareElementValues y z)) (sgn (compareElementValues x z))"
      using cmp_string [of x y] cmp_string [of y z] cmp_string [of x z] t by (simp add: tri_lexcmp)
    then show ?thesis by (simp only: tri_sgn)
  next
    case 4
    then have "tri (sgn (compareElementValues x y)) (sgn (compareElementValues y z)) (sgn (compareElementValues x z))"
      using cmp_bindata [of x y] cmp_bindata [of y z] cmp_bindata [of x z] t
      by (simp add: tri_lex tri_icmp tri_lexcmp del: lexcmp.simps)
    then show ?thesis by (simp only: tri_sgn)
  next
    case 5
    then show ?thesis using cmp_oid [of x y b] cmp_oid [of y z b] cmp_oid [of x z b] t ok
      by (simp add: tri_lexcmp)
  next
    case 6
    then show ?thesis using cmp_bool [of x y] cmp_bool [of y z] cmp_bool [of x z] t by (simp add: tri_diff)
  next
    case 7
    then show ?thesis using cmp_time [of x y b] cmp_time [of y z b] cmp_time [of x z b] t ok
      by (simp add: tri_icmp)
  next
    case 8
    then show ?thesis using cmp_regex [of x y] cmp_regex [of y z] cmp_regex [of x z] t
      by (simp add: tri_lex tri_strcmp)
  next
    case 9
    then have "tri (sgn (compareElementValues x y)) (sgn (compareElementValues y z)) (sgn (compareElementValues x z))"
      using cmp_dbref [of x y] cmp_dbref [of y z] cmp_dbref [of x z] t
      by (simp add: tri_lex tri_icmp tri_lexcmp)
    then show ?thesis by (simp only: tri_sgn)
  next
    case 10
    then show ?thesis using cmp_scope [of x y] cmp_scope [of y z] cmp_scope [of x z] t
      by (simp add: tri_lex tri_strcmp)
  qed
qed

text \<open>Transitivity of the loop, given it on the elements of the left operand.\<close>

abbreviation ord_ok :: "bool \<Rightarrow> bson_value \<Rightarrow> bool" where
  "ord_ok b \<equiv> all_value (\<lambda>v. time_ok b v \<and> long_ok v)"

abbreviation ord_ok_obj :: "bool \<Rightarrow> bson \<Rightarrow> bool" where
  "ord_ok_obj b \<equiv> all_elems (\<lambda>v. time_ok b v \<and> long_ok v)"

lemma embedded_tri:
  assumes "\<And>n v y z. (n, v) \<in> set es \<Longrightarrow> canonicalType v = canonicalType y \<Longrightarrow>
      canonicalType y = canonicalType z \<Longrightarrow> ord_ok b v \<Longrightarrow> ord_ok b y \<Longrightarrow> ord_ok b z \<Longrightarrow>
      tri (compareElementValues v y) (compareElementValues y z) (compareElementValues v z)"
    and "ord_ok_obj b es" "ord_ok_obj b fs" "ord_ok_obj b gs"
  shows "tri (woCompare_embedded es fs) (woCompare_embedded fs gs) (woCompare_embedded es gs)"
  using assms
proof (induction es arbitrary: fs gs)
  case Nil
  then show ?case by (cases fs; cases gs) (auto simp: tri_def)
next
  case (Cons e es)
  obtain n x where e: "e = (n, x)" by fastforce
  show ?case
  proof (cases "fs = [] \<or> gs = []")
    case True
    then show ?thesis by (cases fs; cases gs) (auto simp: tri_def e)
  next
    case False
    then obtain m y fs' k z gs' where f: "fs = (m, y) # fs'" "gs = (k, z) # gs'"
      by (metis list.exhaust surj_pair)
    have "tri (woCompare_embedded es fs') (woCompare_embedded fs' gs') (woCompare_embedded es gs')"
      using Cons.prems e f by (intro Cons.IH) auto
    moreover have "tri (compareElementValues x y) (compareElementValues y z) (compareElementValues x z)"
      if "canonicalType x = canonicalType y" "canonicalType y = canonicalType z"
      using Cons.prems e f that by (intro Cons.prems(1)) auto
    ultimately show ?thesis
      unfolding e f embedded_Cons by (intro tri_lex tri_diff tri_strcmp) auto
  qed
qed

lemma value_tri:
  "canonicalType x = canonicalType y \<Longrightarrow> canonicalType y = canonicalType z \<Longrightarrow>
     ord_ok b x \<Longrightarrow> ord_ok b y \<Longrightarrow> ord_ok b z \<Longrightarrow>
     tri (compareElementValues x y) (compareElementValues y z) (compareElementValues x z)"
proof (induction x arbitrary: y z)
  case (ObjectV es)
  have "tri (woCompare_embedded es (embeddedObject y)) (woCompare_embedded (embeddedObject y) (embeddedObject z))
      (woCompare_embedded es (embeddedObject z))"
    by (rule embedded_tri [of es b]) (use ObjectV in \<open>force+\<close>)
  with ObjectV.prems(1,2) cmp_embedded [of y z] show ?case by simp
next
  case (ArrayV es)
  have "tri (woCompare_embedded es (embeddedObject y)) (woCompare_embedded (embeddedObject y) (embeddedObject z))
      (woCompare_embedded es (embeddedObject z))"
    by (rule embedded_tri [of es b]) (use ArrayV in \<open>force+\<close>)
  with ArrayV.prems(1,2) cmp_embedded [of y z] show ?case by simp
qed (rule flat_tri [where b = b]; simp)+

section \<open>Objects\<close>

lemma elem_woCompare_lex:
  "elem_woCompare l r cfn = lex (canonicalType (snd l) - canonicalType (snd r))
     (lex (if cfn then strcmp (fst l) (fst r) else 0) (compareElementValues (snd l) (snd r)))"
  by (auto simp: elem_woCompare_def lex_def Let_def isNumber_canonical)

lemma woCompare_loop_Cons:
  "woCompare_loop ord cfn i (l # ls) (r # rs) =
     lex (if descending ord i then - elem_woCompare l r cfn else elem_woCompare l r cfn)
       (woCompare_loop ord cfn (i + 1) ls rs)"
  by (simp add: lex_def Let_def)

lemma woCompare_is_loop: "woCompare l r ord cfn = woCompare_loop ord cfn 0 l r"
  by (cases l; cases r) (simp_all add: woCompare_def)

lemma elem_antisym:
  assumes "all_value (time_ok b) (snd l)" "all_value (time_ok b) (snd r)"
  shows "sgn (elem_woCompare r l cfn) = - sgn (elem_woCompare l r cfn)"
proof (cases "canonicalType (snd l) = canonicalType (snd r)")
  case True
  with value_antisym [OF True assms] show ?thesis
    by (simp add: elem_woCompare_lex sgn_lex strcmp_antisym [of "fst r"] lex_neg sgn_minus)
next
  case False
  then show ?thesis by (simp add: elem_woCompare_lex lex_def sgn_if)
qed

lemma loop_antisym:
  "all_elems (time_ok b) ls \<Longrightarrow> all_elems (time_ok b) rs \<Longrightarrow>
     sgn (woCompare_loop ord cfn i rs ls) = - sgn (woCompare_loop ord cfn i ls rs)"
proof (induction ls arbitrary: rs i)
  case Nil
  then show ?case by (cases rs) auto
next
  case (Cons l ls)
  show ?case
  proof (cases rs)
    case Nil
    then show ?thesis by simp
  next
    case (Cons r rs')
    have "sgn (woCompare_loop ord cfn (i + 1) rs' ls) = - sgn (woCompare_loop ord cfn (i + 1) ls rs')"
      using Cons.prems Cons by (intro Cons.IH; cases l; cases r) auto
    moreover have "sgn (elem_woCompare r l cfn) = - sgn (elem_woCompare l r cfn)"
      using Cons.prems Cons by (intro elem_antisym [of b]; cases l; cases r) auto
    ultimately show ?thesis
      unfolding Cons woCompare_loop_Cons sgn_lex sgn_minus by (auto simp: lex_def sgn_minus)
  qed
qed

lemma elem_tri:
  assumes "ord_ok b (snd x)" "ord_ok b (snd y)" "ord_ok b (snd z)"
  shows "tri (elem_woCompare x y cfn) (elem_woCompare y z cfn) (elem_woCompare x z cfn)"
  unfolding elem_woCompare_lex
  by (intro tri_lex tri_diff) (use assms in \<open>auto simp: tri_strcmp tri_zero intro!: value_tri\<close>)

lemma loop_tri:
  "ord_ok_obj b xs \<Longrightarrow> ord_ok_obj b ys \<Longrightarrow> ord_ok_obj b zs \<Longrightarrow>
     tri (woCompare_loop ord cfn i xs ys) (woCompare_loop ord cfn i ys zs) (woCompare_loop ord cfn i xs zs)"
proof (induction xs arbitrary: ys zs i)
  case Nil
  then show ?case by (cases ys; cases zs) (auto simp: tri_def)
next
  case (Cons x xs)
  show ?case
  proof (cases "ys = [] \<or> zs = []")
    case True
    then show ?thesis by (cases ys; cases zs) (auto simp: tri_def)
  next
    case False
    then obtain y ys' z zs' where yz: "ys = y # ys'" "zs = z # zs'" by (metis list.exhaust)
    have "tri (elem_woCompare x y cfn) (elem_woCompare y z cfn) (elem_woCompare x z cfn)"
      using Cons.prems yz by (intro elem_tri [of b]; cases x; cases y; cases z) auto
    moreover have "tri (woCompare_loop ord cfn (i + 1) xs ys') (woCompare_loop ord cfn (i + 1) ys' zs')
        (woCompare_loop ord cfn (i + 1) xs zs')"
      using Cons.prems yz by (intro Cons.IH; cases x; cases y; cases z) auto
    ultimately show ?thesis
      unfolding yz woCompare_loop_Cons by (auto intro!: tri_lex simp: tri_neg)
  qed
qed

lemma all_elems_mono:
  "(\<And>v. P v \<Longrightarrow> Q v) \<Longrightarrow> all_value P v \<Longrightarrow> all_value Q v"
  "(\<And>v. P v \<Longrightarrow> Q v) \<Longrightarrow> all_elems P es \<Longrightarrow> all_elems Q es"
  by (induction P v and P es rule: all_value_all_elems.induct) auto

text \<open>The contract of containers and indexes ordered by \<open>woCompare\<close>, for every ordering.\<close>

interpretation bson_order: three_way "ord_ok_obj b" "\<lambda>l r. woCompare l r ord cfn" for b ord cfn
proof
  fix x y z
  assume ok: "ord_ok_obj b x" "ord_ok_obj b y"
  then have "all_elems (time_ok b) x" "all_elems (time_ok b) y"
    by (auto elim!: all_elems_mono(2) [rotated])
  then show "sgn (woCompare y x ord cfn) = - sgn (woCompare x y ord cfn)"
    unfolding woCompare_is_loop by (rule loop_antisym)
  assume "ord_ok_obj b z"
  with ok show "tri (woCompare x y ord cfn) (woCompare y z ord cfn) (woCompare x z ord cfn)"
    unfolding woCompare_is_loop by (intro loop_tri)
qed

section \<open>The two ways to give an ordering\<close>

lemma Ordering_make_from_bit:
  "Ordering_make_from n b k = Inr o' \<Longrightarrow>
     bit o' i \<longleftrightarrow> bit b i \<or> (n \<le> i \<and> i < n + length k \<and> dbl_lt (numberDouble (snd (k ! (i - n)))) (Fin 0))"
proof (induction n b k rule: Ordering_make_from.induct)
  case (2 n b nm v k)
  then have n: "n \<le> 31" and IH: "bit o' i \<longleftrightarrow> bit (if dbl_lt (numberDouble v) (Fin 0) then set_bit n b else b) i \<or>
      (n + 1 \<le> i \<and> i < n + 1 + length k \<and> dbl_lt (numberDouble (snd (k ! (i - (n + 1))))) (Fin 0))"
    by (auto split: if_splits)
  consider "i < n" | "i = n" | "n < i" by linarith
  then show ?case
  proof cases
    case 3
    then have "i - n = Suc (i - Suc n)" by simp
    with 3 IH show ?thesis by (auto simp: bit_simps)
  qed (use IH n in \<open>auto simp: bit_simps\<close>)
qed auto

lemma Ordering_make_length: "Ordering_make_from n b k = Inr o' \<Longrightarrow> n \<le> 32 \<Longrightarrow> n + length k \<le> 32"
  by (induction n b k rule: Ordering_make_from.induct) (auto split: if_splits)

lemma idx_loop_eq:
  assumes "\<And>j. descending ord (i + j) \<longleftrightarrow> j < length k \<and> dbl_lt (numberDouble (snd (k ! j))) (Fin 0)"
  shows "woCompare_idx_loop True k cfn ls rs = woCompare_loop ord cfn i ls rs"
  using assms
proof (induction True k cfn ls rs arbitrary: i rule: woCompare_idx_loop.induct)
  case (4 k cfn l ls r rs)
  have "descending ord (i + 1 + j) \<longleftrightarrow> j < length (tl k) \<and> dbl_lt (numberDouble (snd (tl k ! j))) (Fin 0)" for j
    using 4(2) [of "Suc j"] by (cases k) auto
  moreover have "descending ord i \<longleftrightarrow> k \<noteq> [] \<and> dbl_lt (numberDouble (snd (hd k))) (Fin 0)"
    using 4(2) [of 0] by (cases k) auto
  ultimately show ?case using 4(1) [OF refl refl] by (simp add: Let_def)
qed simp_all

section \<open>Properties\<close>

text \<open>
  C2: \<open>BSONObj::woCompare\<close> is a total preorder under every ordering, with or without field names, on
  documents whose 64-bit integers are below 2^53 in size and whose dates and timestamps do not mix
  signs: it is antisymmetric and transitive, and documents that compare equal are interchangeable.
\<close>

theorem woCompare_total_preorder:
  assumes "ord_ok_obj b x" "ord_ok_obj b y" "ord_ok_obj b z"
  shows "sgn (woCompare y x ord cfn) = - sgn (woCompare x y ord cfn) \<and>
    (woCompare x y ord cfn \<le> 0 \<and> woCompare y z ord cfn \<le> 0 \<longrightarrow> woCompare x z ord cfn \<le> 0) \<and>
    (woCompare x y ord cfn = 0 \<longrightarrow> sgn (woCompare x z ord cfn) = sgn (woCompare y z ord cfn))"
  using bson_order.antisym [OF assms(1,2)] bson_order.le_trans [OF assms] bson_order.eq_cong [OF assms]
  by blast

theorem woCompare_total_preorder_witness:
  "\<exists>x y z :: bson. ord_ok_obj True x \<and> ord_ok_obj True y \<and> ord_ok_obj True z \<and>
     woCompare x y 0 True < 0 \<and> woCompare y z 0 True < 0 \<and> woCompare x z 0 True \<le> 0"
proof -
  let ?x = "[(str ''a'', IntV 1)]" and ?y = "[(str ''a'', LongV 2)]" and ?z = "[(str ''a'', StringV (str ''s''))]"
  have "dbl_of_int 1 = Fin (1 * dbl_scale)" "dbl_of_int 2 = Fin (2 * dbl_scale)"
    by (rule dbl_of_int_exact; simp)+
  then have lt: "woCompare ?x ?y 0 True < 0" "woCompare ?y ?z 0 True < 0"
    by (simp_all add: woCompare_def elem_woCompare_def descending_def lex_def Let_def)
  have ok: "ord_ok_obj True ?x" "ord_ok_obj True ?y" "ord_ok_obj True ?z" by simp_all
  from woCompare_total_preorder [OF ok, of 0 True] lt ok show ?thesis by fastforce
qed



text \<open>
  The hypotheses of the first property are needed.  A date before 1970 and a timestamp each compare
  below the other, and integers above 2^53 compare equal to doubles that are not equal.
\<close>

lemma date_timestamp_not_antisymmetric:
  "compareElementValues (DateV (- 1)) (TimestampV 5) < 0 \<and> compareElementValues (TimestampV 5) (DateV (- 1)) < 0"
  by simp

lemma long_double_not_transitive:
  "compareElementValues (LongV (2 ^ 53 + 1)) (DoubleV 0x4340000000000000) = 0 \<and>
   compareElementValues (DoubleV 0x4340000000000000) (LongV (2 ^ 53)) = 0 \<and>
   compareElementValues (LongV (2 ^ 53 + 1)) (LongV (2 ^ 53)) \<noteq> 0"
proof -
  have "bitlen 9007199254740993 = 54" "bitlen 9007199254740992 = 54"
    by (rule antisym; simp add: bitlen_le_iff_power bitlen_ge_iff_power)+
  then have "round53 (2 ^ 53 + 1) = 2 ^ 53" "round53 (2 ^ 53) = 2 ^ 53"
    by (simp_all add: round53_def Let_def)
  moreover have "dbl_of_bits 0x4340000000000000 = Fin (2 ^ 53 * dbl_scale)"
    by (simp add: dbl_of_bits_def Let_def dbl_scale_def)
  ultimately show ?thesis by (simp add: dbl_of_int_def)
qed

end
