(* ===== verification/BsonBuilder.thy ===== *)
theory BsonBuilder
  imports Bson
begin

text \<open>
  Building documents: the growing buffer \<open>_BufBuilder\<close> of \<open>bson/util/builder.h\<close> and the \<open>append\<close>s of
  \<open>BSONObjBuilder\<close> (\<open>bson/bsonobjbuilder.h\<close>) on raw bytes.  Every sequence of appends writes the
  layout of the elements it stands for, or raises when the buffer would pass its limit.
\<close>

section \<open>The buffer\<close>

text \<open>
  The first \<open>l\<close> bytes of the allocation and its size.  Allocations succeed.  Lengths are naturals:
  they stand for the \<open>int\<close>s of the code up to 2^30, past which the doubling would overflow.
\<close>

record bufbuilder =
  buf :: "byte list"
  size_of_buf :: nat

definition BSONObjMaxUserSize :: nat where
  "BSONObjMaxUserSize = 16 * 1024 * 1024"

definition BSONObjMaxInternalSize :: nat where
  "BSONObjMaxInternalSize = BSONObjMaxUserSize + 16 * 1024"

definition BufferMaxSize :: nat where
  "BufferMaxSize = 64 * 1024 * 1024"

definition bufbuilder_new :: "nat \<Rightarrow> bufbuilder" where
  "bufbuilder_new initsize = \<lparr> buf = [], size_of_buf = initsize \<rparr>"

definition bufbuilder_reset :: "nat \<Rightarrow> bufbuilder \<Rightarrow> bufbuilder" where
  "bufbuilder_reset maxSize b =
     \<lparr> buf = [], size_of_buf = (if maxSize \<noteq> 0 \<and> size_of_buf b > maxSize then maxSize else size_of_buf b) \<rparr>"

text \<open>The doubling loop of \<open>grow_reallocate\<close>, from any positive \<open>a\<close>; the code starts it at 64.\<close>

function grow_size :: "nat \<Rightarrow> nat \<Rightarrow> nat" where
  "grow_size a newLen = (if 0 < a \<and> a < newLen then grow_size (a * 2) newLen else a)"
  by pat_completeness auto
termination
  by (relation "measure (\<lambda>(a, n). n - a)") auto

declare grow_size.simps [simp del]

definition grow_reallocate :: "nat \<Rightarrow> bufbuilder \<Rightarrow> bufbuilder result" where
  "grow_reallocate newLen b =
     (let a = grow_size 64 newLen
      in if a > BufferMaxSize then Inl (MsgAssertion 13548) else Inr (b\<lparr>size_of_buf := a\<rparr>))"

definition grow :: "nat \<Rightarrow> bufbuilder \<Rightarrow> bufbuilder result" where
  "grow n b =
     (let newLen = length (buf b) + n
      in if newLen > size_of_buf b then grow_reallocate newLen b else Inr b)"

text \<open>Growing by some bytes and writing them at the old end.\<close>

definition appendBuf :: "byte list \<Rightarrow> bufbuilder \<Rightarrow> bufbuilder result" where
  "appendBuf src b = bind_result (grow (length src) b) (\<lambda>b. Inr (b\<lparr>buf := buf b @ src\<rparr>))"

definition appendNum_char :: "byte \<Rightarrow> bufbuilder \<Rightarrow> bufbuilder result" where
  "appendNum_char j = appendBuf [j]"

definition appendNum_int :: "u32 \<Rightarrow> bufbuilder \<Rightarrow> bufbuilder result" where
  "appendNum_int j = appendBuf (le_bytes 4 j)"

text \<open>\<open>long long\<close>, \<open>unsigned long long\<close>, and \<open>double\<close> by its pattern.\<close>

definition appendNum_8 :: "u64 \<Rightarrow> bufbuilder \<Rightarrow> bufbuilder result" where
  "appendNum_8 j = appendBuf (le_bytes 8 j)"

definition appendStr :: "bstr \<Rightarrow> bool \<Rightarrow> bufbuilder \<Rightarrow> bufbuilder result" where
  "appendStr s includeEndingNull = appendBuf (s @ (if includeEndingNull then [0] else []))"

text \<open>\<open>skip\<close> leaves the bytes it finds in memory, here its argument.\<close>

definition skip :: "byte list \<Rightarrow> bufbuilder \<Rightarrow> bufbuilder result" where
  "skip memory = appendBuf memory"

fun steps :: "('s \<Rightarrow> 's result) list \<Rightarrow> 's \<Rightarrow> 's result" where
  "steps [] b = Inr b"
| "steps (f # fs) b = bind_result (f b) (steps fs)"

section \<open>Appending elements\<close>

text \<open>The type byte and the name, as every append starts.\<close>

definition head :: "byte \<Rightarrow> bstr \<Rightarrow> (bufbuilder \<Rightarrow> bufbuilder result) list" where
  "head t fieldName = [appendNum_char t, appendStr fieldName True]"

text \<open>\<open>e.rawdata()\<close> up to \<open>e.size()\<close>, \<open>e.value()\<close> up to \<open>e.valuesize()\<close>; no element is \<open>EOO\<close> here.\<close>

definition append_element :: "bson_elem \<Rightarrow> bufbuilder \<Rightarrow> bufbuilder result" where
  "append_element e = steps [appendBuf (enc_elems [e])]"

definition appendAs :: "bson_elem \<Rightarrow> bstr \<Rightarrow> bufbuilder \<Rightarrow> bufbuilder result" where
  "appendAs e fieldName = steps (head (type_byte (snd e)) fieldName @ [appendBuf (enc_value (snd e))])"

definition append_obj :: "bstr \<Rightarrow> bson \<Rightarrow> bufbuilder \<Rightarrow> bufbuilder result" where
  "append_obj fieldName subObj = steps (head 3 fieldName @ [appendBuf (enc_obj subObj)])"

text \<open>From raw bytes; a size of 0 stands for the one the bytes start with.\<close>

definition appendObject :: "bstr \<Rightarrow> byte list \<Rightarrow> int \<Rightarrow> bufbuilder \<Rightarrow> bufbuilder result" where
  "appendObject fieldName objdata sz b =
     (let sz = (if sz = 0 then sint (le_word (take 4 objdata) :: u32) else sz)
      in bind_result (guardE (4 < sz \<and> sz < 100000000) VerifyFailed)
        (\<lambda>_. steps (head 3 fieldName @ [appendBuf (take (nat sz) objdata)]) b))"

definition appendArray :: "bstr \<Rightarrow> bson \<Rightarrow> bufbuilder \<Rightarrow> bufbuilder result" where
  "appendArray fieldName subObj = steps (head 4 fieldName @ [appendBuf (enc_obj subObj)])"

definition appendBool :: "bstr \<Rightarrow> bool \<Rightarrow> bufbuilder \<Rightarrow> bufbuilder result" where
  "appendBool fieldName val = steps (head 8 fieldName @ [appendNum_char (if val then 1 else 0)])"

definition append_int :: "bstr \<Rightarrow> u32 \<Rightarrow> bufbuilder \<Rightarrow> bufbuilder result" where
  "append_int fieldName n = steps (head 16 fieldName @ [appendNum_int n])"

definition append_ll :: "bstr \<Rightarrow> u64 \<Rightarrow> bufbuilder \<Rightarrow> bufbuilder result" where
  "append_ll fieldName n = steps (head 18 fieldName @ [appendNum_8 n])"

definition append_double :: "bstr \<Rightarrow> u64 \<Rightarrow> bufbuilder \<Rightarrow> bufbuilder result" where
  "append_double fieldName d = steps (head 1 fieldName @ [appendNum_8 d])"

text \<open>\<open>x * -1\<close> wraps on the least \<open>long long\<close>, as the compiled code does.\<close>

definition appendIntOrLL :: "bstr \<Rightarrow> u64 \<Rightarrow> bufbuilder \<Rightarrow> bufbuilder result" where
  "appendIntOrLL fieldName n =
     (let x = (if sint n < 0 then n * (- 1) else n)
      in if sint x < (2 ^ 31 - 1) div 2 then append_int fieldName (ucast n) else append_ll fieldName n)"

definition appendNumber_size_t :: "bstr \<Rightarrow> u64 \<Rightarrow> bufbuilder \<Rightarrow> bufbuilder result" where
  "appendNumber_size_t fieldName n =
     (if n < 2 ^ 30 then append_int fieldName (ucast n) else append_ll fieldName n)"

definition appendNumber_ll :: "bstr \<Rightarrow> u64 \<Rightarrow> bufbuilder \<Rightarrow> bufbuilder result" where
  "appendNumber_ll fieldName llNumber =
     (let nonNegative = (if 0 \<le> sint llNumber then llNumber else - llNumber)
      in if sint nonNegative < 2 ^ 30 then append_int fieldName (ucast llNumber)
         else if sint nonNegative < 2 ^ 40 then append_double fieldName (dbl_bits_of_int (sint llNumber))
         else append_ll fieldName llNumber)"

definition append_OID :: "bstr \<Rightarrow> bstr \<Rightarrow> bufbuilder \<Rightarrow> bufbuilder result" where
  "append_OID fieldName oid = steps (head 7 fieldName @ [appendBuf (take 12 oid)])"

definition appendTimeT :: "bstr \<Rightarrow> u64 \<Rightarrow> bufbuilder \<Rightarrow> bufbuilder result" where
  "appendTimeT fieldName dt = steps (head 9 fieldName @ [appendNum_8 (dt * 1000)])"

definition appendDate :: "bstr \<Rightarrow> u64 \<Rightarrow> bufbuilder \<Rightarrow> bufbuilder result" where
  "appendDate fieldName dt = steps (head 9 fieldName @ [appendNum_8 dt])"

definition appendRegex :: "bstr \<Rightarrow> bstr \<Rightarrow> bstr \<Rightarrow> bufbuilder \<Rightarrow> bufbuilder result" where
  "appendRegex fieldName regex options =
     steps (head 11 fieldName @ [appendStr regex True, appendStr options True])"

definition appendCode :: "bstr \<Rightarrow> bstr \<Rightarrow> bufbuilder \<Rightarrow> bufbuilder result" where
  "appendCode fieldName code =
     steps (head 13 fieldName @ [appendNum_int (of_nat (length code) + 1), appendStr code True])"

definition append_string :: "bstr \<Rightarrow> bstr \<Rightarrow> bufbuilder \<Rightarrow> bufbuilder result" where
  "append_string fieldName s =
     steps (head 2 fieldName @ [appendNum_int (of_nat (length s) + 1), appendStr s True])"

definition appendSymbol :: "bstr \<Rightarrow> bstr \<Rightarrow> bufbuilder \<Rightarrow> bufbuilder result" where
  "appendSymbol fieldName symbol =
     steps (head 14 fieldName @ [appendNum_int (of_nat (length symbol) + 1), appendStr symbol True])"

definition appendNull :: "bstr \<Rightarrow> bufbuilder \<Rightarrow> bufbuilder result" where
  "appendNull fieldName = steps (head 10 fieldName)"

definition appendMinKey :: "bstr \<Rightarrow> bufbuilder \<Rightarrow> bufbuilder result" where
  "appendMinKey fieldName = steps (head (- 1) fieldName)"

definition appendMaxKey :: "bstr \<Rightarrow> bufbuilder \<Rightarrow> bufbuilder result" where
  "appendMaxKey fieldName = steps (head 127 fieldName)"

definition appendUndefined :: "bstr \<Rightarrow> bufbuilder \<Rightarrow> bufbuilder result" where
  "appendUndefined fieldName = steps (head 6 fieldName)"

definition appendTimestamp :: "bstr \<Rightarrow> u64 \<Rightarrow> bufbuilder \<Rightarrow> bufbuilder result" where
  "appendTimestamp fieldName val = steps (head 17 fieldName @ [appendNum_8 val])"

definition appendDBRef :: "bstr \<Rightarrow> bstr \<Rightarrow> bstr \<Rightarrow> bufbuilder \<Rightarrow> bufbuilder result" where
  "appendDBRef fieldName ns oid =
     steps (head 12 fieldName @
       [appendNum_int (of_nat (length ns) + 1), appendStr ns True, appendBuf (take 12 oid)])"

definition appendBinData :: "bstr \<Rightarrow> byte \<Rightarrow> byte list \<Rightarrow> bufbuilder \<Rightarrow> bufbuilder result" where
  "appendBinData fieldName type data =
     steps (head 5 fieldName @ [appendNum_int (of_nat (length data)), appendNum_char type, appendBuf data])"

definition appendBinDataArrayDeprecated :: "bstr \<Rightarrow> byte list \<Rightarrow> bufbuilder \<Rightarrow> bufbuilder result" where
  "appendBinDataArrayDeprecated fieldName data =
     steps (head 5 fieldName @ [appendNum_int (of_nat (length data) + 4), appendNum_char 2,
       appendNum_int (of_nat (length data)), appendBuf data])"

definition appendCodeWScope :: "bstr \<Rightarrow> bstr \<Rightarrow> bson \<Rightarrow> bufbuilder \<Rightarrow> bufbuilder result" where
  "appendCodeWScope fieldName code scope =
     steps (head 15 fieldName @
       [appendNum_int (of_nat (4 + 4 + length code + 1 + length (enc_obj scope))),
        appendNum_int (of_nat (length code) + 1), appendStr code True, appendBuf (enc_obj scope)])"

section \<open>The object builder\<close>

text \<open>
  \<open>BSONObjBuilder\<close>: the buffer it writes to (its own, after a reference count, or the one of an
  enclosing builder), where its object starts and whether \<open>_done\<close> has run.
\<close>

record bsonobjbuilder =
  bb :: bufbuilder
  offset :: nat
  own :: bool
  doneCalled :: bool

definition builder_new :: "nat \<Rightarrow> byte list \<Rightarrow> bsonobjbuilder result" where
  "builder_new initsize memory =
     bind_result (steps [appendNum_int 0, skip (take 4 memory)] (bufbuilder_new (initsize + 4)))
       (\<lambda>b. Inr \<lparr> bb = b, offset = 4, own = True, doneCalled = False \<rparr>)"

definition builder_sub :: "bufbuilder \<Rightarrow> byte list \<Rightarrow> bsonobjbuilder result" where
  "builder_sub baseBuilder memory =
     bind_result (skip (take 4 memory) baseBuilder)
       (\<lambda>b. Inr \<lparr> bb = b, offset = length (buf baseBuilder), own = False, doneCalled = False \<rparr>)"

definition builder_append :: "(bufbuilder \<Rightarrow> bufbuilder result) \<Rightarrow> bsonobjbuilder \<Rightarrow> bsonobjbuilder result" where
  "builder_append f B = bind_result (f (bb B)) (\<lambda>b. Inr (B\<lparr>bb := b\<rparr>))"

definition builder_done :: "bsonobjbuilder \<Rightarrow> bsonobjbuilder result" where
  "builder_done B =
     (if doneCalled B then Inr B
      else bind_result (appendNum_char 0 (bb B))
        (\<lambda>b. let sz = length (buf b) - offset B;
                 d = take (offset B) (buf b) @ le_bytes 4 (of_nat sz :: u32) @ drop (offset B + 4) (buf b)
             in Inr (B\<lparr>bb := b\<lparr>buf := d\<rparr>, doneCalled := True\<rparr>)))"

definition objdata :: "bsonobjbuilder \<Rightarrow> byte list" where
  "objdata B = drop (offset B) (buf (bb B))"

definition builder_obj :: "bsonobjbuilder \<Rightarrow> byte list result" where
  "builder_obj B =
     bind_result (guardE (own B) (MsgAssertion 10335))
       (\<lambda>_. bind_result (builder_done B) (\<lambda>B. Inr (objdata B)))"

text \<open>The object so far, and the builder ready for more.\<close>

definition asTempObj :: "bsonobjbuilder \<Rightarrow> (byte list \<times> bsonobjbuilder) result" where
  "asTempObj B =
     bind_result (builder_done B)
       (\<lambda>B. Inr (objdata B, B\<lparr>bb := (bb B)\<lparr>buf := butlast (buf (bb B))\<rparr>, doneCalled := False\<rparr>))"

text \<open>The calls a client makes between construction and \<open>obj()\<close>.\<close>

datatype append_call =
    Append bson_elem
  | AppendAs bson_elem bstr
  | AppendObj bstr bson
  | AppendArray bstr bson
  | AppendBool bstr bool
  | AppendInt bstr u32
  | AppendLL bstr u64
  | AppendDouble bstr u64
  | AppendOID bstr bstr
  | AppendTimeT bstr u64
  | AppendDate bstr u64
  | AppendRegex bstr bstr bstr
  | AppendCode bstr bstr
  | AppendString bstr bstr
  | AppendSymbol bstr bstr
  | AppendNull bstr
  | AppendMinKey bstr
  | AppendMaxKey bstr
  | AppendUndefined bstr
  | AppendTimestamp bstr u64
  | AppendDBRef bstr bstr bstr
  | AppendBinData bstr byte "byte list"
  | AppendBinDataDeprecated bstr "byte list"
  | AppendCodeWScope bstr bstr bson

fun exec_call :: "append_call \<Rightarrow> bufbuilder \<Rightarrow> bufbuilder result" where
  "exec_call (Append e) = append_element e"
| "exec_call (AppendAs e n) = appendAs e n"
| "exec_call (AppendObj n b) = append_obj n b"
| "exec_call (AppendArray n b) = appendArray n b"
| "exec_call (AppendBool n x) = appendBool n x"
| "exec_call (AppendInt n i) = append_int n i"
| "exec_call (AppendLL n l) = append_ll n l"
| "exec_call (AppendDouble n d) = append_double n d"
| "exec_call (AppendOID n i) = append_OID n i"
| "exec_call (AppendTimeT n t) = appendTimeT n t"
| "exec_call (AppendDate n t) = appendDate n t"
| "exec_call (AppendRegex n r f) = appendRegex n r f"
| "exec_call (AppendCode n c) = appendCode n c"
| "exec_call (AppendString n s) = append_string n s"
| "exec_call (AppendSymbol n s) = appendSymbol n s"
| "exec_call (AppendNull n) = appendNull n"
| "exec_call (AppendMinKey n) = appendMinKey n"
| "exec_call (AppendMaxKey n) = appendMaxKey n"
| "exec_call (AppendUndefined n) = appendUndefined n"
| "exec_call (AppendTimestamp n t) = appendTimestamp n t"
| "exec_call (AppendDBRef n ns i) = appendDBRef n ns i"
| "exec_call (AppendBinData n t d) = appendBinData n t d"
| "exec_call (AppendBinDataDeprecated n d) = appendBinDataArrayDeprecated n d"
| "exec_call (AppendCodeWScope n c b) = appendCodeWScope n c b"

text \<open>The specification: the element each call stands for.\<close>

fun call_elem :: "append_call \<Rightarrow> bson_elem" where
  "call_elem (Append e) = e"
| "call_elem (AppendAs e n) = (n, snd e)"
| "call_elem (AppendObj n b) = (n, ObjectV b)"
| "call_elem (AppendArray n b) = (n, ArrayV b)"
| "call_elem (AppendBool n x) = (n, BoolV x)"
| "call_elem (AppendInt n i) = (n, IntV i)"
| "call_elem (AppendLL n l) = (n, LongV l)"
| "call_elem (AppendDouble n d) = (n, DoubleV d)"
| "call_elem (AppendOID n i) = (n, OIDV (take 12 i))"
| "call_elem (AppendTimeT n t) = (n, DateV (t * 1000))"
| "call_elem (AppendDate n t) = (n, DateV t)"
| "call_elem (AppendRegex n r f) = (n, RegExV r f)"
| "call_elem (AppendCode n c) = (n, CodeV c)"
| "call_elem (AppendString n s) = (n, StringV s)"
| "call_elem (AppendSymbol n s) = (n, SymbolV s)"
| "call_elem (AppendNull n) = (n, NullV)"
| "call_elem (AppendMinKey n) = (n, MinKeyV)"
| "call_elem (AppendMaxKey n) = (n, MaxKeyV)"
| "call_elem (AppendUndefined n) = (n, UndefinedV)"
| "call_elem (AppendTimestamp n t) = (n, TimestampV t)"
| "call_elem (AppendDBRef n ns i) = (n, DBRefV ns (take 12 i))"
| "call_elem (AppendBinData n t d) = (n, BinDataV t d)"
| "call_elem (AppendBinDataDeprecated n d) = (n, BinDataV 2 (le_bytes 4 (of_nat (length d) :: u32) @ d))"
| "call_elem (AppendCodeWScope n c b) = (n, CodeWScopeV c b)"

definition build :: "nat \<Rightarrow> byte list \<Rightarrow> append_call list \<Rightarrow> byte list result" where
  "build initsize memory calls =
     bind_result (builder_new initsize memory)
       (\<lambda>B. bind_result (builder_append (steps (map exec_call calls)) B) builder_obj)"

section \<open>Growing\<close>

text \<open>The allocation is the least of 64, 128, 256, ... that holds the bytes.\<close>

lemma grow_size_ge: "0 < a \<Longrightarrow> newLen \<le> grow_size a newLen"
  by (induction a newLen rule: grow_size.induct) (subst grow_size.simps, auto)

lemma grow_size_mono_eq:
  "0 < a \<Longrightarrow> m \<le> n \<Longrightarrow> n \<le> grow_size a m \<Longrightarrow> grow_size a n = grow_size a m"
proof (induction a m rule: grow_size.induct)
  case (1 a m)
  then show ?case
    by (cases "a < m") (simp_all add: grow_size.simps [of a])
qed

lemma grow_size_start: "0 < a \<Longrightarrow> a \<le> grow_size a n"
proof (induction a n rule: grow_size.induct)
  case (1 a n)
  then show ?case by (cases "a < n") (simp_all add: grow_size.simps [of a])
qed

lemma grow_size_mono: "0 < a \<Longrightarrow> m \<le> n \<Longrightarrow> grow_size a m \<le> grow_size a n"
proof (induction a m rule: grow_size.induct)
  case (1 a m)
  show ?case
  proof (cases "a < m")
    case True
    with 1 show ?thesis by (simp add: grow_size.simps [of a])
  next
    case False
    with grow_size_start [OF 1(2)] show ?thesis by (simp add: grow_size.simps [of a m])
  qed
qed

lemma appendBuf_append: "appendBuf (x @ y) b = bind_result (appendBuf x b) (appendBuf y)"
proof -
  let ?n = "length (buf b) + length x" and ?m = "length (buf b) + length x + length y"
  have g: "grow_size 64 ?n \<le> grow_size 64 ?m" "?n \<le> grow_size 64 ?n" "?m \<le> grow_size 64 ?m"
    by (simp_all add: grow_size_mono grow_size_ge)
  have e: "?m \<le> grow_size 64 ?n \<Longrightarrow> grow_size 64 ?m = grow_size 64 ?n"
    by (rule grow_size_mono_eq) simp_all
  show ?thesis
    using g e by (auto simp: appendBuf_def grow_def grow_reallocate_def Let_def add.assoc)
qed

section \<open>What a call writes\<close>

lemma bind_assoc: "bind_result (bind_result r f) g = bind_result r (\<lambda>x. bind_result (f x) g)"
  by (cases r) simp_all

lemma bind_Inr [simp]: "bind_result r Inr = r"
  by (cases r) simp_all

lemma steps_fuse:
  "bind_result (appendBuf x b) (steps (appendBuf y # fs)) = bind_result (appendBuf (x @ y) b) (steps fs)"
  "bind_result (appendBuf x b) (steps []) = appendBuf x b"
  by (cases "appendBuf x b"; simp add: appendBuf_append)+

lemmas num_defs = appendNum_char_def appendNum_int_def appendNum_8_def appendStr_def skip_def head_def

lemmas call_defs = append_element_def appendAs_def append_obj_def appendArray_def appendBool_def append_int_def
  append_ll_def append_double_def append_OID_def appendTimeT_def appendDate_def appendRegex_def appendCode_def
  append_string_def appendSymbol_def appendNull_def appendMinKey_def appendMaxKey_def appendUndefined_def
  appendTimestamp_def appendDBRef_def appendBinData_def appendBinDataArrayDeprecated_def appendCodeWScope_def

lemma minus_one_byte: "(- 1 :: byte) = 255"
  by simp

text \<open>Every call writes the layout of its element in one go.\<close>

lemma exec_call_writes: "exec_call c b = appendBuf (enc_elems [call_elem c]) b"
  by (cases c)
    (simp_all add: call_defs num_defs steps_fuse cstring_def sized_string_def enc_obj_def Let_def ac_simps
      minus_one_byte del: le_bytes.simps)

lemma exec_call_eq: "exec_call c = appendBuf (enc_elems [call_elem c])"
  by (rule ext) (rule exec_call_writes)

lemma enc_elems_append: "enc_elems (xs @ ys) = enc_elems xs @ enc_elems ys"
  by (induction xs) auto

lemma calls_write:
  "bind_result (appendBuf x b) (steps (map exec_call calls)) =
     appendBuf (x @ enc_elems (map call_elem calls)) b"
proof (induction calls arbitrary: x)
  case Nil
  then show ?case by (simp add: steps_fuse)
next
  case (Cons c calls)
  from Cons.IH [of "x @ enc_elems [call_elem c]"] show ?case
    using exec_call_eq [of c] enc_elems_append [of "[call_elem c]" "map call_elem calls"] by (simp add: steps_fuse del: steps.simps)
qed

lemma grow_size_limit: "grow_size 64 n \<le> BufferMaxSize \<longleftrightarrow> n \<le> BufferMaxSize"
proof
  assume "n \<le> BufferMaxSize"
  then have "grow_size 64 n \<le> grow_size 64 BufferMaxSize" by (simp add: grow_size_mono)
  also have "\<dots> = BufferMaxSize" by (simp add: BufferMaxSize_def grow_size.simps)
  finally show "grow_size 64 n \<le> BufferMaxSize" .
qed (use grow_size_ge [of 64 n] in simp)

lemma appendBuf_new:
  "appendBuf x (bufbuilder_new s) =
     (if s < length x \<and> BufferMaxSize < length x then Inl (MsgAssertion 13548)
      else Inr \<lparr> buf = x, size_of_buf = (if s < length x then grow_size 64 (length x) else s) \<rparr>)"
  using grow_size_limit [of "length x"]
  by (auto simp: appendBuf_def grow_def grow_reallocate_def bufbuilder_new_def Let_def)

text \<open>What is in the buffer before \<open>_done\<close>.\<close>

lemma build_eq:
  assumes "length memory = 4"
  shows "build initsize memory calls =
    (let d = le_bytes 4 (0 :: u32) @ memory @ enc_elems (map call_elem calls) in
     bind_result (appendBuf (d @ [0]) (bufbuilder_new (initsize + 4)))
       (\<lambda>b. Inr (enc_obj (map call_elem calls))))"
proof -
  let ?b0 = "bufbuilder_new (initsize + 4)" and ?d0 = "le_bytes 4 (0 :: u32) @ memory"
  let ?e = "enc_elems (map call_elem calls)"
  have new: "steps [appendNum_int 0, skip (take 4 memory)] ?b0 = appendBuf ?d0 ?b0"
    using assms by (simp add: num_defs steps_fuse del: le_bytes.simps)
  have all: "bind_result (appendBuf ?d0 ?b0) (steps (map exec_call calls)) = appendBuf (?d0 @ ?e) ?b0"
    by (rule calls_write)
  have eoo: "bind_result (appendBuf (?d0 @ ?e) ?b0) (appendBuf [0]) = appendBuf ((?d0 @ ?e) @ [0]) ?b0"
    by (rule appendBuf_append [symmetric])
  have buf: "appendBuf x ?b0 = Inr b \<Longrightarrow> buf b = x" for x b
    by (auto simp: appendBuf_new split: if_splits)
  show ?thesis
    using new all eoo assms buf
    by (cases "appendBuf ?d0 ?b0"; cases "appendBuf (?d0 @ ?e) ?b0"; cases "appendBuf (?d0 @ ?e @ [0]) ?b0")
      (auto simp: build_def builder_new_def builder_append_def builder_obj_def builder_done_def objdata_def
        appendNum_char_def enc_obj_def frame_def Let_def ac_simps simp del: le_bytes.simps steps.simps)
qed

section \<open>Properties\<close>

text \<open>
  C5: building an object with any sequence of appends yields exactly the byte layout of the elements
  the appends stand for, with the right size field and terminator, whatever the buffer's initial
  size and however often it grows; it raises only when the object, with its reference count, is
  larger than both the initial allocation and the 64MB limit.
\<close>

theorem builder_refines_layout:
  assumes "length memory = 4" "length (enc_obj (map call_elem calls)) + 4 \<le> 2 ^ 30"
  shows "build initsize memory calls =
    (let n = length (enc_obj (map call_elem calls)) + 4 in
     if n \<le> initsize + 4 \<or> n \<le> BufferMaxSize then Inr (enc_obj (map call_elem calls))
     else Inl (MsgAssertion 13548))"
  using build_eq [OF assms(1), of initsize calls] assms(1)
  by (auto simp: appendBuf_new enc_obj_def Let_def simp del: le_bytes.simps)

theorem builder_refines_layout_witness:
  "build 0 [7, 7, 7, 7] [AppendInt (str ''a'') 1, AppendNull (str ''b'')] =
     Inr [15, 0, 0, 0, 16, 97, 0, 1, 0, 0, 0, 10, 98, 0, 0]"
proof -
  have "enc_obj (map call_elem [AppendInt (str ''a'') 1, AppendNull (str ''b'')]) =
      [15, 0, 0, 0, 16, 97, 0, 1, 0, 0, 0, 10, 98, 0, 0]"
    by code_simp
  with builder_refines_layout [of "[7, 7, 7, 7]" "[AppendInt (str ''a'') 1, AppendNull (str ''b'')]" 0]
  show ?thesis by (simp add: BufferMaxSize_def)
qed

lemma sint_of_int_64: "- (2 ^ 63) \<le> i \<Longrightarrow> i < 2 ^ 63 \<Longrightarrow> sint (of_int i :: u64) = i"
  by (simp add: signed_of_int signed_take_bit_int_eq_self)

lemma sint_of_int_32: "- (2 ^ 31) \<le> i \<Longrightarrow> i < 2 ^ 31 \<Longrightarrow> sint (of_int i :: u32) = i"
  by (simp add: signed_of_int signed_take_bit_int_eq_self)

lemma sint_minus:
  assumes "n \<noteq> (2 ^ 63 :: u64)"
  shows "sint (- n) = - sint n"
proof -
  have "sint n \<noteq> - (2 ^ 63)"
  proof
    assume "sint n = - (2 ^ 63)"
    then have "(of_int (sint n) :: u64) = of_int (- (2 ^ 63))" by simp
    then show False using assms by simp
  qed
  moreover have "- (2 ^ 63) \<le> sint n" "sint n < 2 ^ 63"
    using sint_greater_eq [of n] sint_less [of n] by simp_all
  ultimately have "- (2 ^ 63) \<le> - sint n" "- sint n < 2 ^ 63" by linarith+
  from sint_of_int_64 [OF this] show ?thesis by simp
qed

lemma ucast_32_sint: "(ucast (n :: u64) :: u32) = of_int (sint n)"
  by transfer (auto intro!: bit_eqI simp: bit_simps)

lemma scast_ucast_32:
  assumes "\<bar>sint (n :: u64)\<bar> < 2 ^ 31"
  shows "scast (ucast n :: u32) = n"
proof -
  have "sint (ucast n :: u32) = sint n"
    unfolding ucast_32_sint using assms by (intro sint_of_int_32) linarith+
  then have "(of_int (sint (ucast n :: u32)) :: u64) = of_int (sint n)" by (rule arg_cong)
  then show ?thesis by (simp only: scast_eq [symmetric] scast_id)
qed

text \<open>The value the two numeric appends store.\<close>

lemma appendIntOrLL_value:
  assumes "n \<noteq> 2 ^ 63"
  shows "\<exists>v. appendIntOrLL f n = appendBuf (enc_elems [(f, v)]) \<and> numberLong v = Some n"
proof -
  let ?x = "if sint n < 0 then n * (- 1) else n"
  have x: "sint ?x = \<bar>sint n\<bar>" using sint_minus [OF assms] by simp
  show ?thesis
  proof (cases "sint ?x < (2 ^ 31 - 1) div 2")
    case True
    then have "scast (ucast n :: u32) = n" unfolding x by (intro scast_ucast_32) simp
    with True show ?thesis
      using exec_call_writes [of "AppendInt f (ucast n)"]
      by (intro exI [of _ "IntV (ucast n)"]) (auto simp: appendIntOrLL_def Let_def fun_eq_iff)
  next
    case False
    then show ?thesis
      using exec_call_writes [of "AppendLL f n"]
      by (intro exI [of _ "LongV n"]) (auto simp: appendIntOrLL_def Let_def fun_eq_iff)
  qed
qed

lemma appendNumber_ll_value:
  assumes "n \<noteq> 2 ^ 63"
  shows "\<exists>v. appendNumber_ll f n = appendBuf (enc_elems [(f, v)]) \<and> numberLong v = Some n"
proof -
  let ?x = "if 0 \<le> sint n then n else - n"
  have x: "sint ?x = \<bar>sint n\<bar>" using sint_minus [OF assms] by simp
  consider "sint ?x < 2 ^ 30" | "\<not> sint ?x < 2 ^ 30" "sint ?x < 2 ^ 40" | "\<not> sint ?x < 2 ^ 30" "\<not> sint ?x < 2 ^ 40"
    by blast
  then show ?thesis
  proof cases
    case 1
    then have "scast (ucast n :: u32) = n" unfolding x by (intro scast_ucast_32) simp
    with 1 show ?thesis
      using exec_call_writes [of "AppendInt f (ucast n)"]
      by (intro exI [of _ "IntV (ucast n)"]) (auto simp: appendNumber_ll_def Let_def fun_eq_iff)
  next
    case 2
    then have "\<bar>sint n\<bar> < 2 ^ 40" unfolding x by simp
    then have "dbl_of_bits (dbl_bits_of_int (sint n)) = Fin (sint n * dbl_scale)"
      by (intro dbl_of_bits_of_int) simp
    then have "numberLong (DoubleV (dbl_bits_of_int (sint n))) = Some n"
      using sint_greater_eq [of n] sint_less [of n] by (simp add: cast_dbl_long_def)
    with 2 show ?thesis
      using exec_call_writes [of "AppendDouble f (dbl_bits_of_int (sint n))"]
      by (intro exI [of _ "DoubleV (dbl_bits_of_int (sint n))"]) (auto simp: appendNumber_ll_def Let_def fun_eq_iff)
  next
    case 3
    then show ?thesis
      using exec_call_writes [of "AppendLL f n"]
      by (intro exI [of _ "LongV n"]) (auto simp: appendNumber_ll_def Let_def fun_eq_iff)
  qed
qed

section \<open>Numeric appends\<close>

text \<open>
  C27: the appends that choose the smallest sensible type for a 64-bit integer, \<open>appendIntOrLL\<close> and
  \<open>appendNumber\<close>, store an element that reads back as the same integer, for every integer but the
  least one.
\<close>

theorem numeric_appends_preserve:
  assumes "n \<noteq> 2 ^ 63"
  shows "\<exists>v w. appendNumber_ll f n = appendBuf (enc_elems [(f, v)]) \<and> numberLong v = Some n \<and>
    appendIntOrLL f n = appendBuf (enc_elems [(f, w)]) \<and> numberLong w = Some n"
  using appendNumber_ll_value [OF assms] appendIntOrLL_value [OF assms] by blast

theorem numeric_appends_preserve_witness:
  "\<exists>v w. appendNumber_ll (str ''n'') 5000000000 = appendBuf (enc_elems [(str ''n'', v)]) \<and>
     numberLong v = Some 5000000000 \<and>
     appendIntOrLL (str ''n'') 5000000000 = appendBuf (enc_elems [(str ''n'', w)]) \<and> numberLong w = Some 5000000000"
  by (rule numeric_appends_preserve) simp

text \<open>The least integer is stored as the \<open>int\<close> 0.\<close>

lemma numeric_appends_least:
  "appendNumber_ll f (2 ^ 63) = append_int f 0" "appendIntOrLL f (2 ^ 63) = append_int f 0"
  using arg_cong [of "9223372036854775808 :: u32" 0 "append_int f"]
  by (simp_all add: appendNumber_ll_def appendIntOrLL_def)

end
