(* ===== verification/BsonObj.thy ===== *)
theory BsonObj
  imports BsonCompare BsonBuilder
begin

text \<open>
  Reading and building objects: the accessors of \<open>BSONObj\<close> (\<open>bson/bson-inl.h\<close>, \<open>db/jsobj.cpp\<close>),
  objects made from other objects, and the bounds of a type that index scans start and stop at.  A
  \<open>BSONElement\<close> that may be \<open>EOO\<close> is an option; a builder that is only appended to and then read is
  the list of its elements.
\<close>

section \<open>Fields\<close>

fun getField :: "bson \<Rightarrow> bstr \<Rightarrow> bson_elem option" where
  "getField [] name = None"
| "getField ((n, v) # es) name = (if n = name then Some (n, v) else getField es name)"

definition hasField :: "bson \<Rightarrow> bstr \<Rightarrow> bool" where
  "hasField b name \<longleftrightarrow> getField b name \<noteq> None"

text \<open>\<open>(int) e.number()\<close>; \<open>INT_MIN\<close> where the field is no number, undefined outside the range.\<close>

definition getIntField :: "bson \<Rightarrow> bstr \<Rightarrow> u32 option" where
  "getIntField b name =
     (case getField b name of
        Some (_, v) \<Rightarrow> if isNumber v then cast_dbl_int (numberDouble v) else Some (2 ^ 31)
      | None \<Rightarrow> Some (2 ^ 31))"

definition getBoolField :: "bson \<Rightarrow> bstr \<Rightarrow> bool" where
  "getBoolField b name = (case getField b name of Some (_, BoolV x) \<Rightarrow> x | _ \<Rightarrow> False)"

text \<open>The result is a \<open>char *\<close>: it ends at the first NUL.\<close>

definition getStringField :: "bson \<Rightarrow> bstr \<Rightarrow> bstr" where
  "getStringField b name = (case getField b name of Some (_, StringV s) \<Rightarrow> cstr s | _ \<Rightarrow> [])"

definition getObjectID :: "bson \<Rightarrow> bson_elem option" where
  "getObjectID b = getField b (str ''_id'')"

definition getObjectField :: "bson \<Rightarrow> bstr \<Rightarrow> bson" where
  "getObjectField b name =
     (case getField b name of
        Some (_, ObjectV x) \<Rightarrow> x
      | Some (_, ArrayV x) \<Rightarrow> x
      | _ \<Rightarrow> [])"

definition nFields :: "bson \<Rightarrow> int" where
  "nFields b = int (length b)"

text \<open>The parts of a name before and after its first dot.\<close>

definition dot_split :: "bstr \<Rightarrow> (bstr \<times> bstr) option" where
  "dot_split name =
     (if 46 \<in> set name
      then Some (takeWhile (\<lambda>c. c \<noteq> 46) name, tl (dropWhile (\<lambda>c. c \<noteq> 46) name)) else None)"

lemma dot_split_length: "dot_split name = Some (l, r) \<Longrightarrow> length r < length name"
proof -
  assume s: "dot_split name = Some (l, r)"
  let ?d = "dropWhile (\<lambda>c. c \<noteq> 46) name"
  have "46 \<in> set name" and r: "r = tl ?d"
    using s by (simp_all add: dot_split_def split: if_splits)
  then have "?d \<noteq> []" by (simp add: dropWhile_eq_Nil_conv)
  then have "length (tl ?d) < length ?d" by (cases ?d) simp_all
  also have "length ?d \<le> length name" by (rule length_dropWhile_le)
  finally show ?thesis by (simp only: r)
qed

function getFieldDotted :: "bson \<Rightarrow> bstr \<Rightarrow> bson_elem option" where
  "getFieldDotted b name =
     (case getField b name of
        Some e \<Rightarrow> Some e
      | None \<Rightarrow>
          (case dot_split name of
             None \<Rightarrow> None
           | Some (left, right) \<Rightarrow>
               let sub = getObjectField b left in if sub = [] then None else getFieldDotted sub right))"
  by pat_completeness auto
termination
  by (relation "measure (\<lambda>(b, name). length name)") (auto dest: dot_split_length)

text \<open>The element and the rest of the name, which the C++ function leaves in its argument.\<close>

function getFieldDottedOrArray :: "bson \<Rightarrow> bstr \<Rightarrow> bson_elem option \<times> bstr" where
  "getFieldDottedOrArray b name =
     (let (sub, rest) =
        (case dot_split name of
           Some (left, right) \<Rightarrow> (getField b left, right)
         | None \<Rightarrow> (getField b name, []))
      in case sub of
           None \<Rightarrow> (None, rest)
         | Some (n, v) \<Rightarrow>
             if bson_type v = 4 \<or> rest = [] then (Some (n, v), rest)
             else (case v of ObjectV o' \<Rightarrow> getFieldDottedOrArray o' rest | _ \<Rightarrow> (None, rest)))"
  by pat_completeness auto
termination
  by (relation "measure (\<lambda>(b, name). length name)") (auto dest: dot_split_length split: option.splits)

definition isdigit :: "byte \<Rightarrow> bool" where
  "isdigit c \<longleftrightarrow> 48 \<le> c \<and> c \<le> 57"

definition allDigits :: "bstr \<Rightarrow> bool" where
  "allDigits next =
     (next \<noteq> [] \<and> isdigit (hd next) \<and>
      (let r = dropWhile isdigit next in r = [] \<or> hd r = 46))"

text \<open>\<open>_getFieldsDotted\<close>: the elements it inserts into the result set, in the order it inserts them.\<close>

function getFieldsDotted :: "bson \<Rightarrow> bstr \<Rightarrow> bool \<Rightarrow> bson_elem list" where
  "getFieldsDotted b name expandLastArray =
     (case getField b name of
        Some (n, v) \<Rightarrow>
          (case v of ArrayV a \<Rightarrow> if expandLastArray then a else [(n, v)] | _ \<Rightarrow> [(n, v)])
      | None \<Rightarrow>
          (case dot_split name of
             None \<Rightarrow> []
           | Some (left, next) \<Rightarrow>
               (case getField b left of
                  Some (_, ObjectV o') \<Rightarrow> getFieldsDotted o' next expandLastArray
                | Some (_, ArrayV a) \<Rightarrow>
                    if allDigits next then getFieldsDotted a next expandLastArray
                    else concat (map (\<lambda>(_, v).
                      if bson_type v = 3 \<or> bson_type v = 4
                      then getFieldsDotted (embeddedObject v) next expandLastArray else []) a)
                | _ \<Rightarrow> [])))"
  by pat_completeness auto
termination
  by (relation "measure (\<lambda>(b, name, x). length name)") (auto dest: dot_split_length)

declare getFieldDotted.simps [simp del] getFieldDottedOrArray.simps [simp del] getFieldsDotted.simps [simp del]

section \<open>Objects from objects\<close>

definition removeField :: "bson \<Rightarrow> bstr \<Rightarrow> bson" where
  "removeField b name = filter (\<lambda>e. fst e \<noteq> name) b"

definition extractFieldsUnDotted :: "bson \<Rightarrow> bson \<Rightarrow> bson" where
  "extractFieldsUnDotted b pattern =
     concat (map (\<lambda>e. case getField b (fst e) of Some (_, v) \<Rightarrow> [([], v)] | None \<Rightarrow> []) pattern)"

definition extractFields :: "bson \<Rightarrow> bson \<Rightarrow> bool \<Rightarrow> bson" where
  "extractFields b pattern fillWithNull =
     concat (map (\<lambda>e. case getFieldDotted b (fst e) of
         Some (_, v) \<Rightarrow> [(fst e, v)]
       | None \<Rightarrow> if fillWithNull then [(fst e, NullV)] else []) pattern)"

definition filterFieldsUndotted :: "bson \<Rightarrow> bson \<Rightarrow> bool \<Rightarrow> bson" where
  "filterFieldsUndotted b flt inFilter =
     filter (\<lambda>e. let x = getField flt (fst e) in (x = None \<and> \<not> inFilter) \<or> (x \<noteq> None \<and> inFilter)) b"

fun getFieldUsingIndexNames :: "bson \<Rightarrow> bstr \<Rightarrow> bson \<Rightarrow> bson_elem option" where
  "getFieldUsingIndexNames b name [] = None"
| "getFieldUsingIndexNames b name ((n, _) # k) =
     (if n = name then (case b of [] \<Rightarrow> None | g # _ \<Rightarrow> Some g)
      else getFieldUsingIndexNames (tl b) name k)"

definition getFieldNames :: "bson \<Rightarrow> bstr set \<Rightarrow> int \<times> bstr set" where
  "getFieldNames b flds = (int (length b), flds \<union> fst ` set b)"

definition cloneBSONWithFieldChanged :: "bson \<Rightarrow> bson_elem \<Rightarrow> bool \<Rightarrow> bson" where
  "cloneBSONWithFieldChanged orig newElement appendIfMissing =
     (let replaced = (\<exists>e \<in> set orig. fst e = fst newElement)
      in map (\<lambda>e. if fst e = fst newElement then newElement else e) orig @
         (if \<not> replaced \<and> appendIfMissing then [newElement] else []))"

definition appendElementsUnique :: "bson \<Rightarrow> bson \<Rightarrow> bson" where
  "appendElementsUnique b x = b @ filter (\<lambda>e. fst e \<notin> fst ` set b) x"

fun replaceFieldNames :: "bson \<Rightarrow> bson \<Rightarrow> bson" where
  "replaceFieldNames [] names = []"
| "replaceFieldNames (e # es) [] = e # replaceFieldNames es []"
| "replaceFieldNames (e # es) (f # fs) = (fst f, snd e) # replaceFieldNames es fs"

definition clientReadable :: "bson \<Rightarrow> bson" where
  "clientReadable b =
     map (\<lambda>(n, v). case v of
         MinKeyV \<Rightarrow> (n, ObjectV [(str ''$minElement'', IntV 1)])
       | MaxKeyV \<Rightarrow> (n, ObjectV [(str ''$maxElement'', IntV 1)])
       | _ \<Rightarrow> (n, v)) b"

fun isPrefixOf :: "bson \<Rightarrow> bson \<Rightarrow> bool" where
  "isPrefixOf [] bs = True"
| "isPrefixOf (a # as) [] = False"
| "isPrefixOf (a # as) (b # bs) = (if elem_woCompare a b True \<noteq> 0 then False else isPrefixOf as bs)"

fun isFieldNamePrefixOf :: "bson \<Rightarrow> bson \<Rightarrow> bool" where
  "isFieldNamePrefixOf [] bs = True"
| "isFieldNamePrefixOf (a # as) [] = False"
| "isFieldNamePrefixOf (a # as) (b # bs) = (if fst a \<noteq> fst b then False else isFieldNamePrefixOf as bs)"

fun fieldsMatch :: "bson \<Rightarrow> bson \<Rightarrow> bool" where
  "fieldsMatch [] rs = (rs = [])"
| "fieldsMatch (l # ls) [] = False"
| "fieldsMatch (l # ls) (r # rs) = (if strcmp (fst l) (fst r) \<noteq> 0 then False else fieldsMatch ls rs)"

text \<open>\<open>nested2dotted\<close>: \<open>{a: {b: 1}}\<close> to \<open>{a.b: 1}\<close>; what it appends to the builder.\<close>

function nested2dotted :: "bstr \<Rightarrow> bson \<Rightarrow> bson" where
  "nested2dotted base [] = []"
| "nested2dotted base ((n, v) # es) =
     (case v of
        ObjectV o' \<Rightarrow> nested2dotted (base @ n @ [46]) o'
      | _ \<Rightarrow> [(base @ n, v)]) @ nested2dotted base es"
  by pat_completeness auto
termination
  by (relation "measure (\<lambda>(_, es). size_list (size_prod (\<lambda>_. 0) size) es)") auto

text \<open>\<open>okForStorage\<close>: no dots or dollars in field names, apart from the first \<open>$ref\<close> or \<open>$id\<close>.\<close>

function okForStorage :: "bson \<Rightarrow> bool" where
  "okForStorage [] = True"
| "okForStorage ((name, v) # es) =
     (if 46 \<in> set name \<or> 36 \<in> set name
      then strcmp name (str ''$ref'') = 0 \<or> strcmp name (str ''$id'') = 0
      else if name = str ''_id'' \<and> bson_type v = 11 then False
      else (case v of
              ObjectV o' \<Rightarrow> if okForStorage o' then okForStorage es else False
            | ArrayV o' \<Rightarrow> if okForStorage o' then okForStorage es else False
            | CodeWScopeV _ o' \<Rightarrow> if okForStorage o' then okForStorage es else False
            | _ \<Rightarrow> okForStorage es))"
  by pat_completeness auto
termination
  by (relation "measure (\<lambda>es. size_list (size_prod (\<lambda>_. 0) size) es)") auto

definition getFields :: "bson \<Rightarrow> bstr list \<Rightarrow> bson_elem option list \<Rightarrow> bson_elem option list" where
  "getFields b fieldNames flds =
     foldl (\<lambda>fs e. case List.find (\<lambda>i. strcmp (fst e) (fieldNames ! i) = 0) [0..<length fieldNames] of
         Some i \<Rightarrow> fs[i := Some e]
       | None \<Rightarrow> fs) flds b"

text \<open>Sorting by a key pattern; a missing field counts as null.\<close>

fun woSortOrder_loop :: "bool \<Rightarrow> bson \<Rightarrow> bson \<Rightarrow> bson \<Rightarrow> int" where
  "woSortOrder_loop useDotted this other [] = 0"
| "woSortOrder_loop useDotted this other ((n, f) # k) =
     (let get = (\<lambda>b. case (if useDotted then getFieldDotted b n else getField b n) of
                       Some e \<Rightarrow> e
                     | None \<Rightarrow> ([], NullV));
          x = elem_woCompare (get this) (get other) False;
          x = (if dbl_lt (numberDouble f) (Fin 0) then - x else x)
      in if x \<noteq> 0 then x else woSortOrder_loop useDotted this other k)"

definition woSortOrder :: "bson \<Rightarrow> bson \<Rightarrow> bson \<Rightarrow> bool \<Rightarrow> int result" where
  "woSortOrder this other sortKey useDotted =
     (if this = [] then Inr (if other = [] then 0 else -1)
      else if other = [] then Inr 1
      else if sortKey = [] then Inl (UserAssertion 10060)
      else Inr (woSortOrder_loop useDotted this other sortKey))"

text \<open>
  \<open>addFields\<close>: the elements appended, the number found, and whether \<open>_id\<close> was.  The loop also
  visits the terminating \<open>EOO\<close>, whose name is empty and which \<open>append\<close> refuses.
\<close>

fun addFields_loop :: "bstr set \<Rightarrow> nat \<Rightarrow> bool \<Rightarrow> bson \<Rightarrow> bson \<Rightarrow> (bson \<times> nat) result" where
  "addFields_loop flds n gotId b [] =
     (if [] \<in> flds then Inl VerifyFailed else Inr (b, n))"
| "addFields_loop flds n gotId b ((fname, v) # es) =
     (let isId = (strcmp fname (str ''_id'') = 0)
      in if fname \<in> flds
         then (if n + 1 = card flds \<and> (gotId \<or> isId) then Inr (b @ [(fname, v)], n + 1)
               else addFields_loop flds (n + 1) (gotId \<or> isId) (b @ [(fname, v)]) es)
         else if isId
         then (if n = card flds then Inr (b @ [(fname, v)], n)
               else addFields_loop flds n True (b @ [(fname, v)]) es)
         else addFields_loop flds n gotId b es)"

text \<open>The number of fields found and the object afterwards.\<close>

definition addFields :: "bson \<Rightarrow> bool \<Rightarrow> bson \<Rightarrow> bstr set \<Rightarrow> (nat \<times> bson) result" where
  "addFields this isOwned from flds =
     bind_result (guardE (this = [] \<and> \<not> isOwned) VerifyFailed)
       (\<lambda>_. bind_result (addFields_loop flds 0 False [] from)
         (\<lambda>(b, n). Inr (n, if n \<noteq> 0 then b else this)))"

text \<open>Decimal digits of a number.\<close>

fun digits :: "nat \<Rightarrow> bstr" where
  "digits n = (if n < 10 then [of_nat (48 + n)] else digits (n div 10) @ [of_nat (48 + n mod 10)])"

declare digits.simps [simp del]

fun couldBeArray_from :: "nat \<Rightarrow> bson \<Rightarrow> bool" where
  "couldBeArray_from index [] = True"
| "couldBeArray_from index (e # es) =
     (if strcmp (fst e) (digits index) \<noteq> 0 then False else couldBeArray_from (index + 1) es)"

definition couldBeArray :: "bson \<Rightarrow> bool" where
  "couldBeArray b = couldBeArray_from 0 b"

fun appendKeys :: "bson \<Rightarrow> bson \<Rightarrow> bufbuilder \<Rightarrow> bufbuilder result" where
  "appendKeys [] [] b = Inr b"
| "appendKeys (k # ks) (v # vs) b = bind_result (appendAs v (fst k) b) (appendKeys ks vs)"
| "appendKeys _ _ b = Inl VerifyFailed"

section \<open>Coercions\<close>

text \<open>
  \<open>coerce\<close>: \<open>Some (Some x)\<close> stores \<open>x\<close> and returns true, \<open>Some None\<close> returns false, \<open>None\<close> is a
  cast the standard leaves undefined.
\<close>

fun coerce_string :: "bson_value \<Rightarrow> bstr option option" where
  "coerce_string (StringV s) = Some (Some (cstr s))"
| "coerce_string _ = Some None"

definition coerce_int :: "bson_value \<Rightarrow> u32 option option" where
  "coerce_int v = (if \<not> isNumber v then Some None else map_option Some (numberInt v))"

definition coerce_unsigned :: "bson_value \<Rightarrow> u32 option option" where
  "coerce_unsigned v =
     (if \<not> isNumber v then Some None
      else map_option (\<lambda>x. if sint x < 0 then None else Some x) (numberInt v))"

definition coerce_unsigned_long :: "bson_value \<Rightarrow> u64 option option" where
  "coerce_unsigned_long v =
     (if \<not> isNumber v then Some None
      else map_option (\<lambda>x. if sint x < 0 then None else Some (scast x)) (numberInt v))"

definition coerce_ll :: "bson_value \<Rightarrow> u64 option option" where
  "coerce_ll v = (if \<not> isNumber v then Some None else map_option Some (numberLong v))"

definition coerce_ull :: "bson_value \<Rightarrow> u64 option option" where
  "coerce_ull v =
     (if \<not> isNumber v then Some None
      else map_option (\<lambda>x. if sint x < 0 then None else Some x) (numberLong v))"

definition coerce_double :: "bson_value \<Rightarrow> dbl option option" where
  "coerce_double v = (if \<not> isNumber v then Some None else Some (Some (numberDouble v)))"

definition coerce_bool :: "bson_value \<Rightarrow> bool option option" where
  "coerce_bool v = Some (Some (trueValue v))"

fun coerceVector :: "(bson_value \<Rightarrow> 'a option option) \<Rightarrow> bson \<Rightarrow> 'a list option option" where
  "coerceVector coerce [] = Some (Some [])"
| "coerceVector coerce ((_, v) # es) =
     (case coerce v of
        None \<Rightarrow> None
      | Some None \<Rightarrow> Some None
      | Some (Some t) \<Rightarrow> map_option (map_option ((#) t)) (coerceVector coerce es))"

fun coerce_strings :: "bson_value \<Rightarrow> bstr list option option" where
  "coerce_strings (ArrayV b) = coerceVector coerce_string b"
| "coerce_strings _ = Some None"

section \<open>The bounds of a type\<close>

text \<open>The patterns of the least and greatest finite double.\<close>

definition dbl_max_bits :: u64 where
  "dbl_max_bits = 0x7FEFFFFFFFFFFFFF"

definition dbl_min_bits :: u64 where
  "dbl_min_bits = 0xFFEFFFFFFFFFFFFF"

definition appendMinForType :: "bstr \<Rightarrow> int \<Rightarrow> bufbuilder \<Rightarrow> bufbuilder result" where
  "appendMinForType fieldName t =
     (if t = 16 \<or> t = 1 \<or> t = 18 then append_double fieldName dbl_min_bits
      else if t = 14 \<or> t = 2 then append_string fieldName []
      else if t = 9 then appendBool fieldName True
      else if t = 17 then appendTimestamp fieldName 0
      else if t = 6 then appendUndefined fieldName
      else if t = -1 then appendMinKey fieldName
      else if t = 127 then appendMaxKey fieldName
      else if t = 7 then append_OID fieldName (replicate 12 0)
      else if t = 8 then appendBool fieldName False
      else if t = 10 then appendNull fieldName
      else if t = 3 then append_obj fieldName []
      else if t = 4 then appendArray fieldName []
      else if t = 5 then appendBinData fieldName 0 []
      else if t = 11 then appendRegex fieldName [] []
      else if t = 12 then appendDBRef fieldName [] (replicate 12 0)
      else if t = 13 then appendCode fieldName []
      else if t = 15 then appendCodeWScope fieldName [] []
      else (\<lambda>b. Inl (UserAssertion 10061)))"

definition appendMaxForType :: "bstr \<Rightarrow> int \<Rightarrow> bufbuilder \<Rightarrow> bufbuilder result" where
  "appendMaxForType fieldName t =
     (if t = 16 \<or> t = 1 \<or> t = 18 then append_double fieldName dbl_max_bits
      else if t = 14 \<or> t = 2 then appendMinForType fieldName 3
      else if t = 9 then appendDate fieldName (2 ^ 63 - 1)
      else if t = 17 then appendTimestamp fieldName (2 ^ 64 - 1)
      else if t = 6 then appendUndefined fieldName
      else if t = -1 then appendMinKey fieldName
      else if t = 127 then appendMaxKey fieldName
      else if t = 7 then append_OID fieldName (replicate 12 0xFF)
      else if t = 8 then appendBool fieldName True
      else if t = 10 then appendNull fieldName
      else if t = 3 then appendMinForType fieldName 4
      else if t = 4 then appendMinForType fieldName 5
      else if t = 5 then appendMinForType fieldName 7
      else if t = 11 then appendMinForType fieldName 12
      else if t = 12 then appendMinForType fieldName 13
      else if t = 13 then appendMinForType fieldName 15
      else if t = 15 then appendMinForType fieldName 127
      else (\<lambda>b. Inl (UserAssertion 14853)))"

definition typeName :: "int \<Rightarrow> string" where
  "typeName t =
     (if t = -1 then ''MinKey'' else if t = 0 then ''EOO'' else if t = 1 then ''NumberDouble''
      else if t = 2 then ''String'' else if t = 3 then ''Object'' else if t = 4 then ''Array''
      else if t = 5 then ''BinaryData'' else if t = 6 then ''Undefined'' else if t = 7 then ''OID''
      else if t = 8 then ''Bool'' else if t = 9 then ''Date'' else if t = 10 then ''NULL''
      else if t = 11 then ''RegEx'' else if t = 12 then ''DBRef'' else if t = 13 then ''Code''
      else if t = 14 then ''Symbol'' else if t = 15 then ''CodeWScope'' else if t = 16 then ''NumberInt32''
      else if t = 17 then ''Timestamp'' else if t = 18 then ''NumberLong64'' else if t = 127 then ''MaxKey''
      else ''Invalid'')"

text \<open>The values the two append, for the type of an element.\<close>

fun min_value :: "bson_value \<Rightarrow> bson_value" where
  "min_value (OIDV _) = OIDV (replicate 12 0)"
| "min_value (BoolV _) = BoolV False"
| "min_value (ObjectV _) = ObjectV []"
| "min_value (ArrayV _) = ArrayV []"
| "min_value (BinDataV _ _) = BinDataV 0 []"
| "min_value (RegExV _ _) = RegExV [] []"
| "min_value (DBRefV _ _) = DBRefV [] (replicate 12 0)"
| "min_value (CodeV _) = CodeV []"
| "min_value (CodeWScopeV _ _) = CodeWScopeV [] []"
| "min_value (DateV _) = BoolV True"
| "min_value (TimestampV _) = TimestampV 0"
| "min_value (StringV _) = StringV []"
| "min_value (SymbolV _) = StringV []"
| "min_value v = (if isNumber v then DoubleV dbl_min_bits else v)"

fun max_value :: "bson_value \<Rightarrow> bson_value" where
  "max_value (OIDV _) = OIDV (replicate 12 0xFF)"
| "max_value (BoolV _) = BoolV True"
| "max_value (ObjectV _) = ArrayV []"
| "max_value (ArrayV _) = BinDataV 0 []"
| "max_value (BinDataV _ _) = OIDV (replicate 12 0)"
| "max_value (RegExV _ _) = DBRefV [] (replicate 12 0)"
| "max_value (DBRefV _ _) = CodeV []"
| "max_value (CodeV _) = CodeWScopeV [] []"
| "max_value (CodeWScopeV _ _) = MaxKeyV"
| "max_value (DateV _) = DateV (2 ^ 63 - 1)"
| "max_value (TimestampV _) = TimestampV (2 ^ 64 - 1)"
| "max_value (StringV _) = ObjectV []"
| "max_value (SymbolV _) = ObjectV []"
| "max_value v = (if isNumber v then DoubleV dbl_max_bits else v)"

lemmas call_writes =
  exec_call_eq [of "AppendDouble n d" for n d, unfolded exec_call.simps call_elem.simps]
  exec_call_eq [of "AppendString n s" for n s, unfolded exec_call.simps call_elem.simps]
  exec_call_eq [of "AppendBool n x" for n x, unfolded exec_call.simps call_elem.simps]
  exec_call_eq [of "AppendTimestamp n t" for n t, unfolded exec_call.simps call_elem.simps]
  exec_call_eq [of "AppendDate n t" for n t, unfolded exec_call.simps call_elem.simps]
  exec_call_eq [of "AppendUndefined n" for n, unfolded exec_call.simps call_elem.simps]
  exec_call_eq [of "AppendMinKey n" for n, unfolded exec_call.simps call_elem.simps]
  exec_call_eq [of "AppendMaxKey n" for n, unfolded exec_call.simps call_elem.simps]
  exec_call_eq [of "AppendNull n" for n, unfolded exec_call.simps call_elem.simps]
  exec_call_eq [of "AppendOID n i" for n i, unfolded exec_call.simps call_elem.simps]
  exec_call_eq [of "AppendObj n b" for n b, unfolded exec_call.simps call_elem.simps]
  exec_call_eq [of "AppendArray n b" for n b, unfolded exec_call.simps call_elem.simps]
  exec_call_eq [of "AppendBinData n t d" for n t d, unfolded exec_call.simps call_elem.simps]
  exec_call_eq [of "AppendRegex n r f" for n r f, unfolded exec_call.simps call_elem.simps]
  exec_call_eq [of "AppendDBRef n s i" for n s i, unfolded exec_call.simps call_elem.simps]
  exec_call_eq [of "AppendCode n s" for n s, unfolded exec_call.simps call_elem.simps]
  exec_call_eq [of "AppendCodeWScope n s b" for n s b, unfolded exec_call.simps call_elem.simps]

lemma appendForType_writes:
  "appendMinForType f (bson_type v) = appendBuf (enc_elems [(f, min_value v)])"
  "appendMaxForType f (bson_type v) = appendBuf (enc_elems [(f, max_value v)])"
  by (cases v; simp add: appendMinForType_def appendMaxForType_def call_writes del: enc_elems.simps)+

section \<open>Within the bounds\<close>

definition dbl_max :: int where
  "dbl_max = (2 ^ 53 - 1) * 2 ^ 2045"

lemma dbl_of_max_bits: "dbl_of_bits dbl_max_bits = Fin dbl_max" "dbl_of_bits dbl_min_bits = Fin (- dbl_max)"
proof -
  have "dbl_max_bits = of_nat (0 * 2 ^ 63 + 2046 * 2 ^ 52 + (2 ^ 52 - 1))"
    "dbl_min_bits = of_nat (1 * 2 ^ 63 + 2046 * 2 ^ 52 + (2 ^ 52 - 1))"
    by (simp_all add: dbl_max_bits_def dbl_min_bits_def)
  then show "dbl_of_bits dbl_max_bits = Fin dbl_max" "dbl_of_bits dbl_min_bits = Fin (- dbl_max)"
    using dbl_of_fields [of 0 2046 "2 ^ 52 - 1"] dbl_of_fields [of 1 2046 "2 ^ 52 - 1"]
    by (simp_all add: dbl_max_def Let_def)
qed

lemma dbl_finite_bound:
  assumes "dbl_of_bits w = Fin x"
  shows "\<bar>x\<bar> \<le> dbl_max"
proof -
  define e where "e = unat w div 2 ^ 52 mod 2 ^ 11"
  define m where "m = unat w mod 2 ^ 52"
  have e: "e < 2 ^ 11" and m: "m < 2 ^ 52" by (simp_all add: e_def m_def)
  have x: "e \<noteq> 2047 \<and> \<bar>x\<bar> = (if e = 0 then int m else int (2 ^ 52 + m) * 2 ^ (e - 1))"
    using assms unfolding dbl_of_bits_def Let_def e_def [symmetric] m_def [symmetric]
    by (auto split: if_splits simp: abs_mult)
  have m': "int m \<le> 2 ^ 53 - 1" "int (2 ^ 52 + m) \<le> 2 ^ 53 - 1" using m by simp_all
  have "\<bar>x\<bar> \<le> (2 ^ 53 - 1) * 2 ^ (e - 1)"
    using x m' by (cases "e = 0") (simp_all add: mult_right_mono)
  moreover have "e - 1 \<le> 2045" using conjunct1 [OF x] e by simp
  then have "(2 ^ 53 - 1) * (2 :: int) ^ (e - 1) \<le> (2 ^ 53 - 1) * 2 ^ 2045"
    by (intro mult_left_mono power_increasing) simp_all
  ultimately show ?thesis unfolding dbl_max_def by (rule order_trans)
qed

lemma round53_bound: "\<bar>round53 i\<bar> \<le> 2 * \<bar>i\<bar>"
proof -
  define k where "k = nat (bitlen \<bar>i\<bar>) - 53"
  define q where "q = \<bar>i\<bar> div 2 ^ k"
  show ?thesis
  proof (cases "k = 0")
    case True
    then show ?thesis by (auto simp: round53_def Let_def k_def [symmetric] abs_mult sgn_if)
  next
    case False
    have q: "q * 2 ^ k \<le> \<bar>i\<bar>" "0 \<le> q" unfolding q_def
      by (simp_all add: minus_mod_eq_div_mult [symmetric] pos_imp_zdiv_nonneg_iff)
    have "i \<noteq> 0" using False by (auto simp: k_def)
    then have "0 < bitlen \<bar>i\<bar>" using bitlen_eq_zero_iff [of "\<bar>i\<bar>"] bitlen_nonneg [of "\<bar>i\<bar>"] by simp
    then have "k \<le> nat (bitlen \<bar>i\<bar> - 1)" by (simp add: k_def)
    then have "(2 :: int) ^ k \<le> 2 ^ nat (bitlen \<bar>i\<bar> - 1)" by (rule power_increasing) simp
    also have "\<dots> \<le> \<bar>i\<bar>" using bitlen_bounds [of "\<bar>i\<bar>"] \<open>i \<noteq> 0\<close> by simp
    finally have "(q + 1) * 2 ^ k \<le> 2 * \<bar>i\<bar>" using q by (simp add: distrib_right)
    moreover have "q * 2 ^ k \<le> 2 * \<bar>i\<bar>" using q(1) by linarith
    moreover have "\<bar>round53 i\<bar> = (if 2 * (\<bar>i\<bar> mod 2 ^ k) > 2 ^ k \<or> 2 * (\<bar>i\<bar> mod 2 ^ k) = 2 ^ k \<and> odd q
        then q + 1 else q) * 2 ^ k"
      using False q(2) \<open>i \<noteq> 0\<close>
      by (simp only: round53_def Let_def k_def [symmetric] q_def [symmetric] abs_mult abs_sgn_eq if_False mult_1) auto
    ultimately show ?thesis by simp
  qed
qed

lemma dbl_of_int_bound:
  assumes "\<bar>i\<bar> \<le> 2 ^ 63" "dbl_of_int i = Fin x"
  shows "\<bar>x\<bar> \<le> dbl_max"
proof -
  have "\<bar>x\<bar> = \<bar>round53 i\<bar> * dbl_scale" using assms(2) by (auto simp: dbl_of_int_def abs_mult)
  also have "\<dots> \<le> 2 ^ 64 * 2 ^ 1074"
    unfolding dbl_scale_def using round53_bound [of i] assms(1) by (intro mult_right_mono) simp_all
  also have "\<dots> \<le> dbl_max" by (simp add: dbl_max_def)
  finally show ?thesis .
qed

lemma number_bound:
  assumes "isNumber v" "numberDouble v = Fin x"
  shows "\<bar>x\<bar> \<le> dbl_max"
proof (cases v)
  case (IntV n)
  then have "\<bar>sint n\<bar> \<le> 2 ^ 63" using sint_greater_eq [of n] sint_less [of n] by (simp add: abs_if)
  with IntV assms show ?thesis by (auto intro: dbl_of_int_bound)
next
  case (LongV n)
  then have "\<bar>sint n\<bar> \<le> 2 ^ 63" using sint_greater_eq [of n] sint_less [of n] by (simp add: abs_if)
  with LongV assms show ?thesis by (auto intro: dbl_of_int_bound)
qed (use assms dbl_finite_bound in auto)

lemma memcmp_zeros: "memcmp (replicate n 0) xs \<le> 0"
proof (induction n arbitrary: xs)
  case (Suc n)
  then show ?case by (cases xs) (auto simp: word_gt_0)
qed simp

lemma memcmp_ones: "memcmp xs (replicate n 255) \<le> 0"
proof (induction n arbitrary: xs)
  case 0
  then show ?case by (cases xs) auto
next
  case (Suc n)
  have "\<not> (255 :: byte) < x" for x
    using word_n1_ge [of x] by (simp only: minus_one_byte not_less)
  with Suc show ?case by (cases xs) auto
qed

lemma memcmp_same_prefix [simp]: "memcmp (xs @ ys) (xs @ zs) = memcmp ys zs"
  by (induction xs) auto

lemma strcmp_Nil: "strcmp [] s \<le> 0"
  by (cases s) (auto simp: strcmp_def cstr_def)

lemma sgn_le_0: "sgn x \<le> 0 \<longleftrightarrow> x \<le> (0 :: int)"
  by (simp add: sgn_if)

lemma str_cmp_Nil: "str_cmp [] s \<le> 0"
proof -
  have "sgn (str_cmp [] s) \<le> 0" by (cases s) simp_all
  then show ?thesis by (simp only: sgn_le_0)
qed

lemma lex_le: "a \<le> 0 \<Longrightarrow> b \<le> 0 \<Longrightarrow> lex a b \<le> 0"
  by (simp add: lex_def)

text \<open>
  What the bounds enclose: finite numbers, object ids of 12 bytes, and any element of the other
  types except code with scope, whose scope is compared as bytes.
\<close>

fun boundable :: "bson_value \<Rightarrow> bool" where
  "boundable (CodeWScopeV _ _) = False"
| "boundable (OIDV i) = (length i = 12)"
| "boundable (DBRefV _ i) = (length i = 12)"
| "boundable v = (isNumber v \<longrightarrow> (\<exists>x. numberDouble v = Fin x))"

lemma number_bounds:
  assumes "isNumber v" "boundable v"
  shows "compareElementValues (DoubleV dbl_min_bits) v \<le> 0" "compareElementValues v (DoubleV dbl_max_bits) \<le> 0"
proof -
  obtain x where x: "numberDouble v = Fin x" using assms by (cases v) auto
  have "\<bar>x\<bar> \<le> dbl_max" using assms(1) x by (rule number_bound)
  then have "icmp (- dbl_max) x \<le> 0" "icmp x dbl_max \<le> 0" by (auto simp: icmp_def)
  then show "compareElementValues (DoubleV dbl_min_bits) v \<le> 0" "compareElementValues v (DoubleV dbl_max_bits) \<le> 0"
    using assms(1) x by (cases v; simp add: dbl_of_max_bits)+
qed

lemma dbref_min:
  assumes "length i = 12"
  shows "compareElementValues (DBRefV [] (replicate 12 0)) (DBRefV ns i) \<le> 0"
proof (cases ns)
  case Nil
  then show ?thesis using memcmp_zeros [of 12 i] assms by (simp add: Let_def lex_def)
next
  case (Cons c cs)
  then show ?thesis using assms by (simp add: Let_def lex_def sized_string_def cstring_def)
qed

lemma embedded_Nil: "woCompare_embedded [] b \<le> 0"
  by (cases b) simp_all

lemma bindata_min: "compareElementValues (BinDataV 0 []) (BinDataV t d) \<le> 0"
  by (auto intro!: lex_le simp: word_gt_0)

lemma elem_le:
  assumes "canonicalType x < canonicalType y \<or> canonicalType x = canonicalType y \<and> compareElementValues x y \<le> 0"
  shows "elem_woCompare (f, x) (f, y) cfn \<le> 0"
  using assms by (auto simp: elem_woCompare_lex lex_def)

lemma min_value_le: "boundable v \<Longrightarrow> elem_woCompare (f, min_value v) (f, v) cfn \<le> 0"
proof (rule elem_le, cases v)
  fix ns i assume "boundable v" "v = DBRefV ns i"
  then show "canonicalType (min_value v) < canonicalType v \<or>
      canonicalType (min_value v) = canonicalType v \<and> compareElementValues (min_value v) v \<le> 0"
    using dbref_min [of i ns] by (simp del: compareElementValues.simps)
next
  fix t d assume "v = BinDataV t d"
  then show "canonicalType (min_value v) < canonicalType v \<or>
      canonicalType (min_value v) = canonicalType v \<and> compareElementValues (min_value v) v \<le> 0"
    using bindata_min [of t d] by (simp del: compareElementValues.simps)
qed (use number_bounds(1) [of v] in
  \<open>auto simp: memcmp_zeros str_cmp_Nil strcmp_Nil embedded_Nil icmp_def word_gt_0 intro: lex_le\<close>)

lemma max_value_ge: "boundable v \<Longrightarrow> elem_woCompare (f, v) (f, max_value v) cfn \<le> 0"
proof (rule elem_le, cases v)
  fix d assume v: "v = DateV d"
  have "sint d \<le> 2 ^ 63 - 1" using sint_less [of d] by simp
  with v show "canonicalType v < canonicalType (max_value v) \<or>
      canonicalType v = canonicalType (max_value v) \<and> compareElementValues v (max_value v) \<le> 0"
    by (simp add: icmp_def)
next
  fix t assume v: "v = TimestampV t"
  have "(18446744073709551615 :: u64) = - 1" by simp
  then have "t \<le> 18446744073709551615" using word_n1_ge [of t] by (simp only:)
  with v show "canonicalType v < canonicalType (max_value v) \<or>
      canonicalType v = canonicalType (max_value v) \<and> compareElementValues v (max_value v) \<le> 0"
    by (simp add: icmp_def)
qed (use number_bounds(2) [of v] in \<open>auto simp: memcmp_ones icmp_def\<close>)

section \<open>Properties\<close>

text \<open>
  C20: the bounds that index scans use for a type enclose every element of the type, except infinite
  and undefined numbers and code with scope: what \<open>appendMinForType\<close> appends does not compare above
  the element, and what \<open>appendMaxForType\<close> appends not below it.
\<close>

theorem type_bounds_enclose:
  assumes "boundable v"
  shows "\<exists>lo hi. appendMinForType f (bson_type v) = appendBuf (enc_elems [(f, lo)]) \<and>
    appendMaxForType f (bson_type v) = appendBuf (enc_elems [(f, hi)]) \<and>
    elem_woCompare (f, lo) (f, v) cfn \<le> 0 \<and> elem_woCompare (f, v) (f, hi) cfn \<le> 0"
  using appendForType_writes min_value_le [OF assms] max_value_ge [OF assms] by blast

theorem type_bounds_enclose_witness:
  "\<exists>lo hi. appendMinForType (str ''a'') 7 = appendBuf (enc_elems [(str ''a'', lo)]) \<and>
     appendMaxForType (str ''a'') 7 = appendBuf (enc_elems [(str ''a'', hi)]) \<and>
     elem_woCompare (str ''a'', lo) (str ''a'', OIDV (replicate 12 5)) True \<le> 0 \<and>
     elem_woCompare (str ''a'', OIDV (replicate 12 5)) (str ''a'', hi) True \<le> 0"
  using type_bounds_enclose [of "OIDV (replicate 12 5)" "str ''a''" True] by simp

text \<open>Minus infinity is below the lower bound, so the bounds do not enclose every number.\<close>

lemma type_bounds_infinity:
  "elem_woCompare (f, DoubleV 0xFFF0000000000000) (f, min_value (DoubleV 0xFFF0000000000000)) cfn < 0"
proof -
  have "dbl_of_bits 0xFFF0000000000000 = NegInf" by (simp add: dbl_of_bits_def)
  then show ?thesis by (simp add: elem_woCompare_lex lex_def dbl_of_max_bits dbl_cmp_def)
qed

section \<open>Dotted names\<close>

text \<open>Objects, and the objects nested in them, whose field names are distinct and without dots.\<close>

function plain_names :: "bson \<Rightarrow> bool" where
  "plain_names [] = True"
| "plain_names ((n, v) # es) =
     (46 \<notin> set n \<and> n \<notin> fst ` set es \<and> (case v of ObjectV b \<Rightarrow> plain_names b | _ \<Rightarrow> True) \<and> plain_names es)"
  by pat_completeness auto
termination
  by (relation "measure (\<lambda>es. size_list (size_prod (\<lambda>_. 0) size) es)") auto

lemma getField_None: "getField b n = None \<longleftrightarrow> n \<notin> fst ` set b"
  by (induction b n rule: getField.induct) force+

lemma getField_plain: "plain_names b \<Longrightarrow> (n, v) \<in> set b \<Longrightarrow> getField b n = Some (n, v)"
  by (induction b rule: plain_names.induct) (force split: if_splits)+

lemma plain_names_elem:
  "plain_names b \<Longrightarrow> (n, v) \<in> set b \<Longrightarrow> 46 \<notin> set n"
  "plain_names b \<Longrightarrow> (n, ObjectV c) \<in> set b \<Longrightarrow> plain_names c"
  by (induction b rule: plain_names.induct) auto

lemma dot_split_plain: "46 \<notin> set n \<Longrightarrow> dot_split (n @ 46 # p) = Some (n, p)"
proof -
  assume n: "46 \<notin> set n"
  then have "takeWhile (\<lambda>c. c \<noteq> 46) (n @ 46 # p) = n" by (induction n) auto
  moreover from n have "dropWhile (\<lambda>c. c \<noteq> 46) (n @ 46 # p) = 46 # p" by (induction n) auto
  ultimately show ?thesis by (simp add: dot_split_def)
qed

text \<open>What \<open>nested2dotted\<close> appends for one element.\<close>

lemma nested2dotted_leaf:
  "bson_type v \<noteq> 3 \<Longrightarrow> nested2dotted base ((n, v) # es) = (base @ n, v) # nested2dotted base es"
  by (cases v) simp_all

lemma bson_type_3: "bson_type v = 3 \<Longrightarrow> \<exists>c. v = ObjectV c"
  by (cases v) simp_all

lemma nested2dotted_elem:
  "(m, v) \<in> set (nested2dotted base b) \<Longrightarrow>
     (\<exists>n. (n, v) \<in> set b \<and> bson_type v \<noteq> 3 \<and> m = base @ n) \<or>
     (\<exists>n c. (n, ObjectV c) \<in> set b \<and> (m, v) \<in> set (nested2dotted (base @ n @ [46]) c))"
proof (induction b)
  case (Cons e es)
  obtain n w where e: "e = (n, w)" by fastforce
  show ?case
  proof (cases "bson_type w = 3")
    case True
    then obtain c where "w = ObjectV c" using bson_type_3 by blast
    with Cons e show ?thesis by fastforce
  next
    case False
    with Cons e show ?thesis by (auto simp: nested2dotted_leaf simp del: nested2dotted.simps)
  qed
qed simp

lemma size_nested: "(n, ObjectV c) \<in> set b \<Longrightarrow>
  size_list (size_prod (\<lambda>_. 0) size) c < size_list (size_prod (\<lambda>_. 0) size) (b :: bson)"
  by (induction b) auto

lemma nested_getFieldDotted:
  "plain_names b \<Longrightarrow> (m, v) \<in> set (nested2dotted base b) \<Longrightarrow>
     \<exists>p n. m = base @ p \<and> getFieldDotted b p = Some (n, v)"
proof (induction "size_list (size_prod (\<lambda>_. 0) size) b" arbitrary: b base m rule: less_induct)
  case less
  from nested2dotted_elem [OF less.prems(2)] show ?case
  proof (elim disjE exE conjE)
    fix n assume "(n, v) \<in> set b" "m = base @ n"
    then show ?thesis using getField_plain [OF less.prems(1)]
      by (intro exI [of _ n]) (simp add: getFieldDotted.simps)
  next
    fix n c assume n: "(n, ObjectV c) \<in> set b" and c: "(m, v) \<in> set (nested2dotted (base @ n @ [46]) c)"
    note plain = plain_names_elem [OF less.prems(1)]
    obtain p k where p: "m = (base @ n @ [46]) @ p" "getFieldDotted c p = Some (k, v)"
      using less.hyps [OF size_nested [OF n] plain(2) [OF n] c] by blast
    have "n @ 46 # p \<notin> fst ` set b" using plain(1) by fastforce
    then have "getField b (n @ 46 # p) = None" by (rule getField_None [THEN iffD2])
    moreover have "c \<noteq> []" using c by auto
    ultimately have "getFieldDotted b (n @ 46 # p) = Some (k, v)"
      using p(2) getField_plain [OF less.prems(1) n] dot_split_plain [OF plain(1) [OF n]]
      by (subst getFieldDotted.simps) (simp add: getObjectField_def del: getFieldDotted.simps)
    with p(1) show ?thesis by auto
  qed
qed



section \<open>Storage and sorting\<close>

text \<open>
  What \<open>okForStorage\<close> is for: no field name, at any depth, has a dot or a dollar, and no \<open>_id\<close> is a
  regular expression.
\<close>

fun scoped :: "bson_value \<Rightarrow> bson" where
  "scoped (ObjectV b) = b"
| "scoped (ArrayV b) = b"
| "scoped (CodeWScopeV _ b) = b"
| "scoped _ = []"

lemma size_scoped: "size_list (size_prod (\<lambda>_. 0) size) (scoped v) < Suc (size v)"
  by (cases v) auto

function storable :: "(bstr \<Rightarrow> bool) \<Rightarrow> bson \<Rightarrow> bool" where
  "storable P [] = True"
| "storable P ((n, v) # es) =
     (P n \<and> \<not> (n = str ''_id'' \<and> bson_type v = 11) \<and> storable P (scoped v) \<and> storable P es)"
  by pat_completeness auto
termination
proof (relation "measure (\<lambda>(_, es). size_list (size_prod (\<lambda>_. 0) size) es)")
  show "((P, scoped v), P, (n, v) # es) \<in> measure (\<lambda>(_, es). size_list (size_prod (\<lambda>_. 0) size) es)" for P n v es
    using size_scoped [of v] by simp
qed auto

definition clean_name :: "bstr \<Rightarrow> bool" where
  "clean_name n \<longleftrightarrow> 46 \<notin> set n \<and> 36 \<notin> set n"

function no_dbref :: "bson \<Rightarrow> bool" where
  "no_dbref [] = True"
| "no_dbref ((n, v) # es) =
     (strcmp n (str ''$ref'') \<noteq> 0 \<and> strcmp n (str ''$id'') \<noteq> 0 \<and> no_dbref (scoped v) \<and> no_dbref es)"
  by pat_completeness auto
termination
proof (relation "measure (\<lambda>es. size_list (size_prod (\<lambda>_. 0) size) es)")
  show "(scoped v, (n, v) # es) \<in> measure (\<lambda>es. size_list (size_prod (\<lambda>_. 0) size) es)" for n v es
    using size_scoped [of v] by simp
qed auto

lemma okForStorage_step:
  "okForStorage ((name, v) # es) =
     (if \<not> clean_name name then strcmp name (str ''$ref'') = 0 \<or> strcmp name (str ''$id'') = 0
      else \<not> (name = str ''_id'' \<and> bson_type v = 11) \<and> okForStorage (scoped v) \<and> okForStorage es)"
  by (cases v) (auto simp: clean_name_def)

text \<open>
  C25: \<open>okForStorage\<close> accepts a document without \<open>$ref\<close> and \<open>$id\<close> fields exactly when no field name at
  any depth, in subobjects, arrays and scopes of code, contains a dot or a dollar and no \<open>_id\<close> is a
  regular expression.
\<close>

theorem okForStorage_exact:
  assumes "no_dbref b"
  shows "okForStorage b \<longleftrightarrow> storable clean_name b"
  using assms
  by (induction b rule: no_dbref.induct) (simp_all add: okForStorage_step del: okForStorage.simps(2))

theorem okForStorage_exact_witness:
  "okForStorage [(str ''a'', ObjectV [(str ''b.c'', NullV)])] \<longleftrightarrow>
     storable clean_name [(str ''a'', ObjectV [(str ''b.c'', NullV)])]"
proof (rule okForStorage_exact)
  show "no_dbref [(str ''a'', ObjectV [(str ''b.c'', NullV)])]" by (simp add: str_def of_char_def strcmp_def cstr_def)
qed

text \<open>After a \<open>$ref\<close> nothing is checked any more.\<close>

lemma okForStorage_after_ref:
  "okForStorage ((str ''$ref'', v) # es)"
  by (simp add: okForStorage_step clean_name_def str_def of_char_def del: okForStorage.simps(2))

lemma length_extractFields: "length (extractFields b k True) = length k"
  by (induction k) (auto simp: extractFields_def split: option.splits)

lemma sort_loop_eq:
  "woSortOrder_loop True x y k =
     woCompare_idx_loop True k False (extractFields x k True) (extractFields y k True)"
proof (induction k)
  case Nil
  then show ?case by (simp add: extractFields_def)
next
  case (Cons e k)
  obtain n f where e: "e = (n, f)" by fastforce
  have x: "extractFields b (e # k) True =
      (n, case getFieldDotted b n of Some (_, v) \<Rightarrow> v | None \<Rightarrow> NullV) # extractFields b k True" for b
    by (auto simp: extractFields_def e split: option.splits)
  let ?g = "\<lambda>b. case getFieldDotted b n of Some g \<Rightarrow> g | None \<Rightarrow> ([], NullV)"
  let ?v = "\<lambda>b. case getFieldDotted b n of Some (_, v) \<Rightarrow> v | None \<Rightarrow> NullV"
  have "snd (?g b) = ?v b" for b by (auto split: option.splits)
  then have "elem_woCompare (?g x) (?g y) False = elem_woCompare (n, ?v x) (n, ?v y) False"
    by (simp add: elem_woCompare_def)
  with Cons.IH show ?case
    by (simp only: e woSortOrder_loop.simps x [unfolded e] woCompare_idx_loop.simps Let_def if_True list.sel snd_conv)
      simp
qed



end
