(* ===== verification/KeyV1.thy ===== *)
theory KeyV1
  imports BsonCompare
begin

unbundle bit_operations_syntax

text \<open>
  The compact format of index keys (\<open>db/storage/key.cpp\<close>, \<open>db/storage/key.h\<close>): an object of simple
  values becomes one type byte and a short value per element, without names; every other object
  stays BSON after a sentinel byte.  Dictionaries compare keys in this format, so the order of the
  bytes has to be the order of the objects.  Keys are byte lists; a read past the end of a key, like
  a failed \<open>verify\<close> on a type byte that the encoder never writes, is \<open>None\<close>.
\<close>

section \<open>Type bytes\<close>

text \<open>The values of \<open>CanonicalsEtc\<close>.\<close>

definition cminkey :: byte where "cminkey = 1"
definition cnull :: byte where "cnull = 2"
definition cdouble :: byte where "cdouble = 4"
definition cstring_code :: byte where "cstring_code = 6"
definition cbindata :: byte where "cbindata = 7"
definition coid :: byte where "coid = 8"
definition cfalse :: byte where "cfalse = 10"
definition ctrue :: byte where "ctrue = 11"
definition cdate :: byte where "cdate = 12"
definition cmaxkey :: byte where "cmaxkey = 14"
definition cCANONTYPEMASK :: byte where "cCANONTYPEMASK = 0xf"
definition cint :: byte where "cint = 0x10 OR 4"
definition clong :: byte where "clong = 0x20 OR 4"
definition cint64 :: byte where "cint64 = 0x30 OR 4"
definition cHASMORE :: byte where "cHASMORE = 0x40"
definition IsBSON :: byte where "IsBSON = 0xff"

definition BinDataLenMax :: nat where
  "BinDataLenMax = 32"

definition BinDataLengthToCode :: "int list" where
  "BinDataLengthToCode =
     [0x00, 0x10, 0x20, 0x30, 0x40, 0x50, 0x60, 0x70,
      0x80, -1, 0x90, -1, 0xa0, -1, 0xb0, -1,
      0xc0, -1, -1, -1, 0xd0, -1, -1, -1,
      0xe0, -1, -1, -1, -1, -1, -1, -1,
      0xf0]"

definition BinDataCodeToLength :: "nat list" where
  "BinDataCodeToLength = [0, 1, 2, 3, 4, 5, 6, 7, 8, 10, 12, 14, 16, 20, 24, 32]"

definition binDataCodeToLength :: "byte \<Rightarrow> nat" where
  "binDataCodeToLength codeByte = BinDataCodeToLength ! unat (drop_bit 4 codeByte)"

section \<open>From BSON\<close>

text \<open>One turn of the loop of \<open>KeyV1Owned(obj)\<close>; \<open>None\<close> is the way to \<open>traditional\<close>.\<close>

fun key_elem :: "byte \<Rightarrow> bson_value \<Rightarrow> byte list option" where
  "key_elem bits MinKeyV = Some [cminkey OR bits]"
| "key_elem bits NullV = Some [cnull OR bits]"
| "key_elem bits MaxKeyV = Some [cmaxkey OR bits]"
| "key_elem bits (BoolV b) = Some [(if b then ctrue else cfalse) OR bits]"
| "key_elem bits (OIDV i) = Some ((coid OR bits) # i)"
| "key_elem bits (BinDataV t d) =
     (if t AND 0x78 = 0 \<and> t \<noteq> 2 \<and> length d \<le> BinDataLenMax
      then let code = BinDataLengthToCode ! length d
           in if 0 \<le> code
              then let t = (if 128 \<le> t then (t - 128) OR 0x08 else t)
                   in Some ((cbindata OR bits) # (of_int code OR t) # d)
              else None
      else None)"
| "key_elem bits (DateV d) = Some ((cdate OR bits) # le_bytes 8 d)"
| "key_elem bits (StringV s) =
     (if length s > 255 then None else Some ((cstring_code OR bits) # of_nat (length s) # s))"
| "key_elem bits (IntV n) = Some ((cint OR bits) # le_bytes 8 (dbl_bits_of_int (sint n)))"
| "key_elem bits (LongV n) =
     (if sint n \<ge> 2 ^ 53 \<or> sint n \<le> - (2 ^ 53) then Some ((cint64 OR bits) # le_bytes 8 n)
      else Some ((clong OR bits) # le_bytes 8 (dbl_bits_of_int (sint n))))"
| "key_elem bits (DoubleV d) =
     (if isNaN (dbl_of_bits d) then None else Some ((cdouble OR bits) # le_bytes 8 d))"
| "key_elem bits _ = None"

fun key_elems :: "bson \<Rightarrow> byte list option" where
  "key_elems [] = None"
| "key_elems [(_, v)] = key_elem 0 v"
| "key_elems ((_, v) # e # es) = do { d \<leftarrow> key_elem cHASMORE v; r \<leftarrow> key_elems (e # es); Some (d @ r) }"

definition traditional :: "bson \<Rightarrow> byte list" where
  "traditional obj = IsBSON # enc_obj obj"

definition KeyV1Owned :: "bson \<Rightarrow> byte list" where
  "KeyV1Owned obj = (case key_elems obj of Some d \<Rightarrow> d | None \<Rightarrow> traditional obj)"

section \<open>To BSON\<close>

fun uncons :: "byte list \<Rightarrow> (byte \<times> byte list) option" where
  "uncons [] = None"
| "uncons (b # bs) = Some (b, bs)"

definition isCompactFormat :: "byte list \<Rightarrow> bool" where
  "isCompactFormat k \<longleftrightarrow> hd k \<noteq> IsBSON"

text \<open>The element appended for a type byte, and the rest of the key.\<close>

definition toBson_elem :: "byte \<Rightarrow> byte list \<Rightarrow> (bson_value \<times> byte list) option" where
  "toBson_elem t p =
     (if t = cminkey then Some (MinKeyV, p)
      else if t = cnull then Some (NullV, p)
      else if t = cfalse then Some (BoolV False, p)
      else if t = ctrue then Some (BoolV True, p)
      else if t = cmaxkey then Some (MaxKeyV, p)
      else if t = cstring_code then do { (sz, p) \<leftarrow> uncons p; (s, p) \<leftarrow> read_n (unat sz) p; Some (StringV s, p) }
      else if t = coid then do { (i, p) \<leftarrow> read_n 12 p; Some (OIDV i, p) }
      else if t = cbindata then do {
        (c, p) \<leftarrow> uncons p;
        (d, p) \<leftarrow> read_n (binDataCodeToLength c) p;
        Some (BinDataV (let s = c AND 0x0f in if s AND 8 \<noteq> 0 then (s AND 7) OR 0x80 else s) d, p) }
      else if t = cdate then do { (d, p) \<leftarrow> read_u64 p; Some (DateV d, p) }
      else if t = cdouble then do { (d, p) \<leftarrow> read_u64 p; Some (DoubleV d, p) }
      else if t = cint then do { (d, p) \<leftarrow> read_u64 p; n \<leftarrow> cast_dbl_int (dbl_of_bits d); Some (IntV n, p) }
      else if t = clong then do { (d, p) \<leftarrow> read_u64 p; n \<leftarrow> cast_dbl_long (dbl_of_bits d); Some (LongV n, p) }
      else if t = cint64 then do { (n, p) \<leftarrow> read_u64 p; Some (LongV n, p) }
      else None)"

lemma read_n_length: "read_n n p = Some (x, q) \<Longrightarrow> length q \<le> length p"
  by (auto simp: read_n_def split: if_splits)

lemma uncons_length: "uncons p = Some (x, q) \<Longrightarrow> length p = Suc (length q)"
  by (cases p) auto

lemma read_u64_length: "read_u64 p = Some (x, q) \<Longrightarrow> length q \<le> length p"
  by (auto simp: read_u64_def bind_eq_Some_conv dest: read_n_length)

lemma toBson_elem_length: "toBson_elem t p = Some (v, q) \<Longrightarrow> length q \<le> length p"
  by (auto simp: toBson_elem_def bind_eq_Some_conv split: if_splits
      dest!: read_n_length uncons_length read_u64_length)

function toBson_loop :: "byte list \<Rightarrow> bson option" where
  "toBson_loop p =
     (case uncons p of
        None \<Rightarrow> None
      | Some (bits, p') \<Rightarrow>
          (case toBson_elem (bits AND 0x3f) p' of
             None \<Rightarrow> None
           | Some (v, q) \<Rightarrow>
               if bits AND cHASMORE = 0 then Some [([], v)]
               else map_option ((#) ([], v)) (toBson_loop q)))"
  by pat_completeness auto
termination
  by (relation "measure length") (auto dest!: uncons_length toBson_elem_length)

declare toBson_loop.simps [simp del]

definition toBson :: "byte list \<Rightarrow> bson option" where
  "toBson k =
     (if k = [] then None
      else if \<not> isCompactFormat k then map_option fst (dec_obj (tl k))
      else toBson_loop k)"

section \<open>Comparison\<close>

definition compare_double :: "byte \<Rightarrow> byte \<Rightarrow> u64 \<Rightarrow> u64 \<Rightarrow> int" where
  "compare_double lt_real rt_real l r =
     (if lt_real = cint64 \<and> rt_real = cint64
      then (if sint l < sint r then -1 else if sint l \<noteq> sint r then 1 else 0)
      else let L = (if lt_real = cint64 then dbl_of_int (sint l) else dbl_of_bits l);
               R = (if rt_real = cint64 then dbl_of_int (sint r) else dbl_of_bits r)
           in if dbl_lt L R then -1 else if \<not> dbl_eq L R then 1 else 0)"

text \<open>\<open>compare\<close>: the result and the updated pointers, which matter only when it is 0.\<close>

definition key_compare :: "byte list \<Rightarrow> byte list \<Rightarrow> (int \<times> byte list \<times> byte list) option" where
  "key_compare l r = do {
     (lt_real, l) \<leftarrow> uncons l;
     (rt_real, r) \<leftarrow> uncons r;
     let lt = lt_real AND cCANONTYPEMASK;
     let rt = rt_real AND cCANONTYPEMASK;
     let x = uint lt - uint rt;
     if x \<noteq> 0 then Some (x, l, r)
     else if lt = cdouble then do {
       (a, l) \<leftarrow> read_u64 l; (b, r) \<leftarrow> read_u64 r;
       Some (compare_double lt_real rt_real a b, l, r) }
     else if lt = cstring_code then do {
       (lsz, l) \<leftarrow> uncons l; (rsz, r) \<leftarrow> uncons r;
       let common = min (unat lsz) (unat rsz);
       (a, _) \<leftarrow> read_n common l; (b, _) \<leftarrow> read_n common r;
       let res = memcmp a b;
       let diff = uint lsz - uint rsz;
       if res \<noteq> 0 then Some (res, l, r)
       else if diff \<noteq> 0 then Some (diff, l, r)
       else do { (_, l) \<leftarrow> read_n (unat lsz) l; (_, r) \<leftarrow> read_n (unat lsz) r; Some (0, l, r) } }
     else if lt = cbindata then do {
       (L, l) \<leftarrow> uncons l; (R, r) \<leftarrow> uncons r;
       let llen = binDataCodeToLength L;
       let diff = uint L - uint R;
       let rlen = binDataCodeToLength R;
       if diff \<noteq> 0 then Some (if llen \<noteq> rlen then int llen - int rlen else diff, l, r)
       else do { (a, l) \<leftarrow> read_n llen l; (b, r) \<leftarrow> read_n llen r; Some (memcmp a b, l, r) } }
     else if lt = cdate then do {
       (a, l) \<leftarrow> read_u64 l; (b, r) \<leftarrow> read_u64 r;
       Some (if sint a < sint b then -1 else if sint a > sint b then 1 else 0, l, r) }
     else if lt = coid then do {
       (a, l) \<leftarrow> read_n 12 l; (b, r) \<leftarrow> read_n 12 r; Some (memcmp a b, l, r) }
     else Some (0, l, r) }"

lemma key_compare_length:
  "key_compare l r = Some (x, l', r') \<Longrightarrow> length l' < length l"
  by (auto simp: key_compare_def Let_def bind_eq_Some_conv split: if_splits
      dest!: read_n_length uncons_length read_u64_length)

text \<open>The loop of \<open>KeyV1::woCompare\<close>; \<open>i\<close> is the position of the bit in \<open>mask\<close>.\<close>

function key_woCompare_loop :: "ordering \<Rightarrow> nat \<Rightarrow> byte list \<Rightarrow> byte list \<Rightarrow> int option" where
  "key_woCompare_loop ord i l r =
     (case key_compare l r of
        None \<Rightarrow> None
      | Some (x, l', r') \<Rightarrow>
          if x \<noteq> 0 then Some (if descending ord i then - x else x)
          else let y = uint (hd l AND cHASMORE) - uint (hd r AND cHASMORE)
               in if y \<noteq> 0 then Some y
                  else if hd l AND cHASMORE = 0 then Some 0
                  else key_woCompare_loop ord (i + 1) l' r')"
  by pat_completeness auto
termination
  by (relation "measure (\<lambda>(_, _, l, _). length l)") (auto dest: key_compare_length)

declare key_woCompare_loop.simps [simp del]

definition compareHybrid :: "byte list \<Rightarrow> byte list \<Rightarrow> ordering \<Rightarrow> int option" where
  "compareHybrid l r order = do { L \<leftarrow> toBson l; R \<leftarrow> toBson r; Some (woCompare L R order False) }"

definition key_woCompare :: "byte list \<Rightarrow> byte list \<Rightarrow> ordering \<Rightarrow> int option" where
  "key_woCompare l r order =
     (if l = [] \<or> r = [] then None
      else if hd l OR hd r = IsBSON then compareHybrid l r order
      else key_woCompare_loop order 0 l r)"

section \<open>Sizes\<close>

definition sizes :: "nat list" where
  "sizes = [0, 1, 1, 0, 9, 0, 0, 0, 13, 0, 1, 1, 9, 0, 1, 0]"

definition sizeOfElement :: "byte list \<Rightarrow> nat option" where
  "sizeOfElement p = do {
     (b, q) \<leftarrow> uncons p;
     let type = b AND cCANONTYPEMASK;
     let sz = sizes ! unat type;
     if sz = 0
     then (if type = cstring_code then do { (n, _) \<leftarrow> uncons q; Some (unat n + 2) }
           else if type = cbindata then do { (c, _) \<leftarrow> uncons q; Some (binDataCodeToLength c + 2) }
           else None)
     else Some sz }"

lemma sizeOfElement_pos: "sizeOfElement p = Some z \<Longrightarrow> 0 < z \<and> p \<noteq> []"
  by (auto simp: sizeOfElement_def Let_def bind_eq_Some_conv split: if_splits)

function dataSize_loop :: "byte list \<Rightarrow> nat option" where
  "dataSize_loop p =
     (case sizeOfElement p of
        None \<Rightarrow> None
      | Some z \<Rightarrow>
          if hd p AND cHASMORE = 0 then Some z else map_option ((+) z) (dataSize_loop (drop z p)))"
  by pat_completeness auto
termination
  by (relation "measure length") (auto dest: sizeOfElement_pos)

declare dataSize_loop.simps [simp del]

definition dataSize :: "byte list \<Rightarrow> nat option" where
  "dataSize k =
     (if k = [] then None
      else if \<not> isCompactFormat k then do { (n, _) \<leftarrow> read_u32 (tl k); Some (unat n + 1) }
      else dataSize_loop k)"

section \<open>Equality\<close>

text \<open>One element of \<open>woEqual\<close>, after the type bytes: whether it is equal and the rest of both keys.\<close>

definition woEqual_elem :: "byte \<Rightarrow> byte list \<Rightarrow> byte list \<Rightarrow> (bool \<times> byte list \<times> byte list) option" where
  "woEqual_elem t l r =
     (if t = coid then do {
        (a, l) \<leftarrow> read_u32 l; (b, r) \<leftarrow> read_u32 r;
        if a \<noteq> b then Some (False, l, r)
        else do { (a, l) \<leftarrow> read_u64 l; (b, r) \<leftarrow> read_u64 r; Some (a = b, l, r) } }
      else if t = cdate then do { (a, l) \<leftarrow> read_u64 l; (b, r) \<leftarrow> read_u64 r; Some (a = b, l, r) }
      else if t = cdouble then do {
        (a, l) \<leftarrow> read_u64 l; (b, r) \<leftarrow> read_u64 r; Some (dbl_eq (dbl_of_bits a) (dbl_of_bits b), l, r) }
      else if t = cstring_code then do {
        (n, l') \<leftarrow> uncons l; (m, r') \<leftarrow> uncons r;
        if n \<noteq> m then Some (False, l, r)
        else do {
          (a, l) \<leftarrow> read_n (unat n + 1) l; (b, r) \<leftarrow> read_n (unat n + 1) r; Some (memcmp a b = 0, l, r) } }
      else if t = cbindata then do {
        (n, l') \<leftarrow> uncons l; (m, r') \<leftarrow> uncons r;
        if n \<noteq> m then Some (False, l, r)
        else do {
          (a, l) \<leftarrow> read_n (binDataCodeToLength n + 1) l; (b, r) \<leftarrow> read_n (binDataCodeToLength n + 1) r;
          Some (memcmp a b = 0, l, r) } }
      else if t \<in> {cminkey, cnull, cfalse, ctrue, cmaxkey} then Some (True, l, r)
      else None)"

lemma read_u32_length: "read_u32 p = Some (x, q) \<Longrightarrow> length q \<le> length p"
  by (auto simp: read_u32_def bind_eq_Some_conv dest: read_n_length)

lemma woEqual_elem_length: "woEqual_elem t l r = Some (x, l', r') \<Longrightarrow> length l' \<le> length l"
  by (auto simp: woEqual_elem_def bind_eq_Some_conv split: if_splits
      dest!: read_n_length uncons_length read_u64_length read_u32_length)

function woEqual_loop :: "byte list \<Rightarrow> byte list \<Rightarrow> bool option" where
  "woEqual_loop l r =
     (case (uncons l, uncons r) of
        (Some (lval, l), Some (rval, r)) \<Rightarrow>
          if lval AND (cCANONTYPEMASK OR cHASMORE) \<noteq> rval AND (cCANONTYPEMASK OR cHASMORE) then Some False
          else (case woEqual_elem (lval AND cCANONTYPEMASK) l r of
                  None \<Rightarrow> None
                | Some (eq, l', r') \<Rightarrow>
                    if \<not> eq then Some False
                    else if lval AND cHASMORE = 0 then Some True
                    else woEqual_loop l' r')
      | _ \<Rightarrow> None)"
  by pat_completeness auto
termination
  by (relation "measure (\<lambda>(l, _). length l)") (auto dest!: woEqual_elem_length uncons_length [OF sym])

declare woEqual_loop.simps [simp del]

text \<open>\<open>toBson().equal\<close> may fail its \<open>verify\<close>, which is \<open>None\<close> as well.\<close>

definition woEqual :: "byte list \<Rightarrow> byte list \<Rightarrow> bool option" where
  "woEqual l r =
     (if l = [] \<or> r = [] then None
      else if hd l OR hd r = IsBSON
      then do { L \<leftarrow> toBson l; R \<leftarrow> toBson r; case bson_equal L R of Inr b \<Rightarrow> Some b | Inl _ \<Rightarrow> None }
      else woEqual_loop l r)"

section \<open>Dictionary keys\<close>

text \<open>\<open>Key\<close>: the index key and, in secondary indexes, the primary key as BSON after it.\<close>

definition Key_make :: "bson \<Rightarrow> bson option \<Rightarrow> byte list" where
  "Key_make key pk = KeyV1Owned key @ (case pk of Some p \<Rightarrow> enc_obj p | None \<Rightarrow> [])"

definition Key_pk :: "byte list \<Rightarrow> bson option" where
  "Key_pk buf = do {
     keySize \<leftarrow> dataSize buf;
     if keySize < length buf then map_option fst (dec_obj (drop keySize buf)) else Some [] }"

definition Key_woCompare :: "byte list \<Rightarrow> byte list \<Rightarrow> ordering \<Rightarrow> int option" where
  "Key_woCompare key1 key2 ord = do {
     c \<leftarrow> key_woCompare key1 key2 ord;
     if c < 0 then Some (-1)
     else if c > 0 then Some 1
     else do {
       k1_size \<leftarrow> dataSize key1;
       k2_size \<leftarrow> dataSize key2;
       let key1_bytes_left = int (length key1) - int k1_size;
       let key2_bytes_left = int (length key2) - int k2_size;
       if key1_bytes_left > 0 \<and> key2_bytes_left > 0
       then do {
         (other_k1, _) \<leftarrow> dec_obj (drop k1_size key1);
         (other_k2, _) \<leftarrow> dec_obj (drop k2_size key2);
         let c = woCompare other_k1 other_k2 0 True;
         Some (if c < 0 then -1 else if c > 0 then 1 else 0) }
       else Some 0 } }"

section \<open>Encoded elements\<close>

text \<open>The type byte without \<open>cHASMORE\<close>, the bytes after it, and when an element has a compact form.\<close>

fun key_tag :: "bson_value \<Rightarrow> byte" where
  "key_tag MinKeyV = 1"
| "key_tag NullV = 2"
| "key_tag MaxKeyV = 14"
| "key_tag (BoolV b) = (if b then 11 else 10)"
| "key_tag (OIDV _) = 8"
| "key_tag (BinDataV _ _) = 7"
| "key_tag (DateV _) = 12"
| "key_tag (StringV _) = 6"
| "key_tag (IntV _) = 0x14"
| "key_tag (LongV n) = (if \<bar>sint n\<bar> < 2 ^ 53 then 0x24 else 0x34)"
| "key_tag _ = 4"

definition bin_code :: "byte \<Rightarrow> nat \<Rightarrow> byte" where
  "bin_code t n = of_int (BinDataLengthToCode ! n) OR (if 128 \<le> t then (t - 128) OR 8 else t)"

fun key_payload :: "bson_value \<Rightarrow> byte list" where
  "key_payload (OIDV i) = i"
| "key_payload (BinDataV t d) = bin_code t (length d) # d"
| "key_payload (DateV d) = le_bytes 8 d"
| "key_payload (StringV s) = of_nat (length s) # s"
| "key_payload (IntV n) = le_bytes 8 (dbl_bits_of_int (sint n))"
| "key_payload (LongV n) = le_bytes 8 (if \<bar>sint n\<bar> < 2 ^ 53 then dbl_bits_of_int (sint n) else n)"
| "key_payload (DoubleV d) = le_bytes 8 d"
| "key_payload _ = []"

definition bin_ok :: "byte \<Rightarrow> nat \<Rightarrow> bool" where
  "bin_ok t n \<longleftrightarrow> t AND 0x78 = 0 \<and> t \<noteq> 2 \<and> n \<le> 32 \<and> 0 \<le> BinDataLengthToCode ! n"

fun compact :: "bson_value \<Rightarrow> bool" where
  "compact MinKeyV = True"
| "compact NullV = True"
| "compact MaxKeyV = True"
| "compact (BoolV _) = True"
| "compact (OIDV _) = True"
| "compact (BinDataV t d) = bin_ok t (length d)"
| "compact (DateV _) = True"
| "compact (StringV s) = (length s \<le> 255)"
| "compact (IntV _) = True"
| "compact (LongV _) = True"
| "compact (DoubleV d) = (\<not> isNaN (dbl_of_bits d))"
| "compact _ = False"

lemmas code_defs = cminkey_def cnull_def cdouble_def cstring_code_def cbindata_def coid_def cfalse_def
  ctrue_def cdate_def cmaxkey_def cint_def clong_def cint64_def cHASMORE_def IsBSON_def cCANONTYPEMASK_def

lemma key_elem_eq:
  "key_elem bits v = (if compact v then Some ((key_tag v OR bits) # key_payload v) else None)"
  by (cases v) (auto simp: code_defs bin_ok_def bin_code_def BinDataLenMax_def Let_def)

text \<open>The tags are few; \<open>cHASMORE\<close> is disjoint from them.\<close>

lemma tag_cases:
  "key_tag v \<in> {1, 2, 14, 11, 10, 8, 7, 12, 6, 0x14, 0x24, 0x34, 4}"
  by (cases v) simp_all

lemma tag_bits:
  assumes "bits = 0 \<or> bits = cHASMORE"
  shows "(key_tag v OR bits) AND 0x3f = key_tag v" "(key_tag v OR bits) AND cHASMORE = bits"
    "(key_tag v OR bits) AND cCANONTYPEMASK = key_tag v AND 0xf" "\<not> bit (key_tag v OR bits) 7"
proof -
  have "\<forall>b \<in> {0, cHASMORE}. \<forall>t \<in> {1, 2, 14, 11, 10, 8, 7, 12, 6, 0x14, 0x24, 0x34, 4}.
      (t OR b) AND 0x3f = t \<and> (t OR b) AND cHASMORE = b \<and> (t OR b) AND cCANONTYPEMASK = t AND 0xf \<and>
      \<not> bit (t OR b) 7"
    by code_simp
  then show "(key_tag v OR bits) AND 0x3f = key_tag v" "(key_tag v OR bits) AND cHASMORE = bits"
      "(key_tag v OR bits) AND cCANONTYPEMASK = key_tag v AND 0xf" "\<not> bit (key_tag v OR bits) 7"
    using tag_cases [of v] assms by blast+
qed

lemma tag_compact:
  assumes "bits = 0 \<or> bits = cHASMORE" "bits' = 0 \<or> bits' = cHASMORE"
  shows "key_tag v OR bits \<noteq> IsBSON" "(key_tag v OR bits) OR (key_tag w OR bits') \<noteq> IsBSON"
proof -
  have "bit IsBSON 7" by code_simp
  moreover have "\<not> bit (key_tag v OR bits) 7" "\<not> bit (key_tag w OR bits') 7"
    using tag_bits(4) assms by blast+
  ultimately show "key_tag v OR bits \<noteq> IsBSON" "(key_tag v OR bits) OR (key_tag w OR bits') \<noteq> IsBSON"
    by (metis bit_or_iff)+
qed

text \<open>The tables of the binary lengths, and the two nibbles of the second byte.\<close>

definition subtypes :: "byte list" where
  "subtypes = [0, 1, 2, 3, 4, 5, 6, 7, 128, 129, 130, 131, 132, 133, 134, 135]"

lemma subtype_range: "t AND 0x78 = (0 :: byte) \<Longrightarrow> t \<in> set subtypes"
proof -
  assume t: "t AND 0x78 = 0"
  have "\<forall>n \<in> set [0..<256]. (of_nat n :: byte) AND 0x78 = 0 \<longrightarrow> (of_nat n :: byte) \<in> set subtypes"
    by code_simp
  moreover have "unat t \<in> set [0..<256]" using unsigned_less [of t, where ?'a = nat] by simp
  ultimately have "(of_nat (unat t) :: byte) AND 0x78 = 0 \<longrightarrow> (of_nat (unat t) :: byte) \<in> set subtypes" by blast
  then show ?thesis using t by simp
qed

lemma bin_code_table:
  "\<forall>t \<in> set subtypes. \<forall>n \<in> set [0..<33]. 0 \<le> BinDataLengthToCode ! n \<longrightarrow>
     binDataCodeToLength (bin_code t n) = n \<and>
     (let s = bin_code t n AND 0x0f in if s AND 8 \<noteq> 0 then (s AND 7) OR 0x80 else s) = t"
  by code_simp

lemma bin_code_decode:
  assumes "bin_ok t n"
  shows "binDataCodeToLength (bin_code t n) = n"
    "(let s = bin_code t n AND 0x0f in if s AND 8 \<noteq> 0 then (s AND 7) OR 0x80 else s) = t"
  using assms bin_code_table subtype_range [of t] by (auto simp: bin_ok_def simp del: upt_Suc)

lemma uncons_Cons [simp]: "uncons (x # xs) = Some (x, xs)"
  by simp

lemma cast_int_exact: "cast_dbl_int (dbl_of_bits (dbl_bits_of_int (sint n))) = Some (n :: u32)"
proof -
  have r: "- (2 ^ 31) \<le> sint n" "sint n < 2 ^ 31" using sint_greater_eq [of n] sint_less [of n] by simp_all
  then have "\<bar>sint n\<bar> < 2 ^ 53" by simp
  from dbl_of_bits_of_int [OF this] r show ?thesis by (simp add: cast_dbl_int_def)
qed

lemma cast_long_exact:
  "\<bar>sint n\<bar> < 2 ^ 53 \<Longrightarrow> cast_dbl_long (dbl_of_bits (dbl_bits_of_int (sint n))) = Some (n :: u64)"
  using dbl_of_bits_of_int [of "sint n"] sint_greater_eq [of n] sint_less [of n] by (simp add: cast_dbl_long_def)

lemma unat_byte: "n \<le> 255 \<Longrightarrow> unat (of_nat n :: byte) = n"
  by (simp add: unsigned_of_nat take_bit_nat_eq_self)

lemma toBson_elem_payload:
  assumes "compact v" "wf_value v"
  shows "toBson_elem (key_tag v) (key_payload v @ r) = Some (v, r)"
proof (cases v)
  case (BinDataV t d)
  with assms show ?thesis
    using bin_code_decode [of t "length d"]
    by (simp add: toBson_elem_def code_defs)
qed (use assms in \<open>simp_all add: toBson_elem_def code_defs cast_int_exact cast_long_exact unat_byte
    del: le_bytes.simps\<close>)

section \<open>Decoding an encoded key\<close>

text \<open>The bytes of a key by its elements.\<close>

fun key_bytes :: "bson \<Rightarrow> byte list" where
  "key_bytes [] = []"
| "key_bytes ((_, v) # es) = (key_tag v OR (if es = [] then 0 else cHASMORE)) # key_payload v @ key_bytes es"

definition compact_obj :: "bson \<Rightarrow> bool" where
  "compact_obj obj \<longleftrightarrow> obj \<noteq> [] \<and> (\<forall>e \<in> set obj. compact (snd e))"

lemma key_elems_eq: "key_elems obj = (if compact_obj obj then Some (key_bytes obj) else None)"
  by (induction obj rule: key_elems.induct) (auto simp: compact_obj_def key_elem_eq)

lemma KeyV1Owned_eq: "KeyV1Owned obj = (if compact_obj obj then key_bytes obj else traditional obj)"
  by (simp add: KeyV1Owned_def key_elems_eq)

lemma wf_elems_iff: "wf_elems es \<longleftrightarrow> (\<forall>(n, v) \<in> set es. 0 \<notin> set n \<and> wf_value v)"
  by (induction es) auto

lemma toBson_loop_bytes:
  assumes "obj \<noteq> []" "\<forall>e \<in> set obj. compact (snd e) \<and> wf_value (snd e)"
  shows "toBson_loop (key_bytes obj @ r) = Some (map (\<lambda>e. ([], snd e)) obj)"
  using assms
proof (induction obj)
  case (Cons e es)
  obtain n v where e: "e = (n, v)" by fastforce
  define bits where "bits = (if es = [] then 0 else cHASMORE)"
  have bits: "bits = 0 \<or> bits = cHASMORE" by (simp add: bits_def)
  have more: "bits = 0 \<longleftrightarrow> es = []" by (simp add: bits_def cHASMORE_def)
  have "toBson_elem (key_tag v) (key_payload v @ key_bytes es @ r) = Some (v, key_bytes es @ r)"
    using Cons.prems e by (intro toBson_elem_payload) auto
  then have "toBson_loop (key_bytes (e # es) @ r) =
      (if es = [] then Some [([], v)] else map_option ((#) ([], v)) (toBson_loop (key_bytes es @ r)))"
    using tag_bits [OF bits, of v] more by (subst toBson_loop.simps) (simp add: e bits_def [symmetric])
  then show ?case using Cons e by auto
qed simp

lemma key_bytes_compact: "obj \<noteq> [] \<Longrightarrow> key_bytes obj \<noteq> [] \<and> isCompactFormat (key_bytes obj @ r)"
  using tag_compact(1) [of "if tl obj = [] then 0 else cHASMORE" 0 "snd (hd obj)"]
  by (cases obj) (auto simp: isCompactFormat_def)

lemma toBson_KeyV1Owned:
  assumes "wf_obj obj"
  shows "toBson (KeyV1Owned obj @ r) =
    Some (if compact_obj obj then map (\<lambda>e. ([], snd e)) obj else obj)"
proof (cases "compact_obj obj")
  case True
  then have ne: "obj \<noteq> []" and ok: "\<forall>e \<in> set obj. compact (snd e) \<and> wf_value (snd e)"
    using assms by (auto simp: compact_obj_def wf_obj_def wf_elems_iff)
  from True key_bytes_compact [OF ne] toBson_loop_bytes [OF ne ok] show ?thesis
    by (simp add: toBson_def KeyV1Owned_eq)
next
  case False
  then show ?thesis using dec_enc_obj [OF assms, of r]
    by (simp add: toBson_def KeyV1Owned_eq traditional_def isCompactFormat_def)
qed

lemma sizeOfElement_bytes:
  assumes "compact v" "wf_value v" "bits = 0 \<or> bits = cHASMORE"
  shows "sizeOfElement (((key_tag v OR bits) # key_payload v) @ r) = Some (1 + length (key_payload v))"
proof -
  have t: "(key_tag v OR bits) AND cCANONTYPEMASK = key_tag v AND 0xf" using assms(3) by (rule tag_bits)
  show ?thesis
  proof (cases v)
    case (BinDataV t d)
    with assms t show ?thesis
      using bin_code_decode(1) [of t "length d"] by (simp add: sizeOfElement_def sizes_def code_defs)
  qed (use assms t in \<open>auto simp: sizeOfElement_def sizes_def code_defs unat_byte simp del: le_bytes.simps\<close>)
qed

lemma dataSize_loop_bytes:
  assumes "obj \<noteq> []" "\<forall>e \<in> set obj. compact (snd e) \<and> wf_value (snd e)"
  shows "dataSize_loop (key_bytes obj @ r) = Some (length (key_bytes obj))"
  using assms
proof (induction obj)
  case (Cons e es)
  obtain n v where e: "e = (n, v)" by fastforce
  define bits where "bits = (if es = [] then 0 else cHASMORE)"
  have bits: "bits = 0 \<or> bits = cHASMORE" by (simp add: bits_def)
  have more: "bits = 0 \<longleftrightarrow> es = []" by (simp add: bits_def cHASMORE_def)
  have b: "key_bytes (e # es) @ r = ((key_tag v OR bits) # key_payload v) @ key_bytes es @ r"
    by (simp add: e bits_def)
  have "sizeOfElement (((key_tag v OR bits) # key_payload v) @ key_bytes es @ r) = Some (1 + length (key_payload v))"
    using Cons.prems e bits by (intro sizeOfElement_bytes) auto
  then have "dataSize_loop (key_bytes (e # es) @ r) =
      (if es = [] then Some (1 + length (key_payload v))
       else map_option ((+) (1 + length (key_payload v))) (dataSize_loop (key_bytes es @ r)))"
    unfolding b using tag_bits(2) [OF bits, of v] more by (subst dataSize_loop.simps) simp
  then show ?case using Cons e by auto
qed simp

lemma dataSize_KeyV1Owned:
  assumes "wf_obj obj"
  shows "dataSize (KeyV1Owned obj @ r) = Some (length (KeyV1Owned obj))"
proof (cases "compact_obj obj")
  case True
  then have ne: "obj \<noteq> []" and ok: "\<forall>e \<in> set obj. compact (snd e) \<and> wf_value (snd e)"
    using assms by (auto simp: compact_obj_def wf_obj_def wf_elems_iff)
  from True key_bytes_compact [OF ne] dataSize_loop_bytes [OF ne ok] show ?thesis
    by (simp add: dataSize_def KeyV1Owned_eq)
next
  case False
  have "unat (of_nat (length (enc_elems obj) + 5) :: u32) = length (enc_elems obj) + 5"
    using assms by (intro unat_of_nat_u32) (simp add: wf_obj_def enc_obj_def)
  with False show ?thesis
    by (simp add: dataSize_def KeyV1Owned_eq traditional_def isCompactFormat_def enc_obj_def frame_def
        del: le_bytes.simps of_nat_add)
qed

section \<open>Comparing encoded keys\<close>

definition nib :: "bson_value \<Rightarrow> byte" where
  "nib v = key_tag v AND 0xf"

lemma nib_simps:
  "nib MinKeyV = 1" "nib NullV = 2" "nib MaxKeyV = 14" "nib (BoolV b) = (if b then 11 else 10)"
  "nib (OIDV i) = 8" "nib (BinDataV t d) = 7" "nib (DateV l) = 12" "nib (StringV s) = 6"
  "nib (IntV n) = 4" "nib (LongV l) = 4" "nib (DoubleV l) = 4"
  by (simp_all add: nib_def)

lemma compact_cases:
  assumes "compact v"
  obtains "v = MinKeyV" | "v = NullV" | "v = MaxKeyV" | b where "v = BoolV b" | i where "v = OIDV i"
    | t d where "v = BinDataV t d" "bin_ok t (length d)" | l where "v = DateV l"
    | s where "v = StringV s" "length s \<le> 255" | n where "v = IntV n" | m where "v = LongV m"
    | d where "v = DoubleV d" "\<not> isNaN (dbl_of_bits d)"
  using assms by (cases v) simp_all

lemma nib_order:
  assumes "compact v" "compact w" "canonicalType v \<noteq> canonicalType w"
  shows "sgn (uint (nib v) - uint (nib w)) = sgn (canonicalType v - canonicalType w)"
  using assms(1)
proof (cases v rule: compact_cases)
qed (use assms(2,3) in \<open>cases w rule: compact_cases; simp add: nib_simps\<close>)+

text \<open>A number of a key as its stored double, and when a large integer stays readable.\<close>

definition large :: "bson_value \<Rightarrow> bool" where
  "large v \<longleftrightarrow> (case v of LongV n \<Rightarrow> 2 ^ 53 \<le> \<bar>sint n\<bar> | _ \<Rightarrow> False)"

definition stored :: "bson_value \<Rightarrow> u64" where
  "stored v = (case v of IntV n \<Rightarrow> dbl_bits_of_int (sint n)
     | LongV n \<Rightarrow> (if \<bar>sint n\<bar> < 2 ^ 53 then dbl_bits_of_int (sint n) else n)
     | DoubleV d \<Rightarrow> d | _ \<Rightarrow> 0)"

lemma number_payload: "isNumber v \<Longrightarrow> key_payload v = le_bytes 8 (stored v)"
  by (cases v) (simp_all add: stored_def del: le_bytes.simps)

lemma number_tag:
  assumes "isNumber v" "bits = 0 \<or> bits = cHASMORE" "large v \<Longrightarrow> bits = 0"
  shows "key_tag v OR bits = cint64 \<longleftrightarrow> large v"
  using assms by (cases v) (auto simp: large_def code_defs)

lemma stored_value:
  "isNumber v \<Longrightarrow> (if large v then dbl_of_int (sint (stored v)) else dbl_of_bits (stored v)) = numberDouble v"
proof (cases v)
  case (IntV n)
  have "\<bar>sint n\<bar> < 2 ^ 53" using sint_greater_eq [of n] sint_less [of n] by (simp add: abs_if)
  with IntV show ?thesis by (simp add: large_def stored_def dbl_of_bits_of_int dbl_of_int_exact)
qed (auto simp: large_def stored_def dbl_of_bits_of_int dbl_of_int_exact)

lemma isNaN_number: "compact v \<Longrightarrow> isNumber v \<Longrightarrow> numberDouble v \<noteq> NaN"
  by (cases v) (auto simp: dbl_of_int_def)

lemma dbl_cmp_ordered:
  "L \<noteq> NaN \<Longrightarrow> (if dbl_lt L R then -1 else if \<not> dbl_eq L R then 1 else 0) = dbl_cmp L R"
  by (cases L) (auto simp: dbl_cmp_def dbl_eq_def)

text \<open>A large integer and a small one compare alike as integers and as doubles.\<close>

lemma large_small:
  assumes "2 ^ 53 \<le> \<bar>i\<bar>" "\<bar>j\<bar> < 2 ^ 53"
  shows "dbl_cmp (dbl_of_int i) (dbl_of_int j) = icmp i j"
proof -
  have j: "dbl_of_int j = Fin (j * dbl_scale)" using assms(2) by (rule dbl_of_int_exact)
  have r: "dbl_cmp (dbl_of_int i) (dbl_of_int j) = icmp (round53 i) j"
    by (simp add: j) (simp add: dbl_of_int_def)
  have jb: "j < 2 ^ 53" "- (2 ^ 53) < j" using assms(2) by linarith+
  show ?thesis
  proof (cases "0 \<le> i")
    case True
    then have i: "2 ^ 53 \<le> i" using assms(1) by linarith
    have "j < round53 i" "j < i" using round53_large [OF i] i jb by linarith+
    then show ?thesis unfolding r by (simp add: icmp_def)
  next
    case False
    then have i: "2 ^ 53 \<le> - i" using assms(1) by linarith
    have "round53 i < j" "i < j" using round53_large [OF i] i jb by (simp_all add: round53_neg)
    then show ?thesis unfolding r by (simp add: icmp_def)
  qed
qed

lemma number_compare:
  assumes num: "isNumber v" "isNumber w" and ok: "compact v" "compact w"
    and b: "bv = 0 \<or> bv = cHASMORE" "bw = 0 \<or> bw = cHASMORE"
    and last: "large v \<Longrightarrow> bv = 0" "large w \<Longrightarrow> bw = 0"
  shows "compare_double (key_tag v OR bv) (key_tag w OR bw) (stored v) (stored w) = compareElementValues v w"
proof -
  have t: "key_tag v OR bv = cint64 \<longleftrightarrow> large v" "key_tag w OR bw = cint64 \<longleftrightarrow> large w"
    using number_tag [OF num(1) b(1) last(1)] number_tag [OF num(2) b(2) last(2)] by blast+
  note n = isNaN_number [OF ok(1) num(1)]
  show ?thesis
  proof (cases "large v \<and> large w")
    case True
    then obtain i j where "v = LongV i" "w = LongV j" "stored v = i" "stored w = j"
      by (auto simp: large_def stored_def split: bson_value.splits)
    with True t show ?thesis by (simp add: compare_double_def icmp_def)
  next
    case False
    then have "compare_double (key_tag v OR bv) (key_tag w OR bw) (stored v) (stored w) =
        dbl_cmp (numberDouble v) (numberDouble w)"
      by (simp only: compare_double_def t if_False Let_def stored_value [OF num(1)] stored_value [OF num(2)]
          dbl_cmp_ordered [OF n])
    also have "\<dots> = compareElementValues v w"
    proof (cases "\<exists>i j. v = LongV i \<and> w = LongV j")
      case True
      then obtain i j where vw: "v = LongV i" "w = LongV j" by blast
      consider "\<not> large v" "\<not> large w" | "large v" "\<not> large w" | "\<not> large v" "large w" using False by blast
      then show ?thesis
      proof cases
        case 1
        then show ?thesis by (simp add: vw large_def not_le dbl_of_int_exact)
      next
        case 2
        then show ?thesis by (simp add: vw large_def not_le large_small)
      next
        case 3
        then have "dbl_cmp (dbl_of_int (sint j)) (dbl_of_int (sint i)) = icmp (sint j) (sint i)"
          by (intro large_small) (simp_all add: vw large_def not_le)
        then show ?thesis
          using dbl_cmp_antisym [of "dbl_of_int (sint j)" "dbl_of_int (sint i)"] icmp_antisym [of "sint j" "sint i"]
          by (simp add: vw)
      qed
    next
      case False
      have "\<bar>sint (i :: u32)\<bar> < 2 ^ 53" for i
        using sint_greater_eq [of i] sint_less [of i] by (simp add: abs_if)
      with False num show ?thesis by (cases v; cases w) (simp_all add: dbl_of_int_exact)
    qed
    finally show ?thesis .
  qed
qed

text \<open>One step of \<open>compare\<close> on the bytes of two elements.\<close>

definition key_elem_bytes :: "bson_value \<Rightarrow> byte \<Rightarrow> byte list" where
  "key_elem_bytes v bits = (key_tag v OR bits) # key_payload v"

lemma key_compare_types:
  assumes "bv = 0 \<or> bv = cHASMORE" "bw = 0 \<or> bw = cHASMORE" "nib v \<noteq> nib w"
  shows "key_compare (key_elem_bytes v bv @ l) (key_elem_bytes w bw @ r) =
    Some (uint (nib v) - uint (nib w), key_payload v @ l, key_payload w @ r)"
proof -
  have "uint (key_tag v AND 15) - uint (key_tag w AND 15) \<noteq> 0"
    using assms(3) by (simp add: nib_def word_uint_eq_iff)
  then show ?thesis
    using tag_bits(3) [OF assms(1), of v] tag_bits(3) [OF assms(2), of w]
    by (simp add: key_compare_def key_elem_bytes_def nib_def Let_def)
qed

lemma key_compare_number:
  assumes "nib v = 4" "nib w = 4" "bv = 0 \<or> bv = cHASMORE" "bw = 0 \<or> bw = cHASMORE" "isNumber v" "isNumber w"
  shows "key_compare (key_elem_bytes v bv @ l) (key_elem_bytes w bw @ r) =
    Some (compare_double (key_tag v OR bv) (key_tag w OR bw) (stored v) (stored w), l, r)"
  using assms tag_bits(3) [OF assms(3), of v] tag_bits(3) [OF assms(4), of w]
  by (simp add: key_compare_def key_elem_bytes_def nib_def Let_def number_payload cdouble_def del: le_bytes.simps)

lemma key_compare_string:
  assumes "length s \<le> 255" "length t \<le> 255" "bv = 0 \<or> bv = cHASMORE" "bw = 0 \<or> bw = cHASMORE"
  shows "\<exists>c l' r'. key_compare (key_elem_bytes (StringV s) bv @ l) (key_elem_bytes (StringV t) bw @ r) =
    Some (c, l', r') \<and> sgn c = lexcmp s t \<and> (c = 0 \<longrightarrow> l' = l \<and> r' = r)"
proof -
  have m: "memcmp (take (min (length s) (length t)) (s @ l)) (take (min (length s) (length t)) (t @ r)) = memcmp s t"
    using memcmp_common [of s t] by simp
  have c: "sgn (lex (memcmp s t) (int (length s) - int (length t))) = lexcmp s t" by (rule memcmp_lex_length)
  have u: "unat (of_nat (length s) :: byte) = length s" "unat (of_nat (length t) :: byte) = length t"
    "uint (of_nat (length s) :: byte) = int (length s)" "uint (of_nat (length t) :: byte) = int (length t)"
    using assms unat_byte by (simp_all add: uint_nat)
  show ?thesis
    using tag_bits(3) [OF assms(3), of "StringV s"] tag_bits(3) [OF assms(4), of "StringV t"] m c u
    by (auto simp: key_compare_def key_elem_bytes_def Let_def code_defs read_n_def lex_def)
qed

lemma bin_code_order:
  assumes "bin_ok t n" "bin_ok t' n"
  shows "uint (bin_code t n) - uint (bin_code t' n) = uint (bin_code t 0) - uint (bin_code t' 0)"
    "bin_code t 0 < bin_code t' 0 \<longleftrightarrow> t < t'"
proof -
  have "\<forall>t \<in> set subtypes. \<forall>n \<in> set [0..<33]. 0 \<le> BinDataLengthToCode ! n \<longrightarrow>
      uint (bin_code t n) = BinDataLengthToCode ! n + uint (bin_code t 0)"
    by code_simp
  then show "uint (bin_code t n) - uint (bin_code t' n) = uint (bin_code t 0) - uint (bin_code t' 0)"
    using assms subtype_range [of t] subtype_range [of t'] by (simp add: bin_ok_def del: upt_Suc)
  have "\<forall>t \<in> set subtypes. \<forall>t' \<in> set subtypes. bin_code t 0 < bin_code t' 0 \<longleftrightarrow> t < t'"
    by code_simp
  then show "bin_code t 0 < bin_code t' 0 \<longleftrightarrow> t < t'"
    using assms subtype_range [of t] subtype_range [of t'] by (simp add: bin_ok_def)
qed

lemma key_compare_bindata:
  assumes ok: "bin_ok t (length d)" "bin_ok t' (length d')" and b: "bv = 0 \<or> bv = cHASMORE" "bw = 0 \<or> bw = cHASMORE"
  shows "\<exists>c l' r'. key_compare (key_elem_bytes (BinDataV t d) bv @ l) (key_elem_bytes (BinDataV t' d') bw @ r) =
    Some (c, l', r') \<and> sgn c = sgn (compareElementValues (BinDataV t d) (BinDataV t' d')) \<and>
    (c = 0 \<longrightarrow> l' = l \<and> r' = r)"
proof -
  let ?L = "bin_code t (length d)" and ?R = "bin_code t' (length d')"
  note len = bin_code_decode(1) [OF ok(1)] bin_code_decode(1) [OF ok(2)]
  have k: "key_compare (key_elem_bytes (BinDataV t d) bv @ l) (key_elem_bytes (BinDataV t' d') bw @ r) =
      (if ?L \<noteq> ?R
       then Some (if length d \<noteq> length d' then int (length d) - int (length d') else uint ?L - uint ?R, d @ l, d' @ r)
       else Some (memcmp d d', l, r))"
  proof (cases "?L = ?R")
    case True
    then have "length d' = length d" using len by metis
    with True show ?thesis
      using tag_bits(3) [OF b(1), of "BinDataV t d"] tag_bits(3) [OF b(2), of "BinDataV t' d'"] len
      by (simp add: key_compare_def key_elem_bytes_def Let_def code_defs)
  next
    case False
    then have "uint ?L - uint ?R \<noteq> 0" by (simp add: word_uint_eq_iff)
    with False show ?thesis
      using tag_bits(3) [OF b(1), of "BinDataV t d"] tag_bits(3) [OF b(2), of "BinDataV t' d'"] len
      by (simp add: key_compare_def key_elem_bytes_def Let_def code_defs)
  qed
  show ?thesis
  proof (cases "length d = length d'")
    case False
    then have "?L \<noteq> ?R" using len by metis
    with False show ?thesis unfolding k by (simp add: lex_def)
  next
    case True
    note o = bin_code_order [OF ok(1) ok(2) [folded True]] bin_code_order(2) [OF ok(2) [folded True] ok(1)]
    have "sgn (uint ?L - uint ?R) = (if t < t' then -1 else if t' < t then 1 else 0)"
      using o unfolding True [symmetric] by (auto simp: word_less_def sgn_if)
    moreover have "?L = ?R \<longleftrightarrow> \<not> t < t' \<and> \<not> t' < t"
      using o unfolding True [symmetric] by (auto simp: word_less_def word_uint_eq_iff)
    ultimately show ?thesis
      using True unfolding k by (auto simp: lex_def)
  qed
qed

lemma key_compare_elem:
  assumes ok: "compact v" "compact w" "wf_value v" "wf_value w"
    and b: "bv = 0 \<or> bv = cHASMORE" "bw = 0 \<or> bw = cHASMORE"
    and last: "large v \<Longrightarrow> bv = 0" "large w \<Longrightarrow> bw = 0"
  shows "\<exists>c l' r'. key_compare (key_elem_bytes v bv @ l) (key_elem_bytes w bw @ r) = Some (c, l', r') \<and>
    sgn c = sgn (elem_woCompare (m, v) (n, w) False) \<and> (c = 0 \<longrightarrow> l' = l \<and> r' = r)"
proof -
  have e: "elem_woCompare (m, v) (n, w) False = lex (canonicalType v - canonicalType w) (compareElementValues v w)"
    by (simp add: elem_woCompare_lex)
  show ?thesis
  proof (cases "nib v = nib w")
    case False
    then have k: "key_compare (key_elem_bytes v bv @ l) (key_elem_bytes w bw @ r) =
        Some (uint (nib v) - uint (nib w), key_payload v @ l, key_payload w @ r)"
      by (rule key_compare_types [OF b])
    have "sgn (uint (nib v) - uint (nib w)) = sgn (elem_woCompare (m, v) (n, w) False)"
    proof (cases "canonicalType v = canonicalType w")
      case True
      show ?thesis unfolding e
        by (rule compact_cases [OF ok(1)]; rule compact_cases [OF ok(2)])
          (use True False in \<open>auto simp: nib_simps lex_def\<close>)
    next
      case False
      with nib_order [OF ok(1,2) False] show ?thesis unfolding e by (simp add: lex_def)
    qed
    with k False show ?thesis by (simp add: word_uint_eq_iff)
  next
    case True
    consider "isNumber v" "isNumber w"
      | s t where "v = StringV s" "w = StringV t" "length s \<le> 255" "length t \<le> 255"
      | x d y d' where "v = BinDataV x d" "w = BinDataV y d'" "bin_ok x (length d)" "bin_ok y (length d')"
      | i j where "v = OIDV i" "w = OIDV j"
      | p q where "v = DateV p" "w = DateV q"
      | "v = w" "v \<in> {MinKeyV, NullV, MaxKeyV, BoolV True, BoolV False}"
      by (rule compact_cases [OF ok(1)]; rule compact_cases [OF ok(2)])
        (use True in \<open>auto simp: nib_simps split: if_splits\<close>)
    then show ?thesis
    proof cases
      case 1
      then have nb: "nib v = 4" "nib w = 4" by (cases v; cases w; simp add: nib_simps)+
      show ?thesis
        using key_compare_number [OF nb b 1] number_compare [OF 1 ok(1,2) b last] 1
        by (simp add: e lex_def isNumber_canonical)
    next
      case 2
      then show ?thesis using key_compare_string [OF 2(3,4) b] unfolding e by (simp add: lex_def)
    next
      case 3
      then show ?thesis using key_compare_bindata [OF 3(3,4) b] unfolding e by (simp add: lex_def)
    next
      case 4
      then show ?thesis
        using ok(3,4) tag_bits(3) [OF b(1), of v] tag_bits(3) [OF b(2), of w] unfolding e
        by (simp add: key_compare_def key_elem_bytes_def Let_def code_defs lex_def)
    next
      case 5
      then show ?thesis
        using tag_bits(3) [OF b(1), of v] tag_bits(3) [OF b(2), of w] unfolding e
        by (simp add: key_compare_def key_elem_bytes_def Let_def code_defs lex_def icmp_def del: le_bytes.simps)
    next
      case 6
      then show ?thesis
        using tag_bits(3) [OF b(1), of v] tag_bits(3) [OF b(2), of w] unfolding e
        by (auto simp: key_compare_def key_elem_bytes_def Let_def code_defs lex_def icmp_def)
    qed
  qed
qed

text \<open>Integers of more than 53 bits only at the end of a key.\<close>

fun large_last :: "bson \<Rightarrow> bool" where
  "large_last [] = True"
| "large_last [e] = True"
| "large_last (e # f # es) = (\<not> large (snd e) \<and> large_last (f # es))"

lemma large_last_Cons: "large_last (e # es) \<longleftrightarrow> (es = [] \<or> \<not> large (snd e)) \<and> large_last es"
  by (cases es) auto

lemma key_bytes_Cons:
  "key_bytes ((n, v) # es) = key_elem_bytes v (if es = [] then 0 else cHASMORE) @ key_bytes es"
  by (simp add: key_elem_bytes_def)

abbreviation key_ok :: "bson \<Rightarrow> bool" where
  "key_ok obj \<equiv> (\<forall>e \<in> set obj. compact (snd e) \<and> wf_value (snd e)) \<and> large_last obj"

lemma key_loop:
  assumes "ls \<noteq> []" "rs \<noteq> []" "key_ok ls" "key_ok rs"
  shows "\<exists>c. key_woCompare_loop ord i (key_bytes ls @ p) (key_bytes rs @ q) = Some c \<and>
    sgn c = sgn (woCompare_loop ord False i ls rs)"
  using assms
proof (induction ls arbitrary: rs i)
  case (Cons e ls)
  obtain f rs' where rs: "rs = f # rs'" using Cons.prems(2) by (cases rs) auto
  obtain n v m w where ef: "e = (n, v)" "f = (m, w)" by fastforce
  let ?bv = "if ls = [] then 0 else cHASMORE" and ?bw = "if rs' = [] then 0 else cHASMORE"
  have bv: "?bv = 0 \<or> ?bv = cHASMORE" and bw: "?bw = 0 \<or> ?bw = cHASMORE" by simp_all
  have last: "large v \<Longrightarrow> ?bv = 0" "large w \<Longrightarrow> ?bw = 0"
    using Cons.prems(3,4) ef rs by (auto simp: large_last_Cons)
  have "compact v" "compact w" "wf_value v" "wf_value w" using Cons.prems(3,4) ef rs by auto
  then obtain c l' r' where k: "key_compare (key_elem_bytes v ?bv @ key_bytes ls @ p) (key_elem_bytes w ?bw @ key_bytes rs' @ q) =
        Some (c, l', r')" "sgn c = sgn (elem_woCompare e f False)" "c = 0 \<longrightarrow> l' = key_bytes ls @ p \<and> r' = key_bytes rs' @ q"
    using key_compare_elem [OF _ _ _ _ bv bw last] unfolding ef by blast
  have b: "key_bytes (e # ls) @ p = key_elem_bytes v ?bv @ key_bytes ls @ p"
    "key_bytes rs @ q = key_elem_bytes w ?bw @ key_bytes rs' @ q"
    unfolding ef rs key_bytes_Cons by simp_all
  have more: "hd (key_elem_bytes v ?bv @ x) AND cHASMORE = ?bv" "hd (key_elem_bytes w ?bw @ y) AND cHASMORE = ?bw" for x y
    using tag_bits(2) [OF bv, of v] tag_bits(2) [OF bw, of w] by (simp_all add: key_elem_bytes_def)
  have step: "key_woCompare_loop ord i (key_bytes (e # ls) @ p) (key_bytes rs @ q) =
      (if c \<noteq> 0 then Some (if descending ord i then - c else c)
       else if uint ?bv - uint ?bw \<noteq> 0 then Some (uint ?bv - uint ?bw)
       else if ls = [] then Some 0
       else key_woCompare_loop ord (i + 1) (key_bytes ls @ p) (key_bytes rs' @ q))"
    unfolding b by (subst key_woCompare_loop.simps) (use k more in \<open>auto simp: Let_def cHASMORE_def\<close>)
  show ?case
  proof (cases "c = 0")
    case False
    then have "elem_woCompare e f False \<noteq> 0" using k(2) by (metis sgn_0 sgn_0_0)
    with False k(2) show ?thesis unfolding step unfolding rs by (simp add: Let_def sgn_minus)
  next
    case True
    then have "elem_woCompare e f False = 0" using k(2) by (metis sgn_0 sgn_0_0)
    moreover have "uint cHASMORE = 0x40" by code_simp
    moreover have "\<exists>c. key_woCompare_loop ord (i + 1) (key_bytes ls @ p) (key_bytes rs' @ q) = Some c \<and>
        sgn c = sgn (woCompare_loop ord False (i + 1) ls rs')" if "ls \<noteq> []" "rs' \<noteq> []"
      using Cons.prems rs that by (intro Cons.IH) (auto simp: large_last_Cons)
    ultimately show ?thesis
      using True unfolding step unfolding rs by (cases ls; cases rs') (auto simp: Let_def)
  qed
qed simp

lemma woCompare_names:
  assumes "map snd l = map snd l'" "map snd r = map snd r'"
  shows "woCompare l r ord False = woCompare l' r' ord False"
proof -
  have "woCompare_loop ord False i l r = woCompare_loop ord False i l' r'" for i
    using assms
  proof (induction l arbitrary: l' r r' i)
    case Nil
    then show ?case by (cases r; cases r') auto
  next
    case (Cons e l)
    then obtain e' l'' where l': "l' = e' # l''" "snd e' = snd e" "map snd l = map snd l''" by (cases l') auto
    show ?case
    proof (cases r)
      case Nil
      then show ?thesis using Cons.prems l' by simp
    next
      case (Cons f r1)
      then obtain f' r1' where r': "r' = f' # r1'" "snd f' = snd f" "map snd r1 = map snd r1'"
        using \<open>map snd r = map snd r'\<close> by (cases r') auto
      have "elem_woCompare e f False = elem_woCompare e' f' False"
        by (simp add: elem_woCompare_def l'(2) r'(2))
      with Cons.IH [OF l'(3) r'(3)] show ?thesis unfolding Cons l'(1) r'(1) by (simp add: Let_def)
    qed
  qed
  then show ?thesis by (simp add: woCompare_is_loop)
qed

lemma IsBSON_or [simp]: "IsBSON OR x = IsBSON" "x OR IsBSON = IsBSON"
proof -
  have m: "IsBSON = - 1" by (simp add: IsBSON_def)
  show "IsBSON OR x = IsBSON" "x OR IsBSON = IsBSON" unfolding m by simp_all
qed

lemma key_woCompare_hybrid:
  assumes "wf_obj x" "wf_obj y" "\<not> compact_obj x \<or> \<not> compact_obj y"
  shows "key_woCompare (KeyV1Owned x @ p) (KeyV1Owned y @ q) ord = Some (woCompare x y ord False)"
proof -
  have ne: "KeyV1Owned z \<noteq> []" for z
    using key_bytes_compact [of z] by (auto simp: KeyV1Owned_eq traditional_def compact_obj_def)
  have "hd (KeyV1Owned x @ p) OR hd (KeyV1Owned y @ q) = IsBSON"
    using assms(3) by (auto simp: KeyV1Owned_eq traditional_def)
  moreover have "woCompare (if compact_obj x then map (\<lambda>e. ([], snd e)) x else x)
      (if compact_obj y then map (\<lambda>e. ([], snd e)) y else y) ord False = woCompare x y ord False"
    by (rule woCompare_names) (auto simp: comp_def)
  ultimately show ?thesis
    using ne by (simp add: key_woCompare_def compareHybrid_def toBson_KeyV1Owned assms(1,2))
qed

lemma key_woCompare_eq:
  assumes "wf_obj x" "wf_obj y" "large_last x" "large_last y"
  shows "\<exists>c. key_woCompare (KeyV1Owned x @ p) (KeyV1Owned y @ q) ord = Some c \<and>
    sgn c = sgn (woCompare x y ord False)"
proof (cases "compact_obj x \<and> compact_obj y")
  case True
  then have ne: "x \<noteq> []" "y \<noteq> []" and ok: "key_ok x" "key_ok y"
    using assms by (auto simp: compact_obj_def wf_obj_def wf_elems_iff)
  obtain n v xs m w ys where xy: "x = (n, v) # xs" "y = (m, w) # ys"
    using ne by (cases x; cases y) auto
  have "hd (key_bytes x @ p) OR hd (key_bytes y @ q) \<noteq> IsBSON"
    using tag_compact(2) [of "if xs = [] then 0 else cHASMORE" "if ys = [] then 0 else cHASMORE" v w]
    by (simp add: xy)
  with True key_loop [OF ne ok, of ord 0 p q] ne show ?thesis
    by (simp add: key_woCompare_def KeyV1Owned_eq key_bytes_compact woCompare_is_loop)
next
  case False
  then show ?thesis using key_woCompare_hybrid [OF assms(1,2)] by blast
qed

section \<open>Properties\<close>

text \<open>
  C1: index keys keep their order: comparing two keys in the compact format, whatever follows them in
  the buffer, has the sign of comparing the objects they were made from without field names, under
  every ordering, when integers of more than 53 bits occur only as the last element of a key.
\<close>

theorem key_order:
  assumes "wf_obj x" "wf_obj y" "large_last x" "large_last y"
  shows "\<exists>c. key_woCompare (KeyV1Owned x @ p) (KeyV1Owned y @ q) ord = Some c \<and>
    sgn c = sgn (woCompare x y ord False)"
  using assms by (rule key_woCompare_eq)

theorem key_order_witness:
  "\<exists>c. key_woCompare (KeyV1Owned [(str ''a'', IntV 1)]) (KeyV1Owned [(str ''a'', StringV (str ''x''))]) 0 = Some c \<and>
     sgn c = sgn (woCompare [(str ''a'', IntV 1)] [(str ''a'', StringV (str ''x''))] 0 False)"
  using key_order [of "[(str ''a'', IntV 1)]" "[(str ''a'', StringV (str ''x''))]" "[]" "[]" 0]
  by (simp add: wf_obj_def enc_obj_def cstring_def sized_string_def str_def of_char_def)

text \<open>
  C3: a key in the compact format decodes to an object with the same values in the same order, and
  \<open>dataSize\<close> is the number of bytes the encoder wrote, whatever follows in the buffer.
\<close>

theorem key_roundtrip:
  assumes "wf_obj obj"
  shows "\<exists>b. toBson (KeyV1Owned obj @ r) = Some b \<and> map snd b = map snd obj \<and>
    dataSize (KeyV1Owned obj @ r) = Some (length (KeyV1Owned obj))"
  using toBson_KeyV1Owned [OF assms, of r] dataSize_KeyV1Owned [OF assms, of r] by (auto simp: comp_def)

theorem key_roundtrip_witness:
  "\<exists>b. toBson (KeyV1Owned [(str ''a'', LongV 5), (str ''b'', BoolV True)] @ [9]) = Some b \<and>
     map snd b = [LongV 5, BoolV True] \<and>
     dataSize (KeyV1Owned [(str ''a'', LongV 5), (str ''b'', BoolV True)] @ [9]) =
       Some (length (KeyV1Owned [(str ''a'', LongV 5), (str ''b'', BoolV True)]))"
  using key_roundtrip [of "[(str ''a'', LongV 5), (str ''b'', BoolV True)]" "[9]"]
  by (simp add: wf_obj_def enc_obj_def cstring_def str_def of_char_def)

lemma Key_pk_make:
  assumes "wf_obj k" "wf_obj pk"
  shows "Key_pk (Key_make k (Some pk)) = Some pk"
  using dataSize_KeyV1Owned [OF assms(1), of "enc_obj pk"] dec_enc_obj [OF assms(2), of "[]"]
  by (simp add: Key_pk_def Key_make_def enc_obj_def)



text \<open>
  An integer of more than 53 bits before the last element is read as if it were a double: 2^53 orders
  before 1.  Equality reads it so even at the end: the largest integer, a NaN pattern, differs from
  itself.
\<close>

lemma large_misordered:
  "key_woCompare (KeyV1Owned [([], LongV (2 ^ 53)), ([], NullV)]) (KeyV1Owned [([], IntV 1), ([], NullV)]) 0 = Some (-1)"
  "woCompare [([], LongV (2 ^ 53)), ([], NullV)] [([], IntV 1), ([], NullV)] 0 False = 1"
proof -
  let ?v = "LongV (2 ^ 53)" and ?w = "IntV 1"
  have one: "dbl_of_bits (dbl_bits_of_int 1) = Fin (1 * dbl_scale)" by (rule dbl_of_bits_of_int) simp
  have big: "dbl_of_bits 9007199254740992 = Fin (2 ^ 53)" by (simp add: dbl_of_bits_def)
  have k: "key_bytes [([], ?v), ([], NullV)] = key_elem_bytes ?v cHASMORE @ key_bytes [([], NullV)]"
    "key_bytes [([], ?w), ([], NullV)] = key_elem_bytes ?w cHASMORE @ key_bytes [([], NullV)]"
    by (simp_all only: key_bytes_Cons) simp_all
  have c: "compare_double (key_tag ?v OR cHASMORE) (key_tag ?w OR cHASMORE) (stored ?v) (stored ?w) = -1"
    by (simp add: compare_double_def code_defs stored_def one big dbl_scale_def)
  have "key_compare (key_bytes [([], ?v), ([], NullV)]) (key_bytes [([], ?w), ([], NullV)]) =
      Some (-1, key_bytes [([], NullV)], key_bytes [([], NullV)])"
    unfolding k by (subst key_compare_number) (use c in \<open>simp_all add: nib_simps del: key_bytes.simps\<close>)
  then show "key_woCompare (KeyV1Owned [([], ?v), ([], NullV)]) (KeyV1Owned [([], ?w), ([], NullV)]) 0 = Some (-1)"
    by (simp add: key_woCompare_def KeyV1Owned_eq compact_obj_def key_woCompare_loop.simps descending_def code_defs)
  have "dbl_of_int 1 = Fin (1 * dbl_scale)" by (rule dbl_of_int_exact) simp
  moreover have "dbl_cmp (dbl_of_int (2 ^ 53)) (dbl_of_int 1) = icmp (2 ^ 53 :: int) 1" by (rule large_small) simp_all
  ultimately show "woCompare [([], ?v), ([], NullV)] [([], ?w), ([], NullV)] 0 False = 1"
    by (simp add: woCompare_def elem_woCompare_lex lex_def descending_def Let_def icmp_def)
qed

lemma large_not_equal_itself:
  "woEqual (KeyV1Owned [([], LongV (2 ^ 63 - 1))]) (KeyV1Owned [([], LongV (2 ^ 63 - 1))]) = Some False"
proof -
  have "dbl_of_bits 9223372036854775807 = NaN" by (simp add: dbl_of_bits_def)
  then show ?thesis
    by (simp add: woEqual_def KeyV1Owned_eq compact_obj_def woEqual_loop.simps woEqual_elem_def dbl_eq_def code_defs
        read_u64_le [of _ "[]", simplified] del: le_bytes.simps)
qed

section \<open>Equality of encoded keys\<close>

lemma bit_le_word:
  "i < LENGTH('a) \<Longrightarrow>
     bit (le_word x :: 'a::len word) i \<longleftrightarrow> i div 8 < length x \<and> bit (x ! (i div 8)) (i mod 8)"
proof (induction x arbitrary: i)
  case (Cons b x)
  show ?case
  proof (cases "i < 8")
    case True
    with Cons.prems show ?thesis by (simp add: bit_simps)
  next
    case False
    then have "i div 8 = Suc ((i - 8) div 8)" "i mod 8 = (i - 8) mod 8" by (simp_all add: le_div_geq le_mod_geq)
    with False Cons.prems Cons.IH [of "i - 8"] show ?thesis by (auto simp: bit_simps dest: bit_imp_le_length)
  qed
qed simp

lemma le_word_inj:
  assumes "(le_word x :: 'a::len word) = le_word y" "length x = length y" "8 * length x \<le> LENGTH('a)"
  shows "x = y"
proof (rule nth_equalityI [OF assms(2)])
  fix i assume i: "i < length x"
  show "x ! i = y ! i"
  proof (rule bit_word_eqI)
    fix j assume "j < LENGTH(8)"
    then have j: "j < 8" by simp
    have "8 * i + j < LENGTH('a)" using i j assms(3) by linarith
    from bit_le_word [OF this, of x] bit_le_word [OF this, of y] assms(1,2) i j
    show "bit (x ! i) j = bit (y ! i) j" by simp
  qed
qed

lemma dbl_eq_cmp: "L \<noteq> NaN \<Longrightarrow> dbl_eq L R \<longleftrightarrow> dbl_cmp L R = 0"
  by (cases L) (auto simp: dbl_cmp_def dbl_eq_def)

lemma memcmp_zero_eq: "length x = length y \<Longrightarrow> memcmp x y = 0 \<longleftrightarrow> x = y"
  by (rule memcmp_eq_0)

lemma read_n_Suc: "length s = n \<Longrightarrow> read_n (Suc n) (x # s @ l) = Some (x # s, l)"
  by (simp add: read_n_def)

text \<open>One element of \<open>woEqual\<close>, on elements with the same type nibble.\<close>

lemma woEqual_elem_eq:
  assumes ok: "compact v" "compact w" "wf_value v" "wf_value w" "\<not> large v" "\<not> large w" and t: "nib v = nib w"
  shows "\<exists>e l' r'. woEqual_elem (nib v) (key_payload v @ l) (key_payload w @ r) = Some (e, l', r') \<and>
    (e \<longleftrightarrow> elem_woCompare (m, v) (n, w) False = 0) \<and> (e \<longrightarrow> l' = l \<and> r' = r)"
proof -
  have e: "elem_woCompare (m, v) (n, w) False = lex (canonicalType v - canonicalType w) (compareElementValues v w)"
    by (simp add: elem_woCompare_lex)
  consider "isNumber v" "isNumber w"
    | s u where "v = StringV s" "w = StringV u" "length s \<le> 255" "length u \<le> 255"
    | x d y d' where "v = BinDataV x d" "w = BinDataV y d'" "bin_ok x (length d)" "bin_ok y (length d')"
    | i j where "v = OIDV i" "w = OIDV j"
    | p q where "v = DateV p" "w = DateV q"
    | "v = w" "v \<in> {MinKeyV, NullV, MaxKeyV, BoolV True, BoolV False}"
    by (rule compact_cases [OF ok(1)]; rule compact_cases [OF ok(2)])
      (use t in \<open>auto simp: nib_simps split: if_splits\<close>)
  then show ?thesis
  proof cases
    case 1
    then have nb: "nib v = 4" by (cases v) (simp_all add: nib_simps)
    have c: "compareElementValues v w = dbl_cmp (numberDouble v) (numberDouble w)"
      using 1 ok(5,6) by (intro cmp_number) (cases v; cases w; simp add: large_def not_le)+
    have s: "dbl_of_bits (stored v) = numberDouble v" "dbl_of_bits (stored w) = numberDouble w"
      using stored_value [OF 1(1)] stored_value [OF 1(2)] ok(5,6) by simp_all
    show ?thesis
      using 1 c s dbl_eq_cmp [OF isNaN_number [OF ok(1) 1(1)]] unfolding e nb
      by (simp add: woEqual_elem_def code_defs number_payload isNumber_canonical lex_def del: le_bytes.simps)
  next
    case 2
    then have "compareElementValues v w = 0 \<longleftrightarrow> s = u" 
      using sgn_str_cmp [of s u] lexcmp_eq_0 [of s u] by (metis compareElementValues.simps(14) sgn_0_0 valuestr.simps(1))
    moreover have "(of_nat (length s) :: byte) = of_nat (length u) \<longleftrightarrow> length s = length u"
      using unat_byte [OF 2(3)] unat_byte [OF 2(4)] by metis
    ultimately show ?thesis
      using 2 unat_byte [OF 2(3)] unat_byte [OF 2(4)] memcmp_eq_0 [of s u] unfolding e
      by (cases "length s = length u")
        (simp_all add: woEqual_elem_def nib_simps code_defs lex_def read_n_Suc, blast)
  next
    case 3
    note dec = bin_code_decode [OF 3(3)] bin_code_decode [OF 3(4)]
    have "bin_code x (length d) = bin_code y (length d') \<longleftrightarrow> x = y \<and> length d = length d'"
      using dec by metis
    moreover have "compareElementValues v w = 0 \<longleftrightarrow> x # d = y # d'"
      using memcmp_eq_0 [of "x # d" "y # d'"] unfolding 3
      by (cases "length d = length d'") (auto simp: lex_def simp del: memcmp.simps)
    moreover have "length d = length d' \<Longrightarrow> memcmp d d' = 0 \<longleftrightarrow> d = d'" by (rule memcmp_eq_0)
    ultimately show ?thesis
      using 3 dec(1,3) unfolding e
      by (cases "length d = length d' \<and> x = y")
        (simp_all add: woEqual_elem_def nib_simps code_defs lex_def read_n_Suc del: compareElementValues.simps, blast)
  next
    case 4
    have i: "length i = 12" "length j = 12" using ok(3,4) 4 by simp_all
    have a: "(le_word (take 4 i) :: u32) = le_word (take 4 j) \<longleftrightarrow> take 4 i = take 4 j"
      using le_word_inj [where ?'a = 32, of "take 4 i" "take 4 j"] i by auto
    have b: "(le_word (take 8 (drop 4 i)) :: u64) = le_word (take 8 (drop 4 j)) \<longleftrightarrow> drop 4 i = drop 4 j"
      using le_word_inj [where ?'a = 64, of "drop 4 i" "drop 4 j"] i by auto
    have "i = j \<longleftrightarrow> take 4 i = take 4 j \<and> drop 4 i = drop 4 j" by (metis append_take_drop_id)
    with a b show ?thesis
      using i memcmp_eq_0 [of i j] unfolding e unfolding 4
      by (auto simp: woEqual_elem_def nib_simps code_defs lex_def read_u32_def read_u64_def read_n_def)
  next
    case 5
    have "sint p = sint q \<longleftrightarrow> p = q" using signed_word_eqI [of p q, where ?'a = int] by blast
    with 5 show ?thesis unfolding e
      by (simp add: woEqual_elem_def nib_simps code_defs lex_def icmp_def del: le_bytes.simps)
  next
    case 6
    then show ?thesis unfolding e
      by (auto simp: woEqual_elem_def nib_simps code_defs lex_def icmp_def)
  qed
qed

lemma nib_bits_eq:
  assumes "bv = 0 \<or> bv = cHASMORE" "bw = 0 \<or> bw = cHASMORE"
  shows "(key_tag v OR bv) AND (cCANONTYPEMASK OR cHASMORE) = (key_tag w OR bw) AND (cCANONTYPEMASK OR cHASMORE) \<longleftrightarrow>
    nib v = nib w \<and> bv = bw"
proof -
  have s: "(key_tag x OR b) AND (cCANONTYPEMASK OR cHASMORE) = nib x OR b" if "b = 0 \<or> b = cHASMORE" for x b
    using tag_bits(2,3) [OF that, of x] by (simp add: nib_def bit.conj_disj_distrib)
  have n: "nib x AND cHASMORE = 0" "nib x AND 0xf = nib x" for x
    using tag_cases [of x] by (auto simp: nib_def code_defs)
  have "(nib x OR b) AND 0xf = nib x" "(nib x OR b) AND cHASMORE = b" if "b = 0 \<or> b = cHASMORE" for x b
    using that n [of x] by (auto simp: bit.conj_disj_distrib2 cHASMORE_def)
  then show ?thesis using assms s by metis
qed

lemma woEqual_loop_eq:
  assumes "ls \<noteq> []" "rs \<noteq> []" "\<forall>e \<in> set ls \<union> set rs. compact (snd e) \<and> wf_value (snd e) \<and> \<not> large (snd e)"
  shows "woEqual_loop (key_bytes ls @ p) (key_bytes rs @ q) = Some (woCompare_loop 0 False i ls rs = 0)"
  using assms
proof (induction ls arbitrary: rs i)
  case (Cons e ls)
  obtain f rs' where rs: "rs = f # rs'" using Cons.prems(2) by (cases rs) auto
  obtain n v m w where ef: "e = (n, v)" "f = (m, w)" by fastforce
  let ?bv = "if ls = [] then 0 else cHASMORE" and ?bw = "if rs' = [] then 0 else cHASMORE"
  have bv: "?bv = 0 \<or> ?bv = cHASMORE" and bw: "?bw = 0 \<or> ?bw = cHASMORE" by simp_all
  have ok: "compact v" "compact w" "wf_value v" "wf_value w" "\<not> large v" "\<not> large w"
    using Cons.prems(3) ef rs by auto
  have more: "?bv = ?bw \<longleftrightarrow> (ls = [] \<longleftrightarrow> rs' = [])" by (simp add: cHASMORE_def)
  show ?case
  proof (cases "nib v = nib w \<and> ?bv = ?bw")
    case False
    have "woCompare_loop 0 False i (e # ls) rs \<noteq> 0"
    proof (cases "nib v = nib w")
      case True
      with False more have "(ls = []) \<noteq> (rs' = [])" by blast
      then show ?thesis unfolding rs by (cases ls; cases rs') (simp_all add: Let_def descending_def)
    next
      case False
      then have "sgn (uint (nib v) - uint (nib w)) = sgn (elem_woCompare e f False)"
        using key_compare_elem [OF ok(1-4), of 0 0 "[]" "[]" n m] key_compare_types [of 0 0 v w "[]" "[]"] ef ok
        by auto
      moreover have "uint (nib v) \<noteq> uint (nib w)" using False by (simp add: word_uint_eq_iff)
      ultimately have "elem_woCompare e f False \<noteq> 0" by (metis diff_0_right eq_iff_diff_eq_0 sgn_0 sgn_0_0)
      then show ?thesis unfolding rs by (simp add: Let_def descending_def)
    qed
    with False show ?thesis
      unfolding rs ef using nib_bits_eq [OF bv bw, of v w] by (subst woEqual_loop.simps) simp
  next
    case True
    obtain eq l' r' where k: "woEqual_elem (nib v) (key_payload v @ key_bytes ls @ p) (key_payload w @ key_bytes rs' @ q) =
        Some (eq, l', r')" "eq \<longleftrightarrow> elem_woCompare e f False = 0" "eq \<longrightarrow> l' = key_bytes ls @ p \<and> r' = key_bytes rs' @ q"
      using woEqual_elem_eq [OF ok, of "key_bytes ls @ p" "key_bytes rs' @ q" n m] True ef by blast
    have step: "woEqual_loop (key_bytes (e # ls) @ p) (key_bytes rs @ q) =
        (if \<not> eq then Some False else if ls = [] then Some True
         else woEqual_loop (key_bytes ls @ p) (key_bytes rs' @ q))"
      unfolding rs ef using nib_bits_eq [OF bv bw, of v w] True k tag_bits(2,3) [OF bv, of v]
      by (subst woEqual_loop.simps) (auto simp: nib_def cHASMORE_def)
    have "woEqual_loop (key_bytes ls @ p) (key_bytes rs' @ q) = Some (woCompare_loop 0 False (i + 1) ls rs' = 0)"
      if "ls \<noteq> []" using Cons.prems rs that True more by (intro Cons.IH) auto
    then show ?thesis
      using k(2) True more unfolding step unfolding rs by (cases ls; cases rs') (auto simp: Let_def descending_def)
  qed
qed simp

text \<open>
  C29: two compact keys without integers of more than 53 bits are equal under \<open>woEqual\<close> exactly when
  comparing their objects without names gives 0.
\<close>

theorem key_equality:
  assumes "wf_obj x" "wf_obj y" "compact_obj x" "compact_obj y" "\<forall>e \<in> set x \<union> set y. \<not> large (snd e)"
  shows "woEqual (KeyV1Owned x @ p) (KeyV1Owned y @ q) = Some (woCompare x y 0 False = 0)"
proof -
  have ne: "x \<noteq> []" "y \<noteq> []" using assms(3,4) by (simp_all add: compact_obj_def)
  have ok: "\<forall>e \<in> set x \<union> set y. compact (snd e) \<and> wf_value (snd e) \<and> \<not> large (snd e)"
    using assms by (auto simp: compact_obj_def wf_obj_def wf_elems_iff)
  obtain n v xs m w ys where xy: "x = (n, v) # xs" "y = (m, w) # ys"
    using ne by (cases x; cases y) auto
  have "hd (key_bytes x @ p) OR hd (key_bytes y @ q) \<noteq> IsBSON"
    using tag_compact(2) [of "if xs = [] then 0 else cHASMORE" "if ys = [] then 0 else cHASMORE" v w]
    by (simp add: xy)
  with woEqual_loop_eq [OF ne ok, of p q 0] ne assms(3,4) show ?thesis
    by (simp add: woEqual_def KeyV1Owned_eq key_bytes_compact woCompare_is_loop)
qed

theorem key_equality_witness:
  "woEqual (KeyV1Owned [(str ''a'', IntV 1)]) (KeyV1Owned [(str ''a'', LongV 1)]) =
     Some (woCompare [(str ''a'', IntV 1)] [(str ''a'', LongV 1)] 0 False = 0)"
  using key_equality [of "[(str ''a'', IntV 1)]" "[(str ''a'', LongV 1)]" "[]" "[]"]
  by (simp add: wf_obj_def enc_obj_def cstring_def str_def of_char_def compact_obj_def large_def)

end
