(* ===== verification/BsonValidate.thy ===== *)
theory BsonValidate
  imports Bson
begin

unbundle bit_operations_syntax

text \<open>
  Validation of BSON that comes from the network or from disk (\<open>bson/bson_validate.cpp\<close>): a state
  machine over the buffer with an explicit stack of enclosing objects.  Positions are \<open>uint64_t\<close> and
  wrap.  A read outside the buffer is a result of its own, and a run that does not end has no result.
\<close>

section \<open>The buffer\<close>

datatype vresult =
    OK
  | InvalidBSON string
  | OutOfBounds   \<comment> \<open>a read outside the buffer\<close>

text \<open>An operation ends the validation with a result or goes on.\<close>

type_synonym 'a vres = "vresult + 'a"

text \<open>\<open>maxLength\<close> is the length of the buffer.\<close>

definition maxLength :: "byte list \<Rightarrow> u64" where
  "maxLength buf = of_nat (length buf)"

text \<open>\<open>readNumber<N>\<close> of \<open>n\<close> bytes: the bytes and the new position; \<open>Inr None\<close> where it returns false.\<close>

definition readNumber :: "byte list \<Rightarrow> nat \<Rightarrow> u64 \<Rightarrow> (byte list \<times> u64) option vres" where
  "readNumber buf n pos =
     (if pos + of_nat n > maxLength buf then Inr None
      else if unat pos + n \<le> length buf then Inr (Some (take n (drop (unat pos) buf), pos + of_nat n))
      else Inl OutOfBounds)"

text \<open>\<open>memchr\<close> stops at the first NUL; from a position past the end it reads outside.\<close>

definition readCString :: "byte list \<Rightarrow> u64 \<Rightarrow> u64 vres" where
  "readCString buf pos =
     (if unat pos > length buf then Inl OutOfBounds
      else let rest = drop (unat pos) buf
           in if 0 \<in> set rest then Inr (pos + of_nat (length (cstr rest)) + 1)
              else Inl (InvalidBSON ''no end of c-string''))"

text \<open>\<open>skip\<close>: the new position and whether it is inside.\<close>

definition vskip :: "byte list \<Rightarrow> u64 \<Rightarrow> u64 \<Rightarrow> u64 \<times> bool" where
  "vskip buf sz pos = (pos + sz, pos + sz < maxLength buf)"

definition invalid :: "'a vres" where
  "invalid = Inl (InvalidBSON ''invalid bson'')"

text \<open>The size is an \<open>int\<close>; \<open>sz - 1\<close> is converted to the \<open>uint64_t\<close> argument of \<open>skip\<close>.\<close>

definition readUTF8String :: "byte list \<Rightarrow> u64 \<Rightarrow> u64 vres" where
  "readUTF8String buf pos =
     bind_result (readNumber buf 4 pos) (\<lambda>x. case x of
       None \<Rightarrow> invalid
     | Some (b, pos) \<Rightarrow>
         let sz = le_word b :: u32; (pos, inside) = vskip buf (scast (sz - 1)) pos
         in if \<not> inside then invalid
            else bind_result (readNumber buf 1 pos) (\<lambda>y. case y of
              None \<Rightarrow> invalid
            | Some (c, pos) \<Rightarrow>
                if c \<noteq> [0] then Inl (InvalidBSON ''not null terminate string'') else Inr pos))"

section \<open>States and frames\<close>

datatype vstate = BeginObj | WithinObj | EndObj | BeginCodeWScope | EndCodeWScope | Done

text \<open>\<open>ValidationObjectFrame\<close>: bit 31 of the start position marks code with scope.\<close>

record vframe =
  expectedSize :: u32
  startPos :: u32

definition startPosition :: "vframe \<Rightarrow> u32" where
  "startPosition f = startPos f AND NOT (push_bit 31 1)"

definition isCodeWithScope :: "vframe \<Rightarrow> bool" where
  "isCodeWithScope f \<longleftrightarrow> startPos f AND push_bit 31 1 \<noteq> 0"

definition setStartPosition :: "u32 \<Rightarrow> vframe \<Rightarrow> vframe" where
  "setStartPosition pos f =
     f\<lparr>startPos := (startPos f AND push_bit 31 1) OR (pos AND NOT (push_bit 31 1))\<rparr>"

definition setIsCodeWithScope :: "bool \<Rightarrow> vframe \<Rightarrow> vframe" where
  "setIsCodeWithScope b f =
     f\<lparr>startPos := (if b then startPos f OR push_bit 31 1 else startPos f AND NOT (push_bit 31 1))\<rparr>"

text \<open>A frame pushed at a position; both fields start out unset, which the setters overwrite.\<close>

definition new_frame :: "u64 \<Rightarrow> bool \<Rightarrow> u32 \<Rightarrow> vframe" where
  "new_frame pos cws sz =
     (setIsCodeWithScope cws (setStartPosition (ucast pos) \<lparr>expectedSize = 0, startPos = 0\<rparr>))\<lparr>expectedSize := sz\<rparr>"

text \<open>\<open>validateElementInfo\<close>: the new position and the next state, if it sets one.\<close>

definition skip_value :: "byte list \<Rightarrow> u64 \<Rightarrow> u64 \<Rightarrow> (u64 \<times> vstate option) vres" where
  "skip_value buf sz pos =
     (let (pos, inside) = vskip buf sz pos in if inside then Inr (pos, None) else invalid)"

definition validateElementInfo :: "byte list \<Rightarrow> u64 \<Rightarrow> (u64 \<times> vstate option) vres" where
  "validateElementInfo buf pos =
     bind_result (readNumber buf 1 pos) (\<lambda>x. case x of
       None \<Rightarrow> invalid
     | Some (t, pos) \<Rightarrow>
         let type = hd t in
         if type = 0 then Inr (pos, Some EndObj)
         else bind_result (readCString buf pos) (\<lambda>pos.
           if type \<in> {255, 127, 10, 6} then Inr (pos, None)
           else if type = 7 then skip_value buf 12 pos
           else if type = 16 then skip_value buf 4 pos
           else if type = 8 then skip_value buf 1 pos
           else if type \<in> {1, 18, 17, 9} then skip_value buf 8 pos
           else if type = 12 then
             bind_result (readUTF8String buf pos) (\<lambda>pos. Inr (fst (vskip buf 12 pos), None))
           else if type = 11 then
             bind_result (readCString buf pos) (\<lambda>pos. bind_result (readCString buf pos) (\<lambda>pos. Inr (pos, None)))
           else if type \<in> {13, 14, 2} then bind_result (readUTF8String buf pos) (\<lambda>pos. Inr (pos, None))
           else if type = 5 then
             bind_result (readNumber buf 4 pos) (\<lambda>y. case y of
               None \<Rightarrow> invalid
             | Some (b, pos) \<Rightarrow> skip_value buf (scast (1 + (le_word b :: u32))) pos)
           else if type = 15 then Inr (pos, Some BeginCodeWScope)
           else if type \<in> {3, 4} then Inr (pos, Some BeginObj)
           else Inl (InvalidBSON ''invalid bson type'')))"

section \<open>The loop\<close>

text \<open>State, enclosing frames (the innermost first) and position.\<close>

type_synonym vmachine = "vstate \<times> vframe list \<times> u64"

definition within_obj :: "byte list \<Rightarrow> vframe list \<Rightarrow> u64 \<Rightarrow> vmachine vres" where
  "within_obj buf frames pos =
     bind_result (validateElementInfo buf pos) (\<lambda>(pos, st).
       Inr ((case st of Some s \<Rightarrow> s | None \<Rightarrow> WithinObj), frames, pos))"

definition actualLength :: "u64 \<Rightarrow> vframe \<Rightarrow> u32" where
  "actualLength pos f = ucast (pos - scast (startPosition f))"

fun validate_step :: "byte list \<Rightarrow> vmachine \<Rightarrow> vmachine vres" where
  "validate_step buf (BeginObj, frames, pos) =
     bind_result (readNumber buf 4 pos) (\<lambda>x. case x of
       None \<Rightarrow> Inl (InvalidBSON ''bson size is larger than buffer size'')
     | Some (b, pos') \<Rightarrow> within_obj buf (new_frame pos False (le_word b) # frames) pos')"
| "validate_step buf (WithinObj, frames, pos) = within_obj buf frames pos"
| "validate_step buf (EndObj, frames, pos) =
     (if actualLength pos (hd frames) \<noteq> expectedSize (hd frames)
      then Inl (InvalidBSON ''bson length doesn't match what we found'')
      else (case tl frames of
              [] \<Rightarrow> Inr (Done, [], pos)
            | f # fs \<Rightarrow> Inr (if isCodeWithScope f then EndCodeWScope else WithinObj, f # fs, pos)))"
| "validate_step buf (BeginCodeWScope, frames, pos) =
     bind_result (readNumber buf 4 pos) (\<lambda>x. case x of
       None \<Rightarrow> Inl (InvalidBSON ''invalid bson CodeWScope size'')
     | Some (b, pos') \<Rightarrow>
         bind_result (readUTF8String buf pos') (\<lambda>pos'.
           Inr (BeginObj, new_frame pos True (le_word b) # frames, pos')))"
| "validate_step buf (EndCodeWScope, frames, pos) =
     (if actualLength pos (hd frames) \<noteq> expectedSize (hd frames)
      then Inl (InvalidBSON ''bson length for CodeWScope doesn't match what we found'')
      else (case tl frames of
              [] \<Rightarrow> Inl (InvalidBSON ''unnested CodeWScope'')
            | f # fs \<Rightarrow> Inr (WithinObj, f # fs, pos)))"
| "validate_step buf (Done, frames, pos) = Inl OK"

partial_function (option) validate_run :: "byte list \<Rightarrow> vmachine \<Rightarrow> vresult option" where
  "validate_run buf s = (case validate_step buf s of Inl r \<Rightarrow> Some r | Inr s' \<Rightarrow> validate_run buf s')"

definition validateBSON :: "byte list \<Rightarrow> vresult option" where
  "validateBSON buf =
     (if length buf < 5 then Some (InvalidBSON ''bson data has to be at least 5 bytes'')
      else validate_run buf (BeginObj, [], 0))"

section \<open>Reads\<close>

lemma unat_add_u64: "unat p + n < 2 ^ 64 \<Longrightarrow> unat (p + of_nat n :: u64) = unat p + n"
proof -
  assume a: "unat p + n < 2 ^ 64"
  have "p + of_nat n = (of_nat (unat p + n) :: u64)" by simp
  with a show ?thesis by (simp only: unat_of_nat_u64)
qed

lemma maxLength_unat: "length buf < 2 ^ 31 \<Longrightarrow> unat (maxLength buf) = length buf"
  unfolding maxLength_def by (intro unat_of_nat_u64) simp

lemma readNumber_eq:
  assumes "length buf < 2 ^ 31" "unat p \<le> length buf + 12" "n \<le> 8"
  shows "readNumber buf n p =
    Inr (if unat p + n \<le> length buf then Some (take n (drop (unat p) buf), p + of_nat n) else None)"
proof -
  have "unat (p + of_nat n) = unat p + n" using assms by (intro unat_add_u64) simp
  then have "p + of_nat n > maxLength buf \<longleftrightarrow> unat p + n > length buf"
    using maxLength_unat [OF assms(1)] by (simp add: word_less_nat_alt)
  then show ?thesis by (simp add: readNumber_def)
qed

lemma cstr_length: "0 \<in> set xs \<Longrightarrow> length (cstr xs) < length xs"
  by (induction xs) (auto simp: cstr_def)

text \<open>A result that rejects the document, or goes on under a condition.\<close>

definition safe :: "('a \<Rightarrow> bool) \<Rightarrow> 'a vres \<Rightarrow> bool" where
  "safe Q r = (case r of Inl e \<Rightarrow> \<exists>m. e = InvalidBSON m | Inr x \<Rightarrow> Q x)"

lemma safe_simps [simp]: "safe Q (Inr x) = Q x" "safe Q (Inl e) = (\<exists>m. e = InvalidBSON m)" "safe Q invalid"
  by (simp_all add: safe_def invalid_def)

lemma safe_bind: "safe P r \<Longrightarrow> (\<And>x. P x \<Longrightarrow> safe Q (f x)) \<Longrightarrow> safe Q (bind_result r f)"
  by (cases r) auto

definition inside :: "byte list \<Rightarrow> u64 \<Rightarrow> bool" where
  "inside buf p \<longleftrightarrow> unat p \<le> length buf"

definition near :: "byte list \<Rightarrow> u64 \<Rightarrow> bool" where
  "near buf p \<longleftrightarrow> unat p \<le> length buf + 12"

lemma inside_near [intro, simp]: "inside buf p \<Longrightarrow> near buf p"
  by (simp add: inside_def near_def)

lemma readNumber_safe:
  assumes "length buf < 2 ^ 31" "near buf p" "n \<le> 8"
  shows "safe (\<lambda>x. case x of None \<Rightarrow> True | Some (b, q) \<Rightarrow> inside buf q) (readNumber buf n p)"
  using readNumber_eq [of buf p n] unat_add_u64 [of p n] assms by (simp add: near_def inside_def)

lemma readCString_safe:
  assumes "length buf < 2 ^ 31" "inside buf p"
  shows "safe (inside buf) (readCString buf p)"
proof -
  let ?r = "drop (unat p) buf"
  have "unat (p + of_nat (length (cstr ?r) + 1)) \<le> length buf" if "0 \<in> set ?r"
    using cstr_length [OF that] unat_add_u64 [of p "length (cstr ?r) + 1"] assms
    by (simp add: inside_def del: of_nat_Suc of_nat_add)
  then show ?thesis
    using assms(2) by (simp add: readCString_def Let_def inside_def ac_simps)
qed

lemma vskip_inside: "length buf < 2 ^ 31 \<Longrightarrow> vskip buf sz p = (q, True) \<Longrightarrow> inside buf q"
  using maxLength_unat [of buf] by (auto simp: vskip_def word_less_nat_alt inside_def)

text \<open>From a position at most 12 bytes past the end no operation reads outside the buffer.\<close>

lemma readUTF8String_safe:
  assumes len: "length buf < 2 ^ 31" and "near buf p"
  shows "safe (inside buf) (readUTF8String buf p)"
  unfolding readUTF8String_def
  by (rule safe_bind [OF readNumber_safe [OF assms]])
    (auto simp: Let_def split: option.splits prod.splits
      intro!: safe_bind [OF readNumber_safe [OF len]] dest: vskip_inside [OF len])

lemma skip_value_safe:
  assumes "length buf < 2 ^ 31"
  shows "safe (\<lambda>(q, st). inside buf q \<and> st = None) (skip_value buf sz p)"
  by (auto simp: skip_value_def split: prod.splits dest: vskip_inside [OF assms])

lemma near_skip: "length buf < 2 ^ 31 \<Longrightarrow> inside buf p \<Longrightarrow> near buf (p + 12)"
  using unat_add_u64 [of p 12] by (simp add: inside_def near_def)

lemma safe_mono: "safe P r \<Longrightarrow> (\<And>x. P x \<Longrightarrow> Q x) \<Longrightarrow> safe Q r"
  by (cases r) auto

fun elem_post :: "byte list \<Rightarrow> u64 \<times> vstate option \<Rightarrow> bool" where
  "elem_post buf (q, st) \<longleftrightarrow> near buf q \<and> (st = Some EndObj \<longrightarrow> inside buf q) \<and> st \<noteq> Some Done"

lemma validateElementInfo_safe:
  assumes len: "length buf < 2 ^ 31" and p: "near buf p"
  shows "safe (elem_post buf) (validateElementInfo buf p)"
proof -
  have rest: "safe (elem_post buf) (bind_result r (\<lambda>q. Inr (q, None)))"
    if "safe (inside buf) r" for r
    by (rule safe_bind [OF that]) simp
  have skip: "safe (elem_post buf) (skip_value buf sz x)" for sz x
    by (rule safe_mono [OF skip_value_safe [OF len]]) auto
  have ref: "safe (elem_post buf)
      (bind_result (readUTF8String buf x) (\<lambda>pos. Inr (fst (vskip buf 12 pos), None)))" if "inside buf x" for x
    by (rule safe_bind [OF readUTF8String_safe [OF len inside_near [OF that]]]) (simp add: vskip_def near_skip [OF len])
  show ?thesis
    unfolding validateElementInfo_def
  proof (rule safe_bind [OF readNumber_safe [OF len p]], goal_cases)
    case (2 x)
    show ?case
    proof (cases x)
      case (Some bq)
      then obtain b q where x: "x = Some (b, q)" and q: "inside buf q" using 2 by (cases bq) auto
      note c = readCString_safe [OF len q]
      show ?thesis
        unfolding x option.case prod.case Let_def
        by (auto intro!: q safe_bind [OF c] rest skip ref safe_bind [OF readCString_safe [OF len]]
            readUTF8String_safe [OF len] readCString_safe [OF len] safe_bind [OF readNumber_safe [OF len]]
            split: option.splits)
    qed simp
  qed simp
qed

text \<open>
  What holds along a run: the outermost frame is that of the whole document, and a finished one has
  its size.
\<close>

definition doc_frame :: "byte list \<Rightarrow> vframe" where
  "doc_frame buf = new_frame 0 False (le_word (take 4 buf))"

fun vinv :: "byte list \<Rightarrow> vmachine \<Rightarrow> bool" where
  "vinv buf (st, frames, pos) \<longleftrightarrow>
     near buf pos \<and> (st = EndObj \<longrightarrow> inside buf pos) \<and>
     (if st = Done then inside buf pos \<and> ucast pos = (le_word (take 4 buf) :: u32)
      else if frames = [] then st = BeginObj \<and> pos = 0
      else last frames = doc_frame buf)"

lemma within_safe:
  assumes "length buf < 2 ^ 31" "near buf pos" "frames \<noteq> []" "last frames = doc_frame buf"
  shows "safe (vinv buf) (within_obj buf frames pos)"
  unfolding within_obj_def
  by (rule safe_bind [OF validateElementInfo_safe [OF assms(1,2)]])
    (use assms(3,4) in \<open>auto split: option.splits\<close>)

lemma doc_frame_length: "actualLength pos (doc_frame buf) = ucast pos" "expectedSize (doc_frame buf) = le_word (take 4 buf)"
  "\<not> isCodeWithScope (doc_frame buf)"
  by (simp_all add: actualLength_def doc_frame_def new_frame_def startPosition_def setIsCodeWithScope_def
      setStartPosition_def isCodeWithScope_def)

lemma validate_step_safe:
  assumes len: "length buf < 2 ^ 31" and inv: "vinv buf (st, frames, pos)" and st: "st \<noteq> Done"
  shows "safe (vinv buf) (validate_step buf (st, frames, pos))"
proof -
  have near: "near buf pos" using inv by simp
  have r: "readNumber buf 4 pos =
      Inr (if unat pos + 4 \<le> length buf then Some (take 4 (drop (unat pos) buf), pos + 4) else None)"
    using readNumber_eq [OF len, of pos 4] near by (simp add: near_def)
  have q: "near buf (pos + 4)" if "unat pos + 4 \<le> length buf"
    using that unat_add_u64 [of pos 4] len by (simp add: near_def)
  show ?thesis
  proof (cases st)
    case BeginObj
    then have "last (new_frame pos False (le_word (take 4 (drop (unat pos) buf))) # frames) = doc_frame buf"
      using inv by (auto simp: doc_frame_def)
    then show ?thesis
      unfolding BeginObj validate_step.simps r bind_result.simps using within_safe [OF len q] by auto
  next
    case WithinObj
    then show ?thesis using inv within_safe [OF len near] by (auto split: if_splits)
  next
    case EndObj
    then show ?thesis
      using inv by (cases frames; cases "tl frames") (auto simp: doc_frame_length split: if_splits)
  next
    case BeginCodeWScope
    have "safe (inside buf) (readUTF8String buf (pos + 4))" if "unat pos + 4 \<le> length buf"
      using readUTF8String_safe [OF len q [OF that]] .
    then show ?thesis
      unfolding BeginCodeWScope validate_step.simps r bind_result.simps
      by (auto intro!: safe_bind) (use inv BeginCodeWScope in auto)
  next
    case EndCodeWScope
    then show ?thesis
      using inv by (cases frames; cases "tl frames") (auto split: if_splits)
  qed (use st in simp)
qed

text \<open>Every run that ends rejects the document, or accepts one whose size is that of its bytes.\<close>

lemma validate_run_result:
  assumes "validate_run buf s = Some r"
  shows "length buf < 2 ^ 31 \<Longrightarrow> vinv buf s \<Longrightarrow>
    (\<exists>m. r = InvalidBSON m) \<or> r = OK \<and> unat (le_word (take 4 buf) :: u32) \<le> length buf"
  using assms
proof (induction buf s r rule: validate_run.raw_induct [rotated, consumes 1])
  case (1 run buf s r)
  obtain st frames pos where s: "s = (st, frames, pos)" by (cases s)
  show ?case
  proof (cases "st = Done")
    case True
    have "ucast pos = (le_word (take 4 buf) :: u32)" "unat pos \<le> length buf" using 1 s True by (auto simp: inside_def)
    moreover have "unat (ucast pos :: u32) \<le> unat pos"
      by (simp add: unsigned_ucast_eq unsigned_take_bit_eq take_bit_nat_less_eq_self)
    ultimately show ?thesis using 1 s True by auto
  next
    case False
    have "safe (vinv buf) (validate_step buf s)" using validate_step_safe 1 False unfolding s by blast
    with 1 show ?thesis by (cases "validate_step buf s") auto
  qed
qed

section \<open>Acceptance of encodings\<close>

lemma run_step: "validate_step buf s = Inr s' \<Longrightarrow> validate_run buf s = validate_run buf s'"
  by (subst validate_run.simps) simp

text \<open>Reads at a position given by the bytes that follow it.\<close>

lemma at_length:
  assumes "drop p buf = x @ y" "x @ y \<noteq> []"
  shows "p + length x + length y = length buf" 
proof -
  have "length (drop p buf) = length x + length y" using assms(1) by simp
  moreover have "p < length buf" using assms by (metis append_Nil2 drop_all linorder_not_less)
  ultimately show ?thesis by simp
qed

lemma at_next: "drop p buf = x @ y \<Longrightarrow> drop (p + length x) buf = y"
  by (metis append_eq_conv_conj drop_drop add.commute)

lemma readNumber_at:
  assumes "length buf < 2 ^ 31" "drop p buf = x @ y" "length x = n" "0 < n" "n \<le> 8"
  shows "readNumber buf n (of_nat p) = Inr (Some (x, of_nat (p + n)))"
proof -
  have l: "p + n + length y = length buf" using at_length [OF assms(2)] assms(3,4) by auto
  then have u: "unat (of_nat p :: u64) = p" using assms(1) by (intro unat_of_nat_u64) simp
  show ?thesis using readNumber_eq [OF assms(1), of "of_nat p" n] l u assms(2,3,5) by simp
qed

lemma readCString_at:
  assumes "length buf < 2 ^ 31" "drop p buf = cstring s @ y" "0 \<notin> set s"
  shows "readCString buf (of_nat p) = Inr (of_nat (p + length (cstring s)))"
proof -
  have l: "p + length (cstring s) + length y = length buf" using at_length [OF assms(2)] by (simp add: cstring_def)
  then have u: "unat (of_nat p :: u64) = p" using assms(1) by (intro unat_of_nat_u64) simp
  show ?thesis using l u assms(2,3) by (simp add: readCString_def cstring_def ac_simps)
qed

lemma vskip_at:
  assumes "length buf < 2 ^ 31" "p + n < length buf"
  shows "vskip buf (of_nat n) (of_nat p) = (of_nat (p + n), True)"
proof -
  have "unat (of_nat (p + n) :: u64) = p + n" using assms by (intro unat_of_nat_u64) simp
  then show ?thesis using assms(2) maxLength_unat [OF assms(1)] by (simp add: vskip_def word_less_nat_alt)
qed

lemma scast_small: "n < 2 ^ 31 \<Longrightarrow> scast (of_nat n :: u32) = (of_nat n :: u64)"
proof -
  assume n: "n < 2 ^ 31"
  have "sint (of_nat n :: u32) = int n"
    using n by (simp add: signed_of_nat signed_take_bit_int_eq_self)
  then show ?thesis by (simp only: scast_eq) simp
qed

lemma readUTF8String_at:
  assumes len: "length buf < 2 ^ 31" and d: "drop p buf = sized_string s @ y"
  shows "readUTF8String buf (of_nat p) = Inr (of_nat (p + length (sized_string s)))"
proof -
  let ?n = "le_bytes 4 (of_nat (length s + 1) :: u32)"
  have d1: "drop p buf = ?n @ (s @ [0]) @ y" using d by (simp add: sized_string_def cstring_def del: le_bytes.simps)
  have l: "p + 4 + length s + 1 + length y = length buf" using at_length [OF d1] by (simp del: le_bytes.simps)
  have d2: "drop (p + 4 + length s) buf = [0] @ y"
    using at_next [OF d1] at_next [of "p + 4" buf s "[0] @ y"] by (simp del: le_bytes.simps)
  have 1: "readNumber buf 4 (of_nat p) = Inr (Some (?n, of_nat (p + 4)))"
    using readNumber_at [OF len d1, of 4] by simp
  have 2: "scast ((of_nat (length s + 1) :: u32) - 1) = (of_nat (length s) :: u64)"
    using scast_small [of "length s"] l len by simp
  have 3: "vskip buf (of_nat (length s)) (of_nat (p + 4)) = (of_nat (p + 4 + length s), True)"
    using vskip_at [OF len, of "p + 4" "length s"] l by simp
  have 4: "readNumber buf 1 (of_nat (p + 4 + length s)) = Inr (Some ([0], of_nat (p + 4 + length s + 1)))"
    by (rule readNumber_at [OF len d2]) simp_all
  show ?thesis
    unfolding readUTF8String_def 1 bind_result.simps option.case prod.case le_word_le_bytes_32 2 3 Let_def 4
    by (simp add: sized_string_def cstring_def)
qed

text \<open>The fields of a frame.\<close>

lemma bit31: "bit (2147483648 :: u32) n \<longleftrightarrow> n = 31" "bit (2147483648 :: int) n \<longleftrightarrow> n = 31"
proof -
  have "bit ((2 :: u32) ^ 31) n \<longleftrightarrow> n = 31" "bit ((2 :: int) ^ 31) n \<longleftrightarrow> n = 31" 
    unfolding bit_exp_iff by auto
  then show "bit (2147483648 :: u32) n \<longleftrightarrow> n = 31" "bit (2147483648 :: int) n \<longleftrightarrow> n = 31" by simp_all
qed

lemma ucast_of_nat_32: "(ucast (of_nat n :: u64) :: u32) = of_nat n"
  by (rule bit_word_eqI) (simp add: bit_simps)

lemma and_not_bit31:
  assumes "p < 2 ^ 31"
  shows "(of_nat p :: u32) AND NOT (push_bit 31 1) = of_nat p" "(of_nat p :: u32) AND push_bit 31 1 = 0"
proof -
  have "\<not> bit p 31" using assms by (simp add: bit_iff_odd)
  then have "\<not> bit (of_nat p :: u32) 31" by (simp add: bit_of_nat_iff)
  then show "(of_nat p :: u32) AND NOT (push_bit 31 1) = of_nat p" "(of_nat p :: u32) AND push_bit 31 1 = 0"
    by (auto intro!: bit_word_eqI simp: bit_simps bit31)
qed

lemma new_frame_fields:
  assumes "p < 2 ^ 31"
  shows "startPosition (new_frame (of_nat p) b sz) = of_nat p" "isCodeWithScope (new_frame (of_nat p) b sz) = b"
    "expectedSize (new_frame (of_nat p) b sz) = sz"
proof -
  have "((x :: u32) OR push_bit 31 1) AND NOT (push_bit 31 1) = x AND NOT (push_bit 31 1)"
    "((x :: u32) OR push_bit 31 1) AND push_bit 31 1 \<noteq> 0" for x
    by (auto intro!: bit_word_eqI simp: bit_simps bit31 bit.conj_disj_distrib2)
  moreover have "ucast (of_nat p :: u64) = (of_nat p :: u32)" by (simp only: ucast_of_nat_32)
  ultimately show "startPosition (new_frame (of_nat p) b sz) = of_nat p" "isCodeWithScope (new_frame (of_nat p) b sz) = b"
      "expectedSize (new_frame (of_nat p) b sz) = sz"
    using and_not_bit31 [OF assms]
    by (simp_all add: new_frame_def startPosition_def isCodeWithScope_def setIsCodeWithScope_def setStartPosition_def)
qed

lemma actualLength_new:
  assumes "p < 2 ^ 31"
  shows "actualLength (of_nat (p + n)) (new_frame (of_nat p) b sz) = of_nat n"
proof -
  have "actualLength (of_nat (p + n)) (new_frame (of_nat p) b sz) = ucast (of_nat n :: u64)"
    using scast_small [OF assms] new_frame_fields(1) [OF assms] by (simp add: actualLength_def)
  then show ?thesis by (simp only: ucast_of_nat_32)
qed

text \<open>An element that is no object: one step of the machine skips it.\<close>

definition elem_len :: "bstr \<Rightarrow> bson_value \<Rightarrow> nat" where
  "elem_len n v = 1 + length (cstring n) + length (enc_value v)"

lemma skip_value_at:
  "length buf < 2 ^ 31 \<Longrightarrow> p + n < length buf \<Longrightarrow> skip_value buf (of_nat n) (of_nat p) = Inr (of_nat (p + n), None)"
  using vskip_at [of buf p n] by (simp add: skip_value_def)

lemma header_at:
  assumes len: "length buf < 2 ^ 31" and d: "drop p buf = type_byte v # cstring n @ x" and n: "0 \<notin> set n"
  shows "readNumber buf 1 (of_nat p) = Inr (Some ([type_byte v], of_nat (p + 1)))"
    "readCString buf (of_nat (p + 1)) = Inr (of_nat (p + 1 + length (cstring n)))"
    "drop (p + 1 + length (cstring n)) buf = x"
proof -
  have d1: "drop p buf = [type_byte v] @ cstring n @ x" using d by simp
  show "readNumber buf 1 (of_nat p) = Inr (Some ([type_byte v], of_nat (p + 1)))"
    by (rule readNumber_at [OF len d1]) simp_all
  have d2: "drop (p + 1) buf = cstring n @ x" using at_next [OF d1] by simp
  show "readCString buf (of_nat (p + 1)) = Inr (of_nat (p + 1 + length (cstring n)))"
    using readCString_at [OF len d2 n] by simp
  show "drop (p + 1 + length (cstring n)) buf = x" using at_next [OF d2] by simp
qed

lemma flat_info:
  assumes len: "length buf < 2 ^ 31" and d: "drop p buf = type_byte v # cstring n @ enc_value v @ y"
    and n: "0 \<notin> set n" and y: "y \<noteq> []" and v: "wf_value v" "bson_type v \<notin> {3, 4, 15}"
  shows "validateElementInfo buf (of_nat p) = Inr (of_nat (p + elem_len n v), None)"
proof -
  define q where "q = p + 1 + length (cstring n)"
  note h = header_at [OF len d n, folded q_def]
  have l: "q + length (enc_value v) + length y = length buf" using at_length [OF h(3)] y by simp
  have y': "0 < length y" using y by simp
  have sk: "skip_value buf (of_nat (length (enc_value v))) (of_nat q) = Inr (of_nat (q + length (enc_value v)), None)"
    by (rule skip_value_at [OF len]) (use l y' in linarith)
  have e: "p + elem_len n v = q + length (enc_value v)" by (simp add: elem_len_def q_def)
  note H = validateElementInfo_def h(1) bind_result.simps option.case prod.case Let_def list.sel h(2)
  show ?thesis
  proof (cases v)
    case (RegExV r f)
    have d1: "drop q buf = cstring r @ cstring f @ y" using h(3) RegExV by simp
    have d2: "drop (q + length (cstring r)) buf = cstring f @ y" using at_next [OF d1] .
    show ?thesis
      using readCString_at [OF len d1] readCString_at [OF len d2] v unfolding H e
      by (simp add: RegExV add.assoc)
  next
    case (DBRefV ns i)
    have d1: "drop q buf = sized_string ns @ i @ y" using h(3) DBRefV by simp
    show ?thesis
      using readUTF8String_at [OF len d1] v unfolding H e by (simp add: DBRefV vskip_def)
  next
    case (BinDataV t b)
    have d1: "drop q buf = le_bytes 4 (of_nat (length b) :: u32) @ (t # b) @ y"
      using h(3) BinDataV by (simp del: le_bytes.simps)
    have "1 + length b < 2 ^ 31" using l len BinDataV by (simp del: le_bytes.simps)
    from scast_small [OF this] have "scast (1 + of_nat (length b) :: u32) = (of_nat (1 + length b) :: u64)" by simp
    moreover have "skip_value buf (of_nat (1 + length b)) (of_nat (q + 4)) = Inr (of_nat (q + 4 + (1 + length b)), None)"
      by (rule skip_value_at [OF len]) (use l y' BinDataV in \<open>simp del: le_bytes.simps length_greater_0_conv\<close>)
    moreover have "q + 4 + (1 + length b) = p + elem_len n v" unfolding e by (simp add: BinDataV)
    ultimately have "skip_value buf (scast (1 + of_nat (length b) :: u32)) (of_nat (q + 4)) =
        Inr (of_nat (p + elem_len n v), None)" by (simp only:)
    then show ?thesis
      using readNumber_at [OF len d1, of 4] unfolding H by (simp add: BinDataV del: le_bytes.simps of_nat_add)
  next
    case (StringV s)
    have d1: "drop q buf = sized_string s @ y" using h(3) StringV by simp
    show ?thesis using readUTF8String_at [OF len d1] unfolding H e by (simp add: StringV)
  next
    case (CodeV s)
    have d1: "drop q buf = sized_string s @ y" using h(3) CodeV by simp
    show ?thesis using readUTF8String_at [OF len d1] unfolding H e by (simp add: CodeV)
  next
    case (SymbolV s)
    have d1: "drop q buf = sized_string s @ y" using h(3) SymbolV by simp
    show ?thesis using readUTF8String_at [OF len d1] unfolding H e by (simp add: SymbolV)
  qed (unfold H e, insert sk v, simp_all del: le_bytes.simps)
qed

lemma object_info:
  assumes len: "length buf < 2 ^ 31" and d: "drop p buf = type_byte v # cstring n @ x"
    and n: "0 \<notin> set n" and v: "bson_type v \<in> {3, 4, 15}"
  shows "validateElementInfo buf (of_nat p) =
    Inr (of_nat (p + 1 + length (cstring n)), Some (if bson_type v = 15 then BeginCodeWScope else BeginObj))"
proof -
  note h = header_at [OF len d n]
  note H = validateElementInfo_def h(1) bind_result.simps option.case prod.case Let_def list.sel h(2)
  show ?thesis unfolding H using v by (cases v) (simp_all del: of_nat_add of_nat_Suc)
qed

text \<open>Entering and leaving an object.\<close>

lemma begin_obj:
  assumes "length buf < 2 ^ 31" "drop p buf = le_bytes 4 (sz :: u32) @ x"
  shows "validate_run buf (BeginObj, frames, of_nat p) =
    validate_run buf (WithinObj, new_frame (of_nat p) False sz # frames, of_nat (p + 4))"
proof -
  have "readNumber buf 4 (of_nat p) = Inr (Some (le_bytes 4 sz, of_nat (p + 4)))"
    by (rule readNumber_at [OF assms]) simp_all
  then have "validate_step buf (BeginObj, frames, of_nat p) =
      validate_step buf (WithinObj, new_frame (of_nat p) False sz # frames, of_nat (p + 4))"
    by (simp del: le_bytes.simps)
  then show ?thesis by (subst (1 2) validate_run.simps) simp
qed

lemma end_info:
  assumes "length buf < 2 ^ 31" "drop p buf = 0 # y"
  shows "validateElementInfo buf (of_nat p) = Inr (of_nat (p + 1), Some EndObj)"
proof -
  have "readNumber buf 1 (of_nat p) = Inr (Some ([0], of_nat (p + 1)))"
    by (rule readNumber_at [OF assms(1), where y = y]) (use assms(2) in simp_all)
  then show ?thesis by (simp add: validateElementInfo_def)
qed

lemma end_obj:
  assumes len: "length buf < 2 ^ 31" and d: "drop (p + 4 + k) buf = 0 # y" and p: "p < 2 ^ 31"
  shows "validate_run buf (WithinObj, new_frame (of_nat p) False (of_nat (k + 5)) # frames, of_nat (p + 4 + k)) =
    (case frames of [] \<Rightarrow> Some OK
     | f # fs \<Rightarrow> validate_run buf (if isCodeWithScope f then EndCodeWScope else WithinObj, frames, of_nat (p + k + 5)))"
proof -
  let ?f = "new_frame (of_nat p) False (of_nat (k + 5))"
  have "validate_step buf (WithinObj, ?f # frames, of_nat (p + 4 + k)) = Inr (EndObj, ?f # frames, of_nat (p + 4 + k + 1))"
    using end_info [OF len d] by (simp add: within_obj_def del: of_nat_add of_nat_Suc)
  moreover have "p + 4 + k + 1 = p + (k + 5)" by simp
  ultimately have 1: "validate_run buf (WithinObj, ?f # frames, of_nat (p + 4 + k)) =
      validate_run buf (EndObj, ?f # frames, of_nat (p + (k + 5)))"
    by (metis run_step)
  have a: "actualLength (of_nat (p + (k + 5))) ?f = expectedSize ?f"
    using actualLength_new [OF p] new_frame_fields(3) [OF p] by (simp only:)
  show ?thesis
  proof (cases frames)
    case Nil
    then have "validate_step buf (EndObj, ?f # frames, of_nat (p + (k + 5))) = Inr (Done, [], of_nat (p + (k + 5)))"
      using a by (simp del: of_nat_add of_nat_Suc)
    from run_step [OF this] 1 Nil show ?thesis by (simp add: validate_run.simps [of buf "(Done, _)"])
  next
    case (Cons f fs)
    then have "validate_step buf (EndObj, ?f # frames, of_nat (p + (k + 5))) =
        Inr (if isCodeWithScope f then EndCodeWScope else WithinObj, frames, of_nat (p + (k + 5)))"
      using a by (simp del: of_nat_add of_nat_Suc)
    from run_step [OF this] 1 Cons show ?thesis by (simp add: add.assoc)
  qed
qed

text \<open>The run over the elements of an object, and over a whole object.\<close>

definition skips :: "byte list \<Rightarrow> bson \<Rightarrow> bool" where
  "skips buf es \<longleftrightarrow> (\<forall>p y f fs. drop p buf = enc_elems es @ 0 # y \<longrightarrow> \<not> isCodeWithScope f \<longrightarrow>
     validate_run buf (WithinObj, f # fs, of_nat p) = validate_run buf (WithinObj, f # fs, of_nat (p + length (enc_elems es))))"

lemma object_run:
  assumes len: "length buf < 2 ^ 31" and d: "drop q buf = frame (enc_elems es) @ y" and es: "skips buf es"
  shows "validate_run buf (BeginObj, frames, of_nat q) =
    (case frames of [] \<Rightarrow> Some OK
     | f # fs \<Rightarrow> validate_run buf (if isCodeWithScope f then EndCodeWScope else WithinObj, frames,
         of_nat (q + length (frame (enc_elems es)))))"
proof -
  let ?k = "length (enc_elems es)"
  have d1: "drop q buf = le_bytes 4 (of_nat (?k + 5) :: u32) @ enc_elems es @ 0 # y"
    using d by (simp add: frame_def del: le_bytes.simps)
  have q: "q < 2 ^ 31" using at_length [OF d] len by (simp add: frame_def)
  have d2: "drop (q + 4) buf = enc_elems es @ 0 # y" using at_next [OF d1] by simp
  have d3: "drop (q + 4 + ?k) buf = 0 # y" using at_next [OF d2] .
  have "validate_run buf (BeginObj, frames, of_nat q) =
      validate_run buf (WithinObj, new_frame (of_nat q) False (of_nat (?k + 5)) # frames, of_nat (q + 4))"
    by (rule begin_obj [OF len d1])
  also have "\<dots> = validate_run buf (WithinObj, new_frame (of_nat q) False (of_nat (?k + 5)) # frames, of_nat (q + 4 + ?k))"
    using es d2 new_frame_fields(2) [OF q] unfolding skips_def by blast
  also have "\<dots> = (case frames of [] \<Rightarrow> Some OK
      | f # fs \<Rightarrow> validate_run buf (if isCodeWithScope f then EndCodeWScope else WithinObj, frames, of_nat (q + ?k + 5)))"
    by (rule end_obj [OF len d3 q])
  also have "q + ?k + 5 = q + length (frame (enc_elems es))" by simp
  finally show ?thesis .
qed

lemma scope_run:
  assumes len: "length buf < 2 ^ 31" and d: "drop q buf = enc_value (CodeWScopeV c es) @ y" and es: "skips buf es"
  shows "validate_run buf (BeginCodeWScope, f # fs, of_nat q) =
    validate_run buf (WithinObj, f # fs, of_nat (q + length (enc_value (CodeWScopeV c es))))"
proof -
  let ?n = "length (enc_value (CodeWScopeV c es))" and ?s = "length (sized_string c)"
  let ?g = "new_frame (of_nat q) True (of_nat ?n)"
  have n: "?n = 4 + ?s + length (frame (enc_elems es))" by (simp add: Let_def)
  have d1: "drop q buf = le_bytes 4 (of_nat ?n :: u32) @ sized_string c @ frame (enc_elems es) @ y"
    using d unfolding n by (simp add: Let_def ac_simps del: le_bytes.simps)
  have "length (drop q buf) = 4 + length (sized_string c @ frame (enc_elems es) @ y)" unfolding d1 by simp
  then have q: "q < 2 ^ 31" using len by simp
  have d2: "drop (q + 4) buf = sized_string c @ frame (enc_elems es) @ y" using at_next [OF d1] by simp
  have d3: "drop (q + 4 + ?s) buf = frame (enc_elems es) @ y" using at_next [OF d2] .
  have 1: "validate_step buf (BeginCodeWScope, f # fs, of_nat q) = Inr (BeginObj, ?g # f # fs, of_nat (q + 4 + ?s))"
    using readNumber_at [OF len d1, of 4] readUTF8String_at [OF len d2]
    by (simp del: le_bytes.simps of_nat_add enc_value.simps)
  have 2: "validate_run buf (BeginObj, ?g # f # fs, of_nat (q + 4 + ?s)) =
      validate_run buf (EndCodeWScope, ?g # f # fs, of_nat (q + ?n))"
    using object_run [OF len d3 es, of "?g # f # fs"] new_frame_fields(2) [OF q] unfolding n by (simp add: add.assoc)
  have "actualLength (of_nat (q + ?n)) ?g = expectedSize ?g"
    using actualLength_new [OF q] new_frame_fields(3) [OF q] by (simp only:)
  then have 3: "validate_step buf (EndCodeWScope, ?g # f # fs, of_nat (q + ?n)) = Inr (WithinObj, f # fs, of_nat (q + ?n))"
    by (simp del: of_nat_add enc_value.simps)
  from run_step [OF 1] 2 run_step [OF 3] show ?thesis by simp
qed

lemma within_step:
  assumes "validateElementInfo buf p = Inr (q, st)"
  shows "validate_run buf (WithinObj, frames, p) =
    validate_run buf ((case st of Some s \<Rightarrow> s | None \<Rightarrow> WithinObj), frames, q)"
  by (rule run_step) (simp add: within_obj_def assms)

lemma elem_run:
  assumes len: "length buf < 2 ^ 31" and d: "drop p buf = type_byte v # cstring n @ enc_value v @ y"
    and n: "0 \<notin> set n" and y: "y \<noteq> []" and v: "wf_value v" and f: "\<not> isCodeWithScope f"
    and sub: "\<And>es. v = ObjectV es \<or> v = ArrayV es \<or> (\<exists>c. v = CodeWScopeV c es) \<Longrightarrow> skips buf es"
  shows "validate_run buf (WithinObj, f # fs, of_nat p) = validate_run buf (WithinObj, f # fs, of_nat (p + elem_len n v))"
proof (cases "bson_type v \<in> {3, 4, 15}")
  case False
  from within_step [OF flat_info [OF len d n y v False]] show ?thesis by simp
next
  case True
  let ?q = "p + 1 + length (cstring n)"
  have e: "p + elem_len n v = ?q + length (enc_value v)" by (simp add: elem_len_def)
  note s = within_step [OF object_info [OF len d n True], of "f # fs"]
  have dq: "drop ?q buf = enc_value v @ y" by (rule header_at(3) [OF len d n])
  consider es where "v = ObjectV es \<or> v = ArrayV es" | c es where "v = CodeWScopeV c es"
    using True by (cases v) auto
  then show ?thesis
  proof cases
    case 1
    then have ev: "enc_value v = frame (enc_elems es)" and t: "bson_type v \<noteq> 15" by auto
    from object_run [OF len dq [unfolded ev] sub, of "f # fs"] 1 s t f show ?thesis unfolding e ev by auto
  next
    case 2
    from scope_run [OF len dq [unfolded 2] sub, of f fs] s 2 show ?thesis unfolding e by simp
  qed
qed

lemma skips_elems: 
  assumes len: "length buf < 2 ^ 31"
  shows "wf_value v \<Longrightarrow> (v = ObjectV es \<or> v = ArrayV es \<or> (\<exists>c. v = CodeWScopeV c es)) \<Longrightarrow> skips buf es"
    "wf_elems bs \<Longrightarrow> skips buf bs"
proof (induction v and bs arbitrary: es rule: enc_value_enc_elems.induct)
  case (22 n v bs)
  show ?case unfolding skips_def
  proof (intro allI impI)
    fix p y f fs
    assume d: "drop p buf = enc_elems ((n, v) # bs) @ 0 # y" and f: "\<not> isCodeWithScope f"
    let ?e = "type_byte v # cstring n @ enc_value v"
    have d1: "drop p buf = ?e @ enc_elems bs @ 0 # y" using d by simp
    have d2: "drop (p + elem_len n v) buf = enc_elems bs @ 0 # y"
      using at_next [OF d1] by (simp add: elem_len_def)
    have "validate_run buf (WithinObj, f # fs, of_nat p) = validate_run buf (WithinObj, f # fs, of_nat (p + elem_len n v))"
      by (rule elem_run [OF len, where y = "enc_elems bs @ 0 # y"]) (use d f 22 in auto)
    also have "\<dots> = validate_run buf (WithinObj, f # fs, of_nat (p + elem_len n v + length (enc_elems bs)))"
      using 22 d2 f unfolding skips_def by auto
    finally show "validate_run buf (WithinObj, f # fs, of_nat p) =
        validate_run buf (WithinObj, f # fs, of_nat (p + length (enc_elems ((n, v) # bs))))"
      by (simp add: elem_len_def ac_simps)
  qed
qed (auto simp: skips_def)

section \<open>Properties\<close>

text \<open>
  C17: \<open>validateBSON\<close> terminates on and accepts the encoding of every well-formed document, with
  objects, arrays and code with scope nested to any depth.
\<close>

theorem validate_accepts:
  assumes "wf_obj b"
  shows "validateBSON (enc_obj b) = Some OK"
proof -
  let ?buf = "enc_obj b"
  have len: "length ?buf < 2 ^ 31" using assms by (simp add: wf_obj_def)
  have "drop 0 ?buf = frame (enc_elems b) @ []" by (simp add: enc_obj_def)
  from object_run [OF len this skips_elems(2) [OF len], of "[]"] assms
  show ?thesis by (simp add: validateBSON_def wf_obj_def) (simp add: enc_obj_def)
qed

theorem validate_accepts_witness:
  "validateBSON (enc_obj [(str ''a'', ObjectV [(str ''b'', StringV (str ''x''))])]) = Some OK"
  by (rule validate_accepts)
    (simp add: wf_obj_def enc_obj_def cstring_def sized_string_def str_def of_char_def)

text \<open>
  C6: whatever the bytes, validation of a buffer below 2GB never reads outside it, and a document it
  accepts has a size field within the buffer.
\<close>

theorem validate_safe:
  assumes "length buf < 2 ^ 31" "validateBSON buf = Some r"
  shows "r \<noteq> OutOfBounds \<and> (r = OK \<longrightarrow> unat (le_word (take 4 buf) :: u32) \<le> length buf)"
proof (cases "length buf < 5")
  case True
  then show ?thesis using assms(2) by (auto simp: validateBSON_def)
next
  case False
  have "vinv buf (BeginObj, [], 0)" by (simp add: near_def)
  with False assms validate_run_result [of buf "(BeginObj, [], 0)" r] show ?thesis
    by (auto simp: validateBSON_def)
qed

theorem validate_safe_witness:
  "validateBSON (enc_obj []) = Some OK \<and> unat (le_word (take 4 (enc_obj [])) :: u32) \<le> length (enc_obj [])"
proof -
  from object_run [of "enc_obj []" 0 "[]" "[]" "[]"] skips_elems(2) [of "enc_obj []" "[]"]
  have "validateBSON (enc_obj []) = Some OK"
    by (simp add: validateBSON_def) (simp add: enc_obj_def)
  moreover from this have "unat (le_word (take 4 (enc_obj [])) :: u32) \<le> length (enc_obj [])"
    using validate_safe [of "enc_obj []" OK] by (simp add: enc_obj_def)
  ultimately show ?thesis ..
qed

text \<open>A step that leads back to its own state never ends.\<close>

lemma run_cycle:
  assumes "validate_step buf s = Inr s"
  shows "validate_run buf s = None"
proof (rule ccontr)
  assume "validate_run buf s \<noteq> None"
  then obtain r where "validate_run buf s = Some r" by blast
  then have "\<not> (validate_step buf s = Inr s)"
    by (induction buf s r rule: validate_run.raw_induct [rotated, consumes 1]) (auto split: sum.splits)
  with assms show False by simp
qed

text \<open>
  C18: validation does not terminate on every input: a string of size -7 in an eleven-byte buffer moves
  the position back to the start of its own element, and the loop goes round forever.
\<close>

theorem validate_may_not_terminate:
  "validateBSON [11, 0, 0, 0, 2, 97, 0, 0xf9, 0xff, 0xff, 0xff] = None"
proof -
  let ?buf = "[11, 0, 0, 0, 2, 97, 0, 0xf9, 0xff, 0xff, 0xff] :: byte list"
  let ?s = "(WithinObj, [new_frame 0 False 11], 4) :: vmachine"
  have "validate_step ?buf ?s = Inr ?s" by code_simp
  moreover have "validate_step ?buf (BeginObj, [], 0) = Inr ?s" by code_simp
  ultimately have "validate_run ?buf (BeginObj, [], 0) = None"
    using run_cycle [of ?buf ?s] run_step [of ?buf "(BeginObj, [], 0)" ?s] by simp
  then show ?thesis by (simp add: validateBSON_def)
qed

end
