(* ===== verification/ChunkVersion.thy ===== *)
theory ChunkVersion
  imports BsonObj
begin

unbundle bit_operations_syntax

text \<open>
  Versions of chunks (\<open>s/chunk_version.h\<close>): a major and a minor number that share a 64-bit word, and the
  epoch of the collection.  Shards and routers compare versions to find out that their view of a
  collection is stale.
\<close>

section \<open>Versions\<close>

text \<open>
  The union of the two \<open>int\<close>s and \<open>_combined\<close> is kept as the two, each as its 32-bit pattern; the epoch is
  an object id.  An increment wraps; that of the largest \<open>int\<close> is a signed overflow, which C++ leaves
  undefined.
\<close>

record chunk_version =
  major :: u32
  minor :: u32
  epoch :: bstr

definition no_oid :: bstr where
  "no_oid = replicate 12 0"

definition oid_isSet :: "bstr \<Rightarrow> bool" where
  "oid_isSet i \<longleftrightarrow> i \<noteq> no_oid"

definition combined :: "chunk_version \<Rightarrow> u64" where
  "combined v = push_bit 32 (ucast (major v)) OR ucast (minor v)"

definition version_zero :: chunk_version where
  "version_zero = \<lparr> major = 0, minor = 0, epoch = no_oid \<rparr>"

definition version_make :: "u32 \<Rightarrow> u32 \<Rightarrow> bstr \<Rightarrow> chunk_version" where
  "version_make ma mi e = \<lparr> major = ma, minor = mi, epoch = e \<rparr>"

definition version_of_long :: "u64 \<Rightarrow> bstr \<Rightarrow> chunk_version" where
  "version_of_long ll e = \<lparr> major = ucast (drop_bit 32 ll), minor = ucast ll, epoch = e \<rparr>"

definition incMajor :: "chunk_version \<Rightarrow> chunk_version" where
  "incMajor v = v\<lparr>major := major v + 1, minor := 0\<rparr>"

definition incMinor :: "chunk_version \<Rightarrow> chunk_version" where
  "incMinor v = v\<lparr>minor := minor v + 1\<rparr>"

definition version_inc :: "bool \<Rightarrow> chunk_version \<Rightarrow> chunk_version" where
  "version_inc ma v = (if ma then incMajor v else incMinor v)"

text \<open>\<open>OID::gen()\<close> is the argument.\<close>

definition incEpoch :: "bstr \<Rightarrow> chunk_version \<Rightarrow> chunk_version" where
  "incEpoch gen v = \<lparr> major = 0, minor = 0, epoch = gen \<rparr>"

definition version_isSet :: "chunk_version \<Rightarrow> bool" where
  "version_isSet v \<longleftrightarrow> combined v > 0"

definition isEpochSet :: "chunk_version \<Rightarrow> bool" where
  "isEpochSet v = oid_isSet (epoch v)"

definition version_gt :: "chunk_version \<Rightarrow> chunk_version \<Rightarrow> bool" where
  "version_gt v w \<longleftrightarrow> combined v > combined w"

definition version_ge :: "chunk_version \<Rightarrow> chunk_version \<Rightarrow> bool" where
  "version_ge v w \<longleftrightarrow> combined v \<ge> combined w"

definition version_lt :: "chunk_version \<Rightarrow> chunk_version \<Rightarrow> bool" where
  "version_lt v w \<longleftrightarrow> combined v < combined w"

definition version_le :: "chunk_version \<Rightarrow> chunk_version \<Rightarrow> bool" where
  "version_le v w \<longleftrightarrow> combined v \<le> combined w"

definition hasCompatibleEpoch :: "chunk_version \<Rightarrow> bstr \<Rightarrow> bool" where
  "hasCompatibleEpoch v otherEpoch \<longleftrightarrow>
     \<not> (oid_isSet otherEpoch \<and> oid_isSet (epoch v) \<and> otherEpoch \<noteq> epoch v)"

definition isWriteCompatibleWith :: "chunk_version \<Rightarrow> chunk_version \<Rightarrow> bool" where
  "isWriteCompatibleWith v w \<longleftrightarrow>
     (if \<not> hasCompatibleEpoch v (epoch w) then False else major w = major v)"

definition isEquivalentTo :: "chunk_version \<Rightarrow> chunk_version \<Rightarrow> bool" where
  "isEquivalentTo v w \<longleftrightarrow>
     (if \<not> hasCompatibleEpoch v (epoch w) then False else combined w = combined v)"

section \<open>To and from BSON\<close>

text \<open>
  The version and \<open>*canParse\<close>; \<open>None\<close> is an undefined cast of a double.  The first function reads an
  element, which may be absent, the second an array.  The test \<open>! canParse\<close> of the array form is that
  of a pointer and never holds.
\<close>

function version_fromBSON :: "bson_value option \<Rightarrow> (chunk_version \<times> bool) option"
  and version_fromArray :: "bson \<Rightarrow> (chunk_version \<times> bool) option" where
  "version_fromBSON el =
     (case el of
        None \<Rightarrow> Some (version_of_long 0 no_oid, False)
      | Some v \<Rightarrow>
          (case v of
             ArrayV arr \<Rightarrow> version_fromArray arr
           | OIDV i \<Rightarrow> Some (version_make 0 0 i, True)
           | TimestampV t \<Rightarrow> Some (version_of_long t no_oid, True)
           | DateV t \<Rightarrow> Some (version_of_long t no_oid, True)
           | _ \<Rightarrow> if isNumber v
                  then map_option (\<lambda>n. (version_of_long n no_oid, True)) (numberLong v)
                  else Some (version_of_long 0 no_oid, False)))"
| "version_fromArray [] = Some (version_zero, False)"
| "version_fromArray ((_, v) # es) =
     (case version_fromBSON (Some v) of
        None \<Rightarrow> None
      | Some (version, _) \<Rightarrow>
          (case es of
             (_, OIDV i) # _ \<Rightarrow> Some (version\<lparr>epoch := i\<rparr>, True)
           | _ \<Rightarrow> Some (version, True)))"
  by pat_completeness auto
termination
  by (relation "measure (\<lambda>x. case x of
      Inl el \<Rightarrow> (case el of None \<Rightarrow> 0 | Some v \<Rightarrow> Suc (2 * size v))
    | Inr es \<Rightarrow> 2 * size_list (size_prod (\<lambda>_. 0) size) es)") auto

declare version_fromBSON.simps [simp del]

definition version_fromObj :: "bson \<Rightarrow> bstr \<Rightarrow> (chunk_version \<times> bool) option" where
  "version_fromObj obj prefixIn =
     (let prefix = (if prefixIn = [] \<and> hasField obj (str ''version'') then str ''version''
                    else if prefixIn = [] \<and> hasField obj (str ''lastmod'') then str ''lastmod''
                    else prefixIn)
      in case version_fromBSON (map_option snd (getField obj prefix)) of
           None \<Rightarrow> None
         | Some (version, canParse) \<Rightarrow>
             (case getField obj (prefix @ str ''Epoch'') of
                Some (_, OIDV i) \<Rightarrow> Some (version\<lparr>epoch := i\<rparr>, True)
              | _ \<Rightarrow> Some (version, canParse)))"

definition version_canParse :: "bson_value option \<Rightarrow> bool option" where
  "version_canParse el = map_option snd (version_fromBSON el)"

definition version_toBSON :: "chunk_version \<Rightarrow> bstr \<Rightarrow> bson" where
  "version_toBSON v prefixIn =
     (let prefix = (if prefixIn = [] then str ''version'' else prefixIn)
      in [(prefix, TimestampV (combined v)), (prefix @ str ''Epoch'', OIDV (epoch v))])"

definition version_addToBSON :: "bson \<Rightarrow> chunk_version \<Rightarrow> bstr \<Rightarrow> bson" where
  "version_addToBSON b v prefix = b @ version_toBSON v prefix"

definition addEpochToBSON :: "bson \<Rightarrow> chunk_version \<Rightarrow> bstr \<Rightarrow> bson" where
  "addEpochToBSON b v prefix = b @ [(prefix @ str ''Epoch'', OIDV (epoch v))]"

section \<open>The two numbers in one word\<close>

lemma combined_split [simp]:
  "ucast (drop_bit 32 (combined v)) = major v" "ucast (combined v) = minor v"
  unfolding combined_def by (rule bit_word_eqI; auto simp: bit_simps dest: bit_imp_le_length)+

lemma version_of_combined [simp]: "version_of_long (combined v) (epoch v) = v"
  by (simp add: version_of_long_def)

lemma combined_of_long [simp]: "combined (version_of_long ll e) = ll"
  unfolding combined_def version_of_long_def
  by (rule bit_word_eqI) (auto simp: bit_simps)

lemma unat_u32: "unat (x :: u32) < 2 ^ 32"
  using unsigned_less [of x, where ?'a = nat] by simp

lemma combined_value: "unat (combined v) = unat (major v) * 2 ^ 32 + unat (minor v)"
proof -
  have "uint (combined v) = or (push_bit 32 (uint (major v))) (uint (minor v))"
    by (rule bit_eqI) (auto simp: combined_def bit_simps bit_uint_iff dest: bit_imp_le_length)
  also have "\<dots> = push_bit 32 (uint (major v)) + uint (minor v)"
    by (rule disjunctive_add [symmetric]) (auto simp: bit_simps bit_uint_iff dest: bit_imp_le_length)
  also have "\<dots> = uint (major v) * 2 ^ 32 + uint (minor v)"
    by (simp only: push_bit_eq_mult)
  finally have "int (unat (combined v)) = int (unat (major v) * 2 ^ 32 + unat (minor v))"
    by (simp only: uint_nat of_nat_add of_nat_mult of_nat_power of_nat_numeral)
  then show ?thesis by (simp only: of_nat_eq_iff)
qed

lemma version_lt_iff:
  "version_lt v w \<longleftrightarrow> major v < major w \<or> major v = major w \<and> minor v < minor w"
proof -
  have "version_lt v w \<longleftrightarrow> unat (major v) * 2 ^ 32 + unat (minor v) < unat (major w) * 2 ^ 32 + unat (minor w)"
    by (simp add: version_lt_def word_less_nat_alt combined_value)
  also have "\<dots> \<longleftrightarrow> unat (major v) < unat (major w) \<or> unat (major v) = unat (major w) \<and> unat (minor v) < unat (minor w)"
    using unat_u32 [of "minor v"] unat_u32 [of "minor w"] by auto
  finally show ?thesis by (simp add: word_less_nat_alt word_unat_eq_iff)
qed

section \<open>Properties\<close>

text \<open>
  C32: versions order by major and then by minor number, and incrementing either gives a greater
  version as long as the number does not overflow; a new minor version stays write compatible, a new
  major version does not.
\<close>

theorem version_order:
  assumes "major v \<notin> {0x7FFFFFFF, - 1}" "minor v \<notin> {0x7FFFFFFF, - 1}"
  shows "(version_lt v w \<longleftrightarrow> major v < major w \<or> major v = major w \<and> minor v < minor w) \<and>
    version_lt v (version_inc ma v) \<and> (isWriteCompatibleWith v (version_inc ma v) \<longleftrightarrow> \<not> ma)"
  using assms
  by (auto simp: version_lt_iff version_inc_def incMajor_def incMinor_def isWriteCompatibleWith_def hasCompatibleEpoch_def)

theorem version_order_witness:
  "version_lt (version_make 1 2 no_oid) (version_inc True (version_make 1 2 no_oid)) \<and>
   \<not> isWriteCompatibleWith (version_make 1 2 no_oid) (version_inc True (version_make 1 2 no_oid))"
  using version_order [of "version_make 1 2 no_oid" version_zero True] by (simp add: version_make_def)

text \<open>
  C33: a version written to BSON is read back, under every field prefix, with its epoch and with
  \<open>canParse\<close> set.
\<close>

theorem version_roundtrip:
  "version_fromObj (version_toBSON v prefix) prefix = Some (v, True)"
proof -
  let ?p = "if prefix = [] then str ''version'' else prefix"
  have e: "str ''Epoch'' \<noteq> []" by (simp add: str_def)
  have v: "str ''version'' \<noteq> []" by (simp add: str_def)
  have f: "getField (version_toBSON v prefix) ?p = Some (?p, TimestampV (combined v))"
    "getField (version_toBSON v prefix) (?p @ str ''Epoch'') = Some (?p @ str ''Epoch'', OIDV (epoch v))"
    using e by (simp_all add: version_toBSON_def Let_def)
  have p: "(if prefix = [] \<and> hasField (version_toBSON v prefix) (str ''version'') then str ''version''
      else if prefix = [] \<and> hasField (version_toBSON v prefix) (str ''lastmod'') then str ''lastmod'' else prefix) = ?p"
    by (simp add: hasField_def version_toBSON_def Let_def)
  show ?thesis unfolding version_fromObj_def p Let_def f by (simp add: version_fromBSON.simps version_of_long_def)
qed

text \<open>The array form reports success whatever its first element is.\<close>

lemma array_always_parses:
  "version_canParse (Some (ArrayV [(n, StringV s)])) = Some True" "version_canParse (Some (StringV s)) = Some False"
  by (simp_all add: version_canParse_def version_fromBSON.simps [of "Some (StringV _)"]
      version_fromBSON.simps [of "Some (ArrayV _)"])

end
