(* ===== verification/OrdMap.thy ===== *)
theory OrdMap
  imports Comparators
begin

text \<open>
  Ordered maps as the C++ code uses \<open>std::map\<close>: the entries in increasing order of their keys, which
  a three-way comparison orders, iterators as positions, and the maps from the lower to the upper
  bound of half-open ranges that the sharding code keeps.  What lookups and updates promise is proved
  once, for every comparison that satisfies the contract \<open>three_way\<close>.
\<close>

section \<open>Operations\<close>

type_synonym ('k, 'v) omap = "('k \<times> 'v) list"

fun om_find :: "('k \<Rightarrow> 'k \<Rightarrow> int) \<Rightarrow> 'k \<Rightarrow> ('k, 'v) omap \<Rightarrow> ('k \<times> 'v) option" where
  "om_find cmp k [] = None"
| "om_find cmp k (e # m) =
     (if cmp (fst e) k < 0 then om_find cmp k m
      else if cmp k (fst e) < 0 then None else Some e)"

text \<open>\<open>insert\<close> leaves an existing entry alone, an assignment through \<open>[]\<close> keeps only its key.\<close>

fun om_insert :: "('k \<Rightarrow> 'k \<Rightarrow> int) \<Rightarrow> 'k \<Rightarrow> 'v \<Rightarrow> ('k, 'v) omap \<Rightarrow> ('k, 'v) omap" where
  "om_insert cmp k v [] = [(k, v)]"
| "om_insert cmp k v (e # m) =
     (if cmp (fst e) k < 0 then e # om_insert cmp k v m
      else if cmp k (fst e) < 0 then (k, v) # e # m else e # m)"

fun om_put :: "('k \<Rightarrow> 'k \<Rightarrow> int) \<Rightarrow> 'k \<Rightarrow> 'v \<Rightarrow> ('k, 'v) omap \<Rightarrow> ('k, 'v) omap" where
  "om_put cmp k v [] = [(k, v)]"
| "om_put cmp k v (e # m) =
     (if cmp (fst e) k < 0 then e # om_put cmp k v m
      else if cmp k (fst e) < 0 then (k, v) # e # m else (fst e, v) # m)"

fun om_erase :: "('k \<Rightarrow> 'k \<Rightarrow> int) \<Rightarrow> 'k \<Rightarrow> ('k, 'v) omap \<Rightarrow> ('k, 'v) omap" where
  "om_erase cmp k [] = []"
| "om_erase cmp k (e # m) =
     (if cmp (fst e) k < 0 then e # om_erase cmp k m
      else if cmp k (fst e) < 0 then e # m else m)"

definition lower_bound :: "('k \<Rightarrow> 'k \<Rightarrow> int) \<Rightarrow> 'k \<Rightarrow> ('k, 'v) omap \<Rightarrow> nat" where
  "lower_bound cmp k m = length (takeWhile (\<lambda>e. cmp (fst e) k < 0) m)"

definition upper_bound :: "('k \<Rightarrow> 'k \<Rightarrow> int) \<Rightarrow> 'k \<Rightarrow> ('k, 'v) omap \<Rightarrow> nat" where
  "upper_bound cmp k m = length (takeWhile (\<lambda>e. \<not> cmp k (fst e) < 0) m)"

definition om_erase_range :: "nat \<Rightarrow> nat \<Rightarrow> ('k, 'v) omap \<Rightarrow> ('k, 'v) omap" where
  "om_erase_range low high m = take low m @ drop high m"

text \<open>The entry before an iterator, the first one when there is none before it.\<close>

definition step_back :: "nat \<Rightarrow> nat" where
  "step_back i = (if i \<noteq> 0 then i - 1 else i)"

definition om_sorted :: "('k \<Rightarrow> bool) \<Rightarrow> ('k \<Rightarrow> 'k \<Rightarrow> int) \<Rightarrow> ('k, 'v) omap \<Rightarrow> bool" where
  "om_sorted D cmp m \<longleftrightarrow> (\<forall>e \<in> set m. D (fst e)) \<and> sorted_wrt (\<lambda>e f. cmp (fst e) (fst f) < 0) m"

section \<open>Ranges\<close>

text \<open>A point of a half-open range, two ranges with a common point, and maps of disjoint ranges.\<close>

definition in_range :: "('k \<Rightarrow> 'k \<Rightarrow> int) \<Rightarrow> 'k \<times> 'k \<Rightarrow> 'k \<Rightarrow> bool" where
  "in_range cmp r p \<longleftrightarrow> cmp p (fst r) \<ge> 0 \<and> cmp p (snd r) < 0"

definition ranges_meet :: "('k \<Rightarrow> 'k \<Rightarrow> int) \<Rightarrow> 'k \<times> 'k \<Rightarrow> 'k \<times> 'k \<Rightarrow> bool" where
  "ranges_meet cmp r s \<longleftrightarrow> \<not> (cmp (snd r) (fst s) \<le> 0 \<or> cmp (snd s) (fst r) \<le> 0)"

definition range_ok :: "('k \<Rightarrow> bool) \<Rightarrow> ('k \<Rightarrow> 'k \<Rightarrow> int) \<Rightarrow> 'k \<times> 'k \<Rightarrow> bool" where
  "range_ok D cmp r \<longleftrightarrow> D (fst r) \<and> D (snd r) \<and> cmp (fst r) (snd r) < 0"

definition ranges_ok :: "('k \<Rightarrow> bool) \<Rightarrow> ('k \<Rightarrow> 'k \<Rightarrow> int) \<Rightarrow> ('k, 'k) omap \<Rightarrow> bool" where
  "ranges_ok D cmp m \<longleftrightarrow>
     (\<forall>r \<in> set m. range_ok D cmp r) \<and> sorted_wrt (\<lambda>r s. cmp (snd r) (fst s) \<le> 0) m"

definition covers :: "('k \<Rightarrow> 'k \<Rightarrow> int) \<Rightarrow> ('k, 'k) omap \<Rightarrow> 'k \<Rightarrow> bool" where
  "covers cmp m p \<longleftrightarrow> (\<exists>r \<in> set m. in_range cmp r p)"

lemma om_sorted_simps [simp]:
  "om_sorted D cmp []"
  "om_sorted D cmp (e # m) \<longleftrightarrow> D (fst e) \<and> (\<forall>f \<in> set m. cmp (fst e) (fst f) < 0) \<and> om_sorted D cmp m"
  by (auto simp: om_sorted_def)

lemma ranges_ok_simps [simp]:
  "ranges_ok D cmp []"
  "ranges_ok D cmp (r # m) \<longleftrightarrow>
     range_ok D cmp r \<and> (\<forall>s \<in> set m. cmp (snd r) (fst s) \<le> 0) \<and> ranges_ok D cmp m"
  by (auto simp: ranges_ok_def)

lemma covers_simps [simp]:
  "\<not> covers cmp [] p" "covers cmp (r # m) p \<longleftrightarrow> in_range cmp r p \<or> covers cmp m p"
  "covers cmp (m @ m') p \<longleftrightarrow> covers cmp m p \<or> covers cmp m' p"
  by (auto simp: covers_def)

lemma ranges_ok_append:
  "ranges_ok D cmp (m @ m') \<longleftrightarrow> ranges_ok D cmp m \<and> ranges_ok D cmp m' \<and>
     (\<forall>r \<in> set m. \<forall>s \<in> set m'. cmp (snd r) (fst s) \<le> 0)"
  by (induction m) auto

lemma ranges_ok_mem: "ranges_ok D cmp m \<Longrightarrow> r \<in> set m \<Longrightarrow> range_ok D cmp r"
  by (auto simp: ranges_ok_def)

lemma om_insert_set: "set (om_insert cmp k v m) \<subseteq> insert (k, v) (set m)"
  by (induction m) auto

lemma om_find_mem: "om_find cmp k m = Some e \<Longrightarrow> e \<in> set m \<and> \<not> cmp (fst e) k < 0 \<and> \<not> cmp k (fst e) < 0"
  by (induction m) (auto split: if_splits)

section \<open>What the operations promise\<close>

locale ordered_map = three_way
begin

lemma ge_iff: "dom a \<Longrightarrow> dom b \<Longrightarrow> 0 \<le> cmp a b \<longleftrightarrow> cmp b a \<le> 0"
  using antisym [of a b] by (auto simp: sgn_if split: if_splits)

lemma not_less: "dom a \<Longrightarrow> dom b \<Longrightarrow> \<not> cmp a b < 0 \<longleftrightarrow> cmp b a \<le> 0"
  using ge_iff [of a b] by auto

lemma less_le_trans: "dom a \<Longrightarrow> dom b \<Longrightarrow> dom c \<Longrightarrow> cmp a b < 0 \<Longrightarrow> cmp b c \<le> 0 \<Longrightarrow> cmp a c < 0"
  using fits [of a b c] by (auto simp: tri_def)

lemma le_less_trans: "dom a \<Longrightarrow> dom b \<Longrightarrow> dom c \<Longrightarrow> cmp a b \<le> 0 \<Longrightarrow> cmp b c < 0 \<Longrightarrow> cmp a c < 0"
  using fits [of a b c] by (auto simp: tri_def)

lemma range_dom [dest]: "range_ok dom cmp r \<Longrightarrow> dom (fst r)" "range_ok dom cmp r \<Longrightarrow> dom (snd r)"
  by (simp_all add: range_ok_def)

text \<open>A map of disjoint ranges is an ordered map of their lower bounds.\<close>

lemma ranges_sorted: "ranges_ok dom cmp m \<Longrightarrow> om_sorted dom cmp m"
proof (induction m)
  case (Cons r m)
  have "cmp (fst r) (fst s) < 0" if "s \<in> set m" for s
    using Cons.prems that ranges_ok_mem [of dom cmp m s] less_le_trans [of "fst r" "snd r" "fst s"]
    by (auto simp: range_ok_def)
  with Cons show ?case by auto
qed simp

lemma upper_bound_split:
  assumes "om_sorted dom cmp m" "dom p"
  obtains xs ys where "m = xs @ ys" "upper_bound cmp p m = length xs"
    "\<And>e. e \<in> set xs \<Longrightarrow> 0 \<le> cmp p (fst e)" "\<And>e. e \<in> set ys \<Longrightarrow> cmp p (fst e) < 0"
proof -
  have "\<exists>xs ys. m = xs @ ys \<and> upper_bound cmp p m = length xs \<and>
    (\<forall>e \<in> set xs. 0 \<le> cmp p (fst e)) \<and> (\<forall>e \<in> set ys. cmp p (fst e) < 0)"
    using assms(1)
  proof (induction m)
    case (Cons e m)
    show ?case
    proof (cases "cmp p (fst e) < 0")
      case True
      have "cmp p (fst f) < 0" if "f \<in> set m" for f
        using Cons.prems True that assms(2) less_trans [of p "fst e" "fst f"] by (auto simp: om_sorted_def)
      with True show ?thesis by (intro exI [of _ "[]"] exI [of _ "e # m"]) (auto simp: upper_bound_def)
    next
      case False
      from Cons obtain xs ys where "m = xs @ ys" "upper_bound cmp p m = length xs"
        "\<forall>e \<in> set xs. 0 \<le> cmp p (fst e)" "\<forall>e \<in> set ys. cmp p (fst e) < 0" by auto
      with False show ?thesis by (intro exI [of _ "e # xs"] exI [of _ ys]) (auto simp: upper_bound_def)
    qed
  qed (simp add: upper_bound_def)
  then show ?thesis using that by blast
qed

lemma lower_bound_split:
  assumes "om_sorted dom cmp m" "dom p"
  obtains xs ys where "m = xs @ ys" "lower_bound cmp p m = length xs"
    "\<And>e. e \<in> set xs \<Longrightarrow> cmp (fst e) p < 0" "\<And>e. e \<in> set ys \<Longrightarrow> cmp p (fst e) \<le> 0"
proof -
  have "\<exists>xs ys. m = xs @ ys \<and> lower_bound cmp p m = length xs \<and>
    (\<forall>e \<in> set xs. cmp (fst e) p < 0) \<and> (\<forall>e \<in> set ys. cmp p (fst e) \<le> 0)"
    using assms(1)
  proof (induction m)
    case (Cons e m)
    show ?case
    proof (cases "cmp (fst e) p < 0")
      case True
      from Cons obtain xs ys where "m = xs @ ys" "lower_bound cmp p m = length xs"
        "\<forall>e \<in> set xs. cmp (fst e) p < 0" "\<forall>e \<in> set ys. cmp p (fst e) \<le> 0" by auto
      with True show ?thesis by (intro exI [of _ "e # xs"] exI [of _ ys]) (auto simp: lower_bound_def)
    next
      case False
      then have le: "cmp p (fst e) \<le> 0" using Cons.prems assms(2) by (simp add: not_less)
      have "cmp p (fst f) \<le> 0" if "f \<in> set m" for f
        using Cons.prems le that assms(2) le_trans [of p "fst e" "fst f"] by (auto simp: om_sorted_def)
      with False le show ?thesis by (intro exI [of _ "[]"] exI [of _ "e # m"]) (auto simp: lower_bound_def)
    qed
  qed (simp add: lower_bound_def)
  then show ?thesis using that by blast
qed

text \<open>The last range that starts at or before a point contains it if any does.\<close>

lemma step_back_lookup:
  assumes ok: "ranges_ok dom cmp m" and p: "dom p" and "m \<noteq> []"
  shows "in_range cmp (m ! step_back (upper_bound cmp p m)) p \<longleftrightarrow> covers cmp m p"
proof -
  obtain xs ys where m: "m = xs @ ys" "upper_bound cmp p m = length xs"
    and xs: "\<And>e. e \<in> set xs \<Longrightarrow> 0 \<le> cmp p (fst e)" and ys: "\<And>e. e \<in> set ys \<Longrightarrow> cmp p (fst e) < 0"
    using upper_bound_split [OF ranges_sorted [OF ok] p] by blast
  have no: "\<not> covers cmp ys p" using ys by (fastforce simp: covers_def in_range_def)
  show ?thesis
  proof (cases xs rule: rev_cases)
    case Nil
    then have "m ! 0 \<in> set ys" using m \<open>m \<noteq> []\<close> by (cases ys) auto
    with ys have "\<not> in_range cmp (m ! 0) p" by (fastforce simp: in_range_def)
    with no m(1) Nil show ?thesis unfolding m(2) step_back_def by simp
  next
    case (snoc xs' e)
    have "\<not> in_range cmp r p" if "r \<in> set xs'" for r
    proof -
      have "cmp (snd r) (fst e) \<le> 0" "range_ok dom cmp r" "range_ok dom cmp e"
        using ok that m(1) snoc by (auto simp: ranges_ok_append intro: ranges_ok_mem)
      then have "cmp (snd r) p \<le> 0"
        using xs [of e] p snoc le_trans [of "snd r" "fst e" p] ge_iff [of p "fst e"] by auto
      then show ?thesis using \<open>range_ok dom cmp r\<close> p ge_iff [of p "snd r"] by (auto simp: in_range_def)
    qed
    then have "\<not> covers cmp xs' p" by (auto simp: covers_def)
    moreover have "m ! step_back (length xs) = e" using m(1) snoc by (simp add: step_back_def nth_append)
    ultimately show ?thesis unfolding m(2) using m(1) snoc no by auto
  qed
qed

text \<open>The last range that starts before the end of another meets it if any does.\<close>

lemma step_back_meets:
  assumes ok: "ranges_ok dom cmp m" and r: "range_ok dom cmp r" and "m \<noteq> []"
  shows "ranges_meet cmp r (m ! step_back (lower_bound cmp (snd r) m)) \<longleftrightarrow> (\<exists>s \<in> set m. ranges_meet cmp r s)"
proof -
  obtain xs ys where m: "m = xs @ ys" "lower_bound cmp (snd r) m = length xs"
    and xs: "\<And>e. e \<in> set xs \<Longrightarrow> cmp (fst e) (snd r) < 0" and ys: "\<And>e. e \<in> set ys \<Longrightarrow> cmp (snd r) (fst e) \<le> 0"
    using lower_bound_split [OF ranges_sorted [OF ok], of "snd r"] r by blast
  have no: "\<not> ranges_meet cmp r s" if "s \<in> set ys" for s using ys that by (auto simp: ranges_meet_def)
  show ?thesis
  proof (cases xs rule: rev_cases)
    case Nil
    then have "m ! 0 \<in> set ys" using m \<open>m \<noteq> []\<close> by (cases ys) auto
    with no m(1) Nil show ?thesis unfolding m(2) step_back_def by auto
  next
    case (snoc xs' e)
    have e: "m ! step_back (length xs) = e" using m(1) snoc by (simp add: step_back_def nth_append)
    have "ranges_meet cmp r e" if s: "s \<in> set xs'" "ranges_meet cmp r s" for s
    proof -
      have *: "cmp (snd s) (fst e) \<le> 0" "range_ok dom cmp s" "range_ok dom cmp e"
        using ok that m(1) snoc by (auto simp: ranges_ok_append intro: ranges_ok_mem)
      have "cmp (fst r) (snd s) < 0"
        using s(2) r * not_less [of "fst r" "snd s"] by (auto simp: ranges_meet_def)
      then have "cmp (fst r) (fst e) < 0"
        using * r less_le_trans [of "fst r" "snd s" "fst e"] by auto
      then have "cmp (fst r) (snd e) < 0"
        using * r less_trans [of "fst r" "fst e" "snd e"] by (auto simp: range_ok_def)
      then show ?thesis
        using xs [of e] snoc r * not_less [of "fst r" "snd e"] not_less [of "fst e" "snd r"] by (auto simp: ranges_meet_def)
    qed
    then show ?thesis unfolding m(2) e using m(1) snoc no by auto
  qed
qed

text \<open>Updates of a map of ranges.\<close>

lemma insert_range:
  assumes "ranges_ok dom cmp m" "range_ok dom cmp r" "\<And>s. s \<in> set m \<Longrightarrow> \<not> ranges_meet cmp r s"
  shows "ranges_ok dom cmp (om_insert cmp (fst r) (snd r) m) \<and>
    set (om_insert cmp (fst r) (snd r) m) = insert r (set m)"
  using assms(1,3)
proof (induction m)
  case (Cons s m)
  have s: "range_ok dom cmp s" using Cons.prems by simp
  from Cons.prems(2) [of s] have d: "cmp (snd r) (fst s) \<le> 0 \<or> cmp (snd s) (fst r) \<le> 0"
    by (auto simp: ranges_meet_def)
  show ?case
  proof (cases "cmp (fst s) (fst r) < 0")
    case True
    have "\<not> cmp (snd r) (fst s) \<le> 0"
      using True s assms(2) less_trans [of "fst s" "fst r" "snd r"] not_less [of "fst s" "snd r"]
      by (auto simp: range_ok_def)
    with d have "cmp (snd s) (fst r) \<le> 0" by simp
    with True Cons show ?thesis by auto
  next
    case False
    then have le: "cmp (fst r) (fst s) \<le> 0" using s assms(2) not_less [of "fst s" "fst r"] by blast
    have "\<not> cmp (snd s) (fst r) \<le> 0"
      using le s assms(2) le_less_trans [of "fst r" "fst s" "snd s"] not_less [of "fst r" "snd s"]
      by (auto simp: range_ok_def)
    with d have rs: "cmp (snd r) (fst s) \<le> 0" by simp
    then have lt: "cmp (fst r) (fst s) < 0"
      using s assms(2) less_le_trans [of "fst r" "snd r" "fst s"] by (auto simp: range_ok_def)
    have "cmp (snd r) (fst t) \<le> 0" if "t \<in> set m" for t
    proof -
      have t: "range_ok dom cmp t" "cmp (snd s) (fst t) \<le> 0"
        using Cons.prems(1) that by (auto intro: ranges_ok_mem)
      have "cmp (snd r) (snd s) \<le> 0"
        using rs s assms(2) le_trans [of "snd r" "fst s" "snd s"] by (auto simp: range_ok_def)
      with t s assms(2) show ?thesis using le_trans [of "snd r" "snd s" "fst t"] by auto
    qed
    with False lt rs Cons.prems assms(2) show ?thesis by (cases r) auto
  qed
qed (use assms(2) in simp)

lemma find_in_ranges:
  assumes "om_sorted dom cmp m" "dom k" "e \<in> set m" "cmp (fst e) k = 0"
  shows "om_find cmp k m = Some e"
  using assms(1,3)
proof (induction m)
  case (Cons f m)
  have k: "cmp k (fst e) = 0" using assms(2,4) Cons.prems eq_sym by (auto simp: om_sorted_def)
  show ?case
  proof (cases "f = e")
    case True
    with assms(4) k show ?thesis by simp
  next
    case False
    with Cons.prems have "e \<in> set m" "cmp (fst f) (fst e) < 0" "dom (fst f)" "dom (fst e)"
      by (auto simp: om_sorted_def)
    then have "cmp (fst f) k < 0" using assms(2,4) less_le_trans [of "fst f" "fst e" k] by simp
    with Cons \<open>e \<in> set m\<close> show ?thesis by simp
  qed
qed simp

lemma find_none:
  assumes "om_sorted dom cmp m" "dom k"
  shows "om_find cmp k m = None \<longleftrightarrow> (\<forall>e \<in> set m. cmp (fst e) k \<noteq> 0)"
proof (cases "om_find cmp k m")
  case None
  then have "cmp (fst e) k \<noteq> 0" if "e \<in> set m" for e using find_in_ranges [OF assms that] by auto
  with None show ?thesis by simp
next
  case (Some e)
  then have *: "e \<in> set m" "\<not> cmp (fst e) k < 0" "\<not> cmp k (fst e) < 0" using om_find_mem by metis+
  then have "dom (fst e)" using assms(1) by (auto simp: om_sorted_def)
  with * assms(2) have "cmp (fst e) k = 0" using not_less [of "fst e" k] not_less [of k "fst e"] by simp
  with * Some show ?thesis by auto
qed

lemma erase_range:
  assumes "ranges_ok dom cmp m" "dom k" "om_find cmp k m = Some e"
  shows "ranges_ok dom cmp (om_erase cmp k m) \<and> set (om_erase cmp k m) = set m - {e}"
proof -
  have "ranges_ok dom cmp (om_erase cmp k m) \<and> set (om_erase cmp k m) = set m - {e}"
    if "om_sorted dom cmp m" "ranges_ok dom cmp m" "om_find cmp k m = Some e" for m
    using that
  proof (induction m)
    case (Cons f m)
    have notin: "f \<notin> set m" using Cons.prems(1) refl [of "fst f"] by fastforce
    show ?case
    proof (cases "cmp (fst f) k < 0")
      case True
      then have "e \<in> set m" using Cons.prems(3) om_find_mem [of cmp k m e] by simp
      with True notin Cons show ?thesis by auto
    next
      case False
      with notin Cons.prems show ?thesis by (auto split: if_splits)
    qed
  qed simp
  with ranges_sorted assms show ?thesis by blast
qed

text \<open>Ranges of such a map are disjoint, so that taking one out takes its points out.\<close>

lemma covers_remove:
  assumes ok: "ranges_ok dom cmp m" and "r \<in> set m" and p: "dom p" and m': "set m' = set m - {r}"
  shows "covers cmp m' p \<longleftrightarrow> covers cmp m p \<and> \<not> in_range cmp r p"
proof -
  have "s = r" if "s \<in> set m" "in_range cmp s p" "in_range cmp r p" for s
    using ok assms(2) that
  proof (induction m)
    case (Cons t m)
    have *: "\<not> in_range cmp u p" if "u \<in> set m" "in_range cmp t p" for u
    proof -
      have "range_ok dom cmp t" "range_ok dom cmp u" "cmp (snd t) (fst u) \<le> 0"
        using Cons.prems(1) that by (auto intro: ranges_ok_mem)
      then have "cmp p (fst u) < 0"
        using that(2) p less_le_trans [of p "snd t" "fst u"] by (auto simp: in_range_def)
      then show ?thesis by (simp add: in_range_def)
    qed
    show ?case using Cons.prems Cons.IH * [of s] * [of r] by auto
  qed simp
  then show ?thesis using m' assms(2) by (auto simp: covers_def)
qed

text \<open>The entries between two bounds, and insertion of a key that is not there.\<close>

lemma takeWhile_below:
  assumes "om_sorted dom cmp m" "dom k"
  shows "takeWhile (\<lambda>e. cmp (fst e) k < 0) m = filter (\<lambda>e. cmp (fst e) k < 0) m \<and>
    dropWhile (\<lambda>e. cmp (fst e) k < 0) m = filter (\<lambda>e. \<not> cmp (fst e) k < 0) m"
  using assms(1)
proof (induction m)
  case (Cons e m)
  show ?case
  proof (cases "cmp (fst e) k < 0")
    case True
    with Cons show ?thesis by simp
  next
    case False
    have "\<not> cmp (fst f) k < 0" if "f \<in> set m" for f
      using Cons.prems False that assms(2) less_trans [of "fst e" "fst f" k] by (auto simp: om_sorted_def)
    with False show ?thesis by (auto simp: filter_empty_conv)
  qed
qed simp

lemma erase_between:
  assumes "om_sorted dom cmp m" "dom lo" "dom hi" "cmp lo hi \<le> 0"
  shows "lower_bound cmp lo m \<le> lower_bound cmp hi m"
    "om_erase_range (lower_bound cmp lo m) (lower_bound cmp hi m) m =
       filter (\<lambda>e. cmp (fst e) lo < 0 \<or> \<not> cmp (fst e) hi < 0) m"
    "lower_bound cmp lo m \<noteq> lower_bound cmp hi m \<longleftrightarrow> (\<exists>e \<in> set m. \<not> cmp (fst e) lo < 0 \<and> cmp (fst e) hi < 0)"
proof -
  let ?lo = "\<lambda>e. cmp (fst e) lo < 0" and ?hi = "\<lambda>e. cmp (fst e) hi < 0"
  have imp: "?hi e" if "e \<in> set m" "?lo e" for e
    using less_le_trans [of "fst e" lo hi] that assms by (auto simp: om_sorted_def)
  have m: "m = filter ?lo m @ filter (\<lambda>e. \<not> ?lo e) m"
    using takeWhile_below [OF assms(1,2)] takeWhile_dropWhile_id [of ?lo m] by simp
  have split: "filter P m = filter (\<lambda>e. ?lo e \<and> P e) m @ filter (\<lambda>e. \<not> ?lo e \<and> P e) m" for P
    by (subst m) simp
  have "filter ?hi m = filter ?lo m @ filter (\<lambda>e. \<not> ?lo e \<and> ?hi e) m"
    unfolding split [of ?hi] using imp by (auto intro: filter_cong)
  then have len: "length (filter ?hi m) = length (filter ?lo m) + length (filter (\<lambda>e. \<not> ?lo e \<and> ?hi e) m)"
    by (metis length_append)
  have lo: "lower_bound cmp lo m = length (filter ?lo m)" and hi: "lower_bound cmp hi m = length (filter ?hi m)"
    unfolding lower_bound_def using takeWhile_below [OF assms(1,2)] takeWhile_below [OF assms(1,3)] by simp_all
  show "lower_bound cmp lo m \<le> lower_bound cmp hi m" unfolding lo hi len by simp
  show "lower_bound cmp lo m \<noteq> lower_bound cmp hi m \<longleftrightarrow> (\<exists>e \<in> set m. \<not> cmp (fst e) lo < 0 \<and> cmp (fst e) hi < 0)"
    unfolding lo hi len by (auto simp: filter_empty_conv)
  have "take (lower_bound cmp lo m) m = filter ?lo m"
    unfolding lower_bound_def using takeWhile_below [OF assms(1,2)] by (metis takeWhile_eq_take)
  moreover have "drop (lower_bound cmp hi m) m = filter (\<lambda>e. \<not> ?hi e) m"
    unfolding lower_bound_def using takeWhile_below [OF assms(1,3)] by (metis dropWhile_eq_drop)
  moreover have "filter (\<lambda>e. ?lo e \<or> \<not> ?hi e) m = filter ?lo m @ filter (\<lambda>e. \<not> ?hi e) m"
    unfolding split [of "\<lambda>e. ?lo e \<or> \<not> ?hi e"] 
    by (rule arg_cong2 [where f = append]; rule filter_cong; use imp in blast)
  ultimately show "om_erase_range (lower_bound cmp lo m) (lower_bound cmp hi m) m =
       filter (\<lambda>e. cmp (fst e) lo < 0 \<or> \<not> cmp (fst e) hi < 0) m"
    unfolding om_erase_range_def by simp
qed

lemma insert_new:
  assumes "om_sorted dom cmp m" "dom k" "\<forall>e \<in> set m. cmp (fst e) k \<noteq> 0"
  shows "om_sorted dom cmp (om_insert cmp k v m) \<and> set (om_insert cmp k v m) = insert (k, v) (set m)"
  using assms(1,3)
proof (induction m)
  case (Cons e m)
  show ?case
  proof (cases "cmp (fst e) k < 0")
    case True
    with Cons show ?thesis by auto
  next
    case False
    with Cons.prems assms(2) have lt: "cmp k (fst e) < 0"
      using not_less [of "fst e" k] eq_sym [of k "fst e"] by (cases "cmp k (fst e) = 0") auto
    have "cmp k (fst f) < 0" if "f \<in> set m" for f
      using Cons.prems lt that assms(2) less_trans [of k "fst e" "fst f"] by (auto simp: om_sorted_def)
    with False lt Cons.prems assms(2) show ?thesis by auto
  qed
qed (use assms(2) in simp)

text \<open>Insertion of a key that is there changes nothing, so a map is a set of keys up to equality.\<close>

lemma insert_existing:
  assumes "om_sorted dom cmp m" "dom k" "e \<in> set m" "cmp (fst e) k = 0"
  shows "om_insert cmp k v m = m"
  using assms(1,3)
proof (induction m)
  case (Cons f m)
  have k: "cmp k (fst e) = 0" using assms(2,4) Cons.prems eq_sym by (auto simp: om_sorted_def)
  show ?case
  proof (cases "f = e")
    case True
    with assms(4) k show ?thesis by simp
  next
    case False
    with Cons.prems have "e \<in> set m" "cmp (fst f) (fst e) < 0" "dom (fst f)" "dom (fst e)" by (auto simp: om_sorted_def)
    moreover then have "cmp (fst f) k < 0" using assms(2,4) less_le_trans [of "fst f" "fst e" k] by simp
    ultimately show ?thesis using Cons by simp
  qed
qed simp

lemma insert_members:
  assumes "om_sorted dom cmp m" "dom k"
  shows "om_sorted dom cmp (om_insert cmp k v m)"
    "dom x \<Longrightarrow> (\<exists>e \<in> set (om_insert cmp k v m). cmp (fst e) x = 0) \<longleftrightarrow> cmp k x = 0 \<or> (\<exists>e \<in> set m. cmp (fst e) x = 0)"
proof -
  have "om_sorted dom cmp (om_insert cmp k v m) \<and>
    (dom x \<longrightarrow> (\<exists>e \<in> set (om_insert cmp k v m). cmp (fst e) x = 0) \<longleftrightarrow> cmp k x = 0 \<or> (\<exists>e \<in> set m. cmp (fst e) x = 0))" for x
  proof (cases "\<exists>e \<in> set m. cmp (fst e) k = 0")
    case True
    then obtain e where e: "e \<in> set m" "cmp (fst e) k = 0" by auto
    have "cmp (fst e) x = 0" if "dom x" "cmp k x = 0"
      using eq_cong [of "fst e" k x] assms e that by (auto simp: om_sorted_def sgn_if split: if_splits)
    with insert_existing [OF assms e] assms(1) e show ?thesis by auto
  next
    case False
    with insert_new [OF assms, of v] show ?thesis by auto
  qed
  then show "om_sorted dom cmp (om_insert cmp k v m)"
    "dom x \<Longrightarrow> (\<exists>e \<in> set (om_insert cmp k v m). cmp (fst e) x = 0) \<longleftrightarrow> cmp k x = 0 \<or> (\<exists>e \<in> set m. cmp (fst e) x = 0)" by auto
qed

text \<open>Disjoint ranges do not start inside each other.\<close>

lemma apart_starts:
  assumes "range_ok dom cmp r" "range_ok dom cmp s" "\<not> ranges_meet cmp r s"
  shows "\<not> in_range cmp r (fst s)" "\<not> in_range cmp s (fst r)"
proof -
  have start: "\<not> in_range cmp r (fst s)" if "range_ok dom cmp r" "range_ok dom cmp s" "\<not> ranges_meet cmp r s" for r s
  proof
    assume i: "in_range cmp r (fst s)"
    with that have "\<not> cmp (snd r) (fst s) \<le> 0"
      using not_less [of "fst s" "snd r"] by (auto simp: in_range_def)
    with that(3) have "cmp (snd s) (fst r) \<le> 0" by (simp add: ranges_meet_def)
    moreover have "cmp (fst r) (fst s) \<le> 0" using i that ge_iff [of "fst s" "fst r"] by (auto simp: in_range_def)
    ultimately have "cmp (snd s) (fst s) \<le> 0" using that le_trans [of "snd s" "fst r" "fst s"] by blast
    with that(2) not_less [of "fst s" "snd s"] show False by (auto simp: range_ok_def)
  qed
  from start [OF assms] show "\<not> in_range cmp r (fst s)" .
  from start [OF assms(2,1)] assms(3) show "\<not> in_range cmp s (fst r)" by (auto simp: ranges_meet_def)
qed

lemma insert_last: "ranges_ok dom cmp (m @ [(k, v)]) \<Longrightarrow> om_insert cmp k v m = m @ [(k, v)]"
proof -
  assume "ranges_ok dom cmp (m @ [(k, v)])"
  then have "om_sorted dom cmp (m @ [(k, v)])" by (rule ranges_sorted)
  then have "\<forall>e \<in> set m. cmp (fst e) k < 0" by (auto simp: om_sorted_def sorted_wrt_append)
  then show ?thesis by (induction m) auto
qed

text \<open>Adjacent ranges join to one with the points of both.\<close>

lemma join_ranges:
  assumes "range_ok dom cmp (a, b)" "range_ok dom cmp (c, d)" "cmp b c = 0" "dom p"
  shows "range_ok dom cmp (a, d)" "in_range cmp (a, d) p \<longleftrightarrow> in_range cmp (a, b) p \<or> in_range cmp (c, d) p"
proof -
  have D: "dom a" "dom b" "dom c" "dom d" "cmp a b < 0" "cmp c d < 0" using assms(1,2) by (simp_all add: range_ok_def)
  have bd: "cmp b d < 0" using D assms(3) le_less_trans [of b c d] by simp
  show "range_ok dom cmp (a, d)" using D bd less_trans [of a b d] by (simp add: range_ok_def)
  have "sgn (cmp b p) = sgn (cmp c p)" using eq_cong [of b c p] D assms(3,4) by simp
  then have pc: "0 \<le> cmp p c \<longleftrightarrow> 0 \<le> cmp p b"
    using ge_iff [of p b] ge_iff [of p c] D assms(4) by (simp add: sgn_if split: if_splits)
  have "cmp p b < 0 \<Longrightarrow> cmp p d < 0" using less_trans [of p b d] D bd assms(4) by blast
  moreover have "0 \<le> cmp p b \<Longrightarrow> 0 \<le> cmp p a"
    using le_trans [of a b p] ge_iff [of p a] ge_iff [of p b] D assms(4) by simp
  ultimately show "in_range cmp (a, d) p \<longleftrightarrow> in_range cmp (a, b) p \<or> in_range cmp (c, d) p"
    using pc by (auto simp: in_range_def)
qed

lemma range_cong:
  assumes "range_ok dom cmp r" "dom a" "dom c" "cmp (fst r) a = 0" "cmp (snd r) c = 0" "dom p"
  shows "in_range cmp (a, c) p \<longleftrightarrow> in_range cmp r p"
proof -
  have "sgn (cmp (fst r) p) = sgn (cmp a p)" "sgn (cmp (snd r) p) = sgn (cmp c p)"
    using assms eq_cong [of "fst r" a p] eq_cong [of "snd r" c p] by auto
  then show ?thesis
    using assms ge_iff [of p "fst r"] ge_iff [of p a] not_less [of p "snd r"] not_less [of p c]
    by (auto simp: in_range_def range_ok_def sgn_if split: if_splits)
qed

lemma put_existing:
  assumes "om_sorted dom cmp (xs @ e # ys)" "dom k" "cmp (fst e) k = 0"
  shows "om_put cmp k v (xs @ e # ys) = xs @ (fst e, v) # ys"
  using assms(1)
proof (induction xs)
  case Nil
  with assms eq_sym [of "fst e" k] show ?case by simp
next
  case (Cons f xs)
  then have "cmp (fst f) (fst e) < 0" "dom (fst f)" "dom (fst e)" by (auto simp: om_sorted_def)
  then have "cmp (fst f) k < 0" using assms(2,3) less_le_trans [of "fst f" "fst e" k] by simp
  with Cons show ?case by simp
qed

lemma sorted_disjoint_ranges:
  assumes "om_sorted dom cmp m" "\<forall>r \<in> set m. range_ok dom cmp r"
    "\<forall>r \<in> set m. \<forall>s \<in> set m. r \<noteq> s \<longrightarrow> \<not> ranges_meet cmp r s"
  shows "ranges_ok dom cmp m"
  using assms
proof (induction m)
  case (Cons r m)
  have "cmp (snd r) (fst s) \<le> 0" if s: "s \<in> set m" for s
  proof -
    have lt: "cmp (fst r) (fst s) < 0" and ok: "range_ok dom cmp r" "range_ok dom cmp s" using Cons.prems s by auto
    then have "r \<noteq> s" using refl [of "fst r"] by auto
    with Cons.prems(3) s have "\<not> ranges_meet cmp r s" by simp
    moreover have "cmp (fst r) (snd s) < 0"
      using lt ok less_trans [of "fst r" "fst s" "snd s"] by (auto simp: range_ok_def)
    ultimately show ?thesis using ok not_less [of "fst r" "snd s"] by (auto simp: ranges_meet_def)
  qed
  with Cons show ?case by simp
qed simp

text \<open>Disjoint ranges in a map keyed by their upper bounds.\<close>

lemma put_by_upper:
  assumes "ranges_ok dom cmp (map (f \<circ> snd) m)" "\<forall>e \<in> set m. fst e = snd (f (snd e))"
    "range_ok dom cmp (f v)" "\<forall>e \<in> set m. \<not> ranges_meet cmp (f v) (f (snd e))"
  shows "ranges_ok dom cmp (map (f \<circ> snd) (om_put cmp (snd (f v)) v m)) \<and>
    set (om_put cmp (snd (f v)) v m) = insert (snd (f v), v) (set m)"
  using assms(1,2,4)
proof (induction m)
  case (Cons e m)
  let ?r = "f (snd e)" and ?s = "f v"
  have ok: "range_ok dom cmp ?r" "range_ok dom cmp ?s" and key: "fst e = snd ?r" using Cons.prems assms(3) by auto
  have apart: "cmp (snd ?s) (fst ?r) \<le> 0 \<or> cmp (snd ?r) (fst ?s) \<le> 0"
    using Cons.prems(3) by (auto simp: ranges_meet_def)
  show ?case
  proof (cases "cmp (snd ?r) (snd ?s) < 0")
    case True
    have "cmp (fst ?r) (snd ?s) < 0" using True ok less_trans [of "fst ?r" "snd ?r" "snd ?s"] by (auto simp: range_ok_def)
    with ok have "\<not> cmp (snd ?s) (fst ?r) \<le> 0" using not_less [of "fst ?r" "snd ?s"] by auto
    with apart True Cons key show ?thesis by auto
  next
    case False
    then have le: "cmp (snd ?s) (snd ?r) \<le> 0" using ok not_less [of "snd ?r" "snd ?s"] by auto
    have "cmp (fst ?s) (snd ?r) < 0" using le ok less_le_trans [of "fst ?s" "snd ?s" "snd ?r"] by (auto simp: range_ok_def)
    with ok have "\<not> cmp (snd ?r) (fst ?s) \<le> 0" using not_less [of "fst ?s" "snd ?r"] by auto
    with apart have sr: "cmp (snd ?s) (fst ?r) \<le> 0" by simp
    then have lt: "cmp (snd ?s) (snd ?r) < 0" using ok le_less_trans [of "snd ?s" "fst ?r" "snd ?r"] by (auto simp: range_ok_def)
    have "cmp (snd ?s) (fst (f (snd g))) \<le> 0" if g: "g \<in> set m" for g
    proof -
      have "range_ok dom cmp (f (snd g))" "cmp (snd ?r) (fst (f (snd g))) \<le> 0"
        using Cons.prems(1) g by (auto intro: ranges_ok_mem)
      then show ?thesis using ok lt le_trans [of "snd ?s" "snd ?r" "fst (f (snd g))"] by (auto simp: range_ok_def)
    qed
    with False lt sr Cons.prems ok key show ?thesis by auto
  qed
qed (use assms(3) in simp)

lemma lookup_by_upper:
  assumes "ranges_ok dom cmp (map (f \<circ> snd) m)" "\<forall>e \<in> set m. fst e = snd (f (snd e))" "dom p"
  defines "i \<equiv> upper_bound cmp p m"
  shows "i = length m \<and> \<not> covers cmp (map (f \<circ> snd) m) p \<or>
    i < length m \<and> (\<forall>e \<in> set m. in_range cmp (f (snd e)) p \<longleftrightarrow> e = m ! i \<and> \<not> cmp p (fst (f (snd e))) < 0)"
proof -
  have R: "range_ok dom cmp (f (snd e))" if "e \<in> set m" for e
    using ranges_ok_mem [OF assms(1)] that by auto
  have sorted: "om_sorted dom cmp m"
  proof -
    have "sorted_wrt (\<lambda>e g. cmp (snd (f (snd e))) (fst (f (snd g))) \<le> 0) m"
      using assms(1) by (simp add: ranges_ok_def sorted_wrt_map)
    moreover have "cmp (fst e) (fst g) < 0"
      if "e \<in> set m" "g \<in> set m" "cmp (snd (f (snd e))) (fst (f (snd g))) \<le> 0" for e g
      using R that assms(2) le_less_trans [of "snd (f (snd e))" "fst (f (snd g))" "snd (f (snd g))"] by (auto simp: range_ok_def)
    ultimately have "sorted_wrt (\<lambda>e g. cmp (fst e) (fst g) < 0) m" by (rule sorted_wrt_mono_rel [rotated])
    with R assms(2) show ?thesis by (auto simp: om_sorted_def)
  qed
  obtain xs ys where m: "m = xs @ ys" "i = length xs" and xs: "\<And>e. e \<in> set xs \<Longrightarrow> 0 \<le> cmp p (fst e)"
    and ys: "\<And>e. e \<in> set ys \<Longrightarrow> cmp p (fst e) < 0"
    unfolding i_def using upper_bound_split [OF sorted assms(3)] by blast
  have low: "\<not> in_range cmp (f (snd e)) p" if "e \<in> set xs" for e
    using xs [OF that] assms(2) that m(1) by (auto simp: in_range_def)
  show ?thesis
  proof (cases ys)
    case Nil
    with low m show ?thesis by (auto simp: covers_def)
  next
    case (Cons y zs)
    have y: "m ! i = y" using m Cons by (simp add: nth_append)
    have "\<not> in_range cmp (f (snd e)) p" if "e \<in> set zs" for e
    proof -
      have "cmp (snd (f (snd y))) (fst (f (snd e))) \<le> 0" using assms(1) that m(1) Cons by (auto simp: ranges_ok_append)
      moreover have "cmp p (snd (f (snd y))) < 0" using ys [of y] Cons assms(2) m(1) by simp
      ultimately have "cmp p (fst (f (snd e))) < 0"
        using R [of y] R [of e] that m(1) Cons assms(3) less_le_trans [of p "snd (f (snd y))" "fst (f (snd e))"] by auto
      then show ?thesis by (simp add: in_range_def)
    qed
    moreover have "in_range cmp (f (snd y)) p \<longleftrightarrow> \<not> cmp p (fst (f (snd y))) < 0"
      using ys [of y] Cons assms(2) m(1) by (auto simp: in_range_def)
    moreover have "y \<notin> set xs" "y \<notin> set zs" using xs [of y] ys [of y] Cons sorted m(1) refl [of "fst y"]
      by (fastforce simp: om_sorted_def sorted_wrt_append)+
    ultimately show ?thesis using low y m Cons by auto
  qed
qed

end

end
