(* ===== verification/ShardKey.thy ===== *)
theory ShardKey
  imports ChunkVersion OrdMap
begin

text \<open>
  Key patterns and shard keys (\<open>db/keypattern.cpp\<close>, \<open>s/shardkey.cpp\<close>): the key of a document, the
  bounds of the whole key space and of the keys below a prefix.  The hash of hashed keys,
  \<open>BSONElementHasher::hash64\<close>, is an argument \<open>hash64\<close> of the functions that use it.
\<close>

section \<open>Objects as keys of maps\<close>

text \<open>\<open>woCompare\<close> with its default arguments, which \<open>operator<\<close> and \<open>BSONObjCmp\<close> use.\<close>

definition obj_cmp :: "bson \<Rightarrow> bson \<Rightarrow> int" where
  "obj_cmp l r = woCompare_idx l r [] True"

definition BSONObjCmp :: "bson \<Rightarrow> bson \<Rightarrow> bson \<Rightarrow> bool" where
  "BSONObjCmp order l r \<longleftrightarrow> woCompare_idx l r order True < 0"

section \<open>Key patterns\<close>

text \<open>A pattern and the prefixes of its field names that end before a dot, with the names themselves.\<close>

record key_pattern =
  kp_pattern :: bson
  kp_prefixes :: "bstr set"

definition dotted_prefixes :: "bstr \<Rightarrow> bstr list" where
  "dotted_prefixes name = map (\<lambda>i. take i name) (filter (\<lambda>i. name ! i = 46) [0..<length name]) @ [name]"

definition KeyPattern :: "bson \<Rightarrow> key_pattern" where
  "KeyPattern pattern = \<lparr> kp_pattern = pattern, kp_prefixes = (\<Union>e \<in> set pattern. set (dotted_prefixes (fst e))) \<rparr>"

definition kp_hasField :: "key_pattern \<Rightarrow> bstr \<Rightarrow> bool" where
  "kp_hasField k fieldname \<longleftrightarrow> fieldname \<in> kp_prefixes k"

definition kp_getField :: "key_pattern \<Rightarrow> bstr \<Rightarrow> bson_elem option" where
  "kp_getField k fieldname = getField (kp_pattern k) fieldname"

definition kp_isPrefixOf :: "key_pattern \<Rightarrow> key_pattern \<Rightarrow> bool" where
  "kp_isPrefixOf k other \<longleftrightarrow> isPrefixOf (kp_pattern k) (kp_pattern other)"

definition inferKeyPattern :: "bson \<Rightarrow> bson" where
  "inferKeyPattern b = map (\<lambda>e. (fst e, IntV 1)) b"

definition toKeyFormat :: "bson \<Rightarrow> bson" where
  "toKeyFormat b = map (\<lambda>e. ([], snd e)) b"

text \<open>\<open>valuestrsafe\<close> ends at the first NUL, as \<open>str::equals\<close> reads it.\<close>

definition isHashed :: "bson_value \<Rightarrow> bool" where
  "isHashed v \<longleftrightarrow> strcmp (case v of StringV s \<Rightarrow> s | _ \<Rightarrow> []) (str ''hashed'') = 0"

definition isAscending :: "bson_value \<Rightarrow> bool result" where
  "isAscending v =
     (if isNumber v then (case numberInt v of None \<Rightarrow> Inl UndefinedBehaviour | Some n \<Rightarrow> Inr (n = 1)) else Inr False)"

definition isDescending :: "bson_value \<Rightarrow> bool result" where
  "isDescending v =
     (if isNumber v then (case numberInt v of None \<Rightarrow> Inl UndefinedBehaviour | Some n \<Rightarrow> Inr (n = - 1)) else Inr False)"

definition extractSingleKey :: "(bson_value option \<Rightarrow> u64) \<Rightarrow> bson \<Rightarrow> bson \<Rightarrow> bson" where
  "extractSingleKey hash64 pattern doc =
     (case pattern of
        [] \<Rightarrow> []
      | (n, v) # _ \<Rightarrow>
          if isHashed v then [(n, LongV (hash64 (map_option snd (getFieldDotted doc n))))]
          else extractFields doc pattern False)"

fun prettyKey_loop :: "bson \<Rightarrow> bson \<Rightarrow> bson result" where
  "prettyKey_loop [] key = Inr []"
| "prettyKey_loop (p # ps) [] = Inl (MsgAssertion 16800)"
| "prettyKey_loop (p # ps) (k # ks) =
     bind_result (prettyKey_loop ps ks) (\<lambda>b. Inr ((fst p, snd k) # b))"

definition prettyKey :: "bson \<Rightarrow> bson \<Rightarrow> bson result" where
  "prettyKey pattern key = (if pattern = [] then Inr [] else prettyKey_loop pattern key)"

fun isSpecial :: "bson \<Rightarrow> bool result" where
  "isSpecial [] = Inr False"
| "isSpecial ((_, v) # es) =
     (case numberInt v of
        None \<Rightarrow> Inl UndefinedBehaviour
      | Some fieldVal \<Rightarrow> if fieldVal \<noteq> 1 \<and> fieldVal \<noteq> - 1 then Inr True else isSpecial es)"

fun isCoveredBy :: "bson \<Rightarrow> bson \<Rightarrow> bool result" where
  "isCoveredBy [] other = Inr True"
| "isCoveredBy (e # es) other =
     (case getField other (fst e) of
        None \<Rightarrow> Inr False
      | Some otherfield \<Rightarrow>
          (case numberInt (snd otherfield) of
             None \<Rightarrow> Inl UndefinedBehaviour
           | Some n \<Rightarrow>
               if n \<noteq> 1 \<and> n \<noteq> - 1 \<and> elem_woCompare otherfield e True \<noteq> 0 then Inr False
               else isCoveredBy es other))"

text \<open>The fields of the pattern after those of the bound; \<open>order *= -1\<close> overflows for \<open>INT_MIN\<close>.\<close>

fun extend_tail :: "bool \<Rightarrow> bson \<Rightarrow> bson result" where
  "extend_tail makeUpperInclusive [] = Inr []"
| "extend_tail makeUpperInclusive ((n, v) # pat) =
     (case (if isNumber v then numberInt v else Some 1) of
        None \<Rightarrow> Inl UndefinedBehaviour
      | Some order \<Rightarrow>
          if makeUpperInclusive \<and> order = 2 ^ 31 then Inl UndefinedBehaviour
          else let order = (if makeUpperInclusive then - order else order)
               in bind_result (extend_tail makeUpperInclusive pat)
                    (\<lambda>b. Inr ((n, if sint order > 0 then MinKeyV else MaxKeyV) # b)))"

fun extendRangeBound :: "bson \<Rightarrow> bson \<Rightarrow> bool \<Rightarrow> bson result" where
  "extendRangeBound pat [] makeUpperInclusive = extend_tail makeUpperInclusive pat"
| "extendRangeBound [] (s # src) makeUpperInclusive = Inl (MsgAssertion 16649)"
| "extendRangeBound (p # pat) (s # src) makeUpperInclusive =
     (if fst s \<noteq> fst p then Inl (MsgAssertion 16634)
      else bind_result (extendRangeBound pat src makeUpperInclusive) (\<lambda>b. Inr (s # b)))"

section \<open>Shard keys\<close>

record shard_key_pattern =
  skp_pattern :: key_pattern
  gMin :: bson
  gMax :: bson
  patternfields :: "bstr set"

definition ShardKeyPattern :: "bson \<Rightarrow> shard_key_pattern" where
  "ShardKeyPattern p =
     \<lparr> skp_pattern = KeyPattern p, gMin = map (\<lambda>e. (fst e, MinKeyV)) p, gMax = map (\<lambda>e. (fst e, MaxKeyV)) p,
       patternfields = snd (getFieldNames p {}) \<rparr>"

definition isGlobalMin :: "shard_key_pattern \<Rightarrow> bson \<Rightarrow> bool" where
  "isGlobalMin s k \<longleftrightarrow> obj_cmp k (gMin s) = 0"

definition isGlobalMax :: "shard_key_pattern \<Rightarrow> bson \<Rightarrow> bool" where
  "isGlobalMax s k \<longleftrightarrow> obj_cmp k (gMax s) = 0"

definition isGlobal :: "shard_key_pattern \<Rightarrow> bson \<Rightarrow> bool" where
  "isGlobal s k \<longleftrightarrow> isGlobalMin s k \<or> isGlobalMax s k"

definition hasShardKey :: "shard_key_pattern \<Rightarrow> bson \<Rightarrow> bool" where
  "hasShardKey s obj \<longleftrightarrow>
     (\<forall>n \<in> patternfields s.
        (case getFieldDotted obj n of
           None \<Rightarrow> False
         | Some (_, ArrayV _) \<Rightarrow> False
         | Some (_, ObjectV b) \<Rightarrow> okForStorage b
         | Some _ \<Rightarrow> True))"

definition extractKey :: "(bson_value option \<Rightarrow> u64) \<Rightarrow> shard_key_pattern \<Rightarrow> bson \<Rightarrow> bson result" where
  "extractKey hash64 s from =
     (let k = extractSingleKey hash64 (kp_pattern (skp_pattern s)) from
      in if length (enc_obj k) < 512 then Inr k else Inl (UserAssertion 13334))"

definition partOfShardKey :: "shard_key_pattern \<Rightarrow> bstr \<Rightarrow> bool" where
  "partOfShardKey s key \<longleftrightarrow> kp_hasField (skp_pattern s) key"

definition skp_isPrefixOf :: "shard_key_pattern \<Rightarrow> key_pattern \<Rightarrow> bool" where
  "skp_isPrefixOf s otherPattern \<longleftrightarrow> kp_isPrefixOf (skp_pattern s) otherPattern"

definition isUniqueIndexCompatible :: "shard_key_pattern \<Rightarrow> key_pattern \<Rightarrow> bool" where
  "isUniqueIndexCompatible s uniqueIndexPattern \<longleftrightarrow>
     (case kp_pattern uniqueIndexPattern of
        e # _ \<Rightarrow> if strcmp (fst e) (str ''_id'') = 0 then True
                 else isFieldNamePrefixOf (kp_pattern (skp_pattern s)) (kp_pattern uniqueIndexPattern)
      | [] \<Rightarrow> isFieldNamePrefixOf (kp_pattern (skp_pattern s)) (kp_pattern uniqueIndexPattern))"

text \<open>
  \<open>moveToFront\<close>: the elements written to the front, the stretches set aside, and the stretch being
  collected, which the code keeps as a pointer and a size.
\<close>

definition keysToMove :: "bson \<Rightarrow> bstr list" where
  "keysToMove pattern =
     str ''_id'' # map fst (filter (\<lambda>e. 46 \<notin> set (fst e) \<and> strcmp (fst e) (str ''_id'') \<noteq> 0) pattern)"

fun moveToFront_loop :: "bstr list \<Rightarrow> bson \<Rightarrow> bson list \<Rightarrow> bson option \<Rightarrow> bson \<Rightarrow> bson \<times> bson list \<times> bson option" where
  "moveToFront_loop keys front copies toCopy [] = (front, copies, toCopy)"
| "moveToFront_loop keys front copies toCopy (e # es) =
     (if \<exists>k \<in> set keys. strcmp (fst e) k = 0
      then (case toCopy of
              Some c \<Rightarrow> moveToFront_loop keys (front @ [e]) (copies @ [c]) None es
            | None \<Rightarrow> moveToFront_loop keys (front @ [e]) copies None es)
      else moveToFront_loop keys front copies
             (Some (case toCopy of None \<Rightarrow> [e] | Some c \<Rightarrow> c @ [e])) es)"

definition moveToFront :: "shard_key_pattern \<Rightarrow> bson \<Rightarrow> bson" where
  "moveToFront s obj =
     (let keys = keysToMove (kp_pattern (skp_pattern s))
      in if length keys = 1 then obj
         else case moveToFront_loop keys [] [] None obj of
                (front, copies, toCopy) \<Rightarrow> front @ concat copies @ (case toCopy of None \<Rightarrow> [] | Some c \<Rightarrow> c))"

section \<open>The order of objects as a contract\<close>

lemma woCompare_loop_asc: "woCompare_idx_loop False k cfn ls rs = woCompare_loop 0 cfn i ls rs"
  by (induction "0 :: u32" cfn i ls rs arbitrary: k rule: woCompare_loop.induct) (simp_all add: Let_def descending_def)

lemma obj_cmp_eq: "obj_cmp l r = woCompare l r 0 True"
  unfolding obj_cmp_def woCompare_idx_def woCompare_def by (simp add: woCompare_loop_asc)

interpretation obj_map: ordered_map "ord_ok_obj b" obj_cmp for b
  unfolding obj_cmp_eq by unfold_locales (rule bson_order.antisym bson_order.fits; assumption)+

lemma obj_cmp_simps [simp]:
  "obj_cmp [] [] = 0" "obj_cmp [] (r # rs) = -1" "obj_cmp (l # ls) [] = 1"
  "obj_cmp (l # ls) (r # rs) = lex (elem_woCompare l r True) (obj_cmp ls rs)"
proof -
  have "woCompare_loop 0 True 0 ls rs = obj_cmp ls rs" for ls rs
    unfolding obj_cmp_eq woCompare_def by (cases ls; cases rs) simp_all
  moreover have "woCompare_loop 0 True (Suc 0) ls rs = woCompare_loop 0 True 0 ls rs"
    using woCompare_loop_asc [of "[]" True ls rs "Suc 0"] woCompare_loop_asc [of "[]" True ls rs 0] by simp
  ultimately show "obj_cmp (l # ls) (r # rs) = lex (elem_woCompare l r True) (obj_cmp ls rs)"
    by (simp add: obj_cmp_eq woCompare_def Let_def descending_def lex_def)
qed (simp_all add: obj_cmp_eq woCompare_def)

lemma bson_equal_same_length: "length l = length r \<Longrightarrow> bson_equal l r = Inr (obj_cmp l r = 0)"
  by (induction l r rule: list_induct2) auto

section \<open>Bounds\<close>

lemma min_max_key:
  "elem_woCompare (n, MinKeyV) (n, v) True \<le> 0" "elem_woCompare (n, v) (n, MaxKeyV) True \<le> 0"
  "elem_woCompare (n, MinKeyV) (n, v) True = 0 \<longleftrightarrow> v = MinKeyV" "elem_woCompare (n, v) (n, MaxKeyV) True = 0 \<longleftrightarrow> v = MaxKeyV"
  by (cases v; simp add: elem_woCompare_def lex_def Let_def strcmp_def)+

lemma global_encloses:
  assumes "map fst k = map fst p"
  shows "obj_cmp (map (\<lambda>e. (fst e, MinKeyV)) p) k \<le> 0" "obj_cmp k (map (\<lambda>e. (fst e, MaxKeyV)) p) \<le> 0"
    "obj_cmp k (map (\<lambda>e. (fst e, MaxKeyV)) p) = 0 \<longleftrightarrow> (\<forall>e \<in> set k. snd e = MaxKeyV)"
proof -
  have "obj_cmp (map (\<lambda>e. (fst e, MinKeyV)) p) k \<le> 0 \<and> obj_cmp k (map (\<lambda>e. (fst e, MaxKeyV)) p) \<le> 0 \<and>
    (obj_cmp k (map (\<lambda>e. (fst e, MaxKeyV)) p) = 0 \<longleftrightarrow> (\<forall>e \<in> set k. snd e = MaxKeyV))"
    using assms
  proof (induction k p rule: list_induct2')
    case (4 e k f p)
    then obtain n v where e: "e = (n, v)" "fst f = n" by (cases e) auto
    from 4 show ?case unfolding e(1)
      by (simp add: e(2)) (use min_max_key [of n v] in \<open>auto simp: lex_def\<close>)
  qed simp_all
  then show "obj_cmp (map (\<lambda>e. (fst e, MinKeyV)) p) k \<le> 0" "obj_cmp k (map (\<lambda>e. (fst e, MaxKeyV)) p) \<le> 0"
    "obj_cmp k (map (\<lambda>e. (fst e, MaxKeyV)) p) = 0 \<longleftrightarrow> (\<forall>e \<in> set k. snd e = MaxKeyV)" by blast+
qed

lemma extractFields_names:
  assumes "\<forall>n \<in> fst ` set p. getFieldDotted doc n \<noteq> None"
  shows "map fst (extractFields doc p False) = map fst p"
  using assms by (induction p) (auto simp: extractFields_def)

lemma moveToFront_loop_result:
  assumes "moveToFront_loop keys front copies toCopy es = (f, cs, c)"
  shows "f = front @ filter (\<lambda>e. \<exists>k \<in> set keys. strcmp (fst e) k = 0) es \<and>
    concat cs @ (case c of None \<Rightarrow> [] | Some x \<Rightarrow> x) =
      concat copies @ (case toCopy of None \<Rightarrow> [] | Some x \<Rightarrow> x) @ filter (\<lambda>e. \<not> (\<exists>k \<in> set keys. strcmp (fst e) k = 0)) es"
  using assms by (induction keys front copies toCopy es rule: moveToFront_loop.induct) (auto split: if_splits option.splits)

section \<open>Bounds below a prefix\<close>

text \<open>The values a key pattern may have: a direction, or the name of a special index.\<close>

definition directed :: "bson_value \<Rightarrow> bool" where
  "directed v \<longleftrightarrow> \<not> isNumber v \<or>
     v \<in> {IntV 1, IntV (- 1), LongV 1, LongV (- 1), DoubleV 0x3FF0000000000000, DoubleV 0xBFF0000000000000}"

lemma one_bits:
  "dbl_of_bits 0x3FF0000000000000 = Fin dbl_scale" "dbl_of_bits 0xBFF0000000000000 = Fin (- dbl_scale)"
  by (simp_all add: dbl_of_bits_def Let_def dbl_scale_def)

lemma cast_one: "cast_dbl_int (Fin dbl_scale) = Some 1" "cast_dbl_int (Fin (- dbl_scale)) = Some (- 1)"
  using int_of_dbl_exact [of 1] int_of_dbl_exact [of "- 1"] by (simp_all add: cast_dbl_int_def)

lemma dbl_one: "dbl_of_int 1 = Fin dbl_scale" "dbl_of_int (- 1) = Fin (- dbl_scale)"
  using dbl_of_int_exact [of 1] dbl_of_int_exact [of "- 1"] by simp_all

lemma directed_cases:
  assumes "directed v"
  obtains (asc) "(if isNumber v then numberInt v else Some 1) = Some 1" "\<not> dbl_lt (numberDouble v) (Fin 0)"
    | (desc) "(if isNumber v then numberInt v else Some 1) = Some (- 1)" "dbl_lt (numberDouble v) (Fin 0)"
proof -
  have pos: "\<not> dbl_scale < 0" using dbl_scale_pos(1) by (simp only: not_less less_imp_le)
  have neg: "ucast (- 1 :: u64) = (- 1 :: u32)" by (rule bit_word_eqI) (simp add: bit_simps)
  have num: "(if isNumber v then numberInt v else Some 1) = Some 1 \<and> \<not> dbl_lt (numberDouble v) (Fin 0) \<or>
    (if isNumber v then numberInt v else Some 1) = Some (- 1) \<and> dbl_lt (numberDouble v) (Fin 0)"
  proof (cases "isNumber v")
    case True
    with assms pos neg show ?thesis unfolding directed_def by (auto simp: one_bits cast_one dbl_one)
  next
    case False
    then show ?thesis by (cases v) simp_all
  qed
  with asc desc show thesis by blast
qed

lemma extend_tail_bounds:
  assumes "list_all (directed \<circ> snd) pat" "map fst k = map fst pat"
  shows "\<exists>lo hi. extend_tail False pat = Inr lo \<and> extend_tail True pat = Inr hi \<and>
    map fst lo = map fst pat \<and> map fst hi = map fst pat \<and>
    woCompare_idx_loop True pat True lo k \<le> 0 \<and> woCompare_idx_loop True pat True k hi \<le> 0"
  using assms
proof (induction pat arbitrary: k)
  case (Cons p pat)
  obtain n v where p: "p = (n, v)" by (cases p)
  with Cons.prems obtain x ks where k: "k = (n, x) # ks" "map fst ks = map fst pat" by (cases k) auto
  from Cons.IH [OF _ k(2)] Cons.prems obtain lo hi where IH: "extend_tail False pat = Inr lo" "extend_tail True pat = Inr hi"
    "map fst lo = map fst pat" "map fst hi = map fst pat"
    "woCompare_idx_loop True pat True lo ks \<le> 0" "woCompare_idx_loop True pat True ks hi \<le> 0" by auto
  from Cons.prems p have "directed v" by simp
  then show ?case
  proof (cases rule: directed_cases)
    case asc
    with IH min_max_key(1,2) [of n x] show ?thesis unfolding p k(1) by (simp add: Let_def)
  next
    case desc
    have "elem_woCompare (n, MaxKeyV) (n, x) True \<ge> 0 \<and> elem_woCompare (n, x) (n, MinKeyV) True \<ge> 0"
      by (cases x) (simp_all add: elem_woCompare_def lex_def Let_def strcmp_def)
    with IH desc show ?thesis unfolding p k(1) by (simp add: Let_def)
  qed
qed simp

lemma elem_refl:
  assumes "all_value (time_ok b) (snd e)"
  shows "elem_woCompare e e cfn = 0"
  using elem_antisym [OF assms assms, of cfn] by (simp add: sgn_if split: if_splits)

lemma extendRangeBound_succeeds:
  "list_all (directed \<circ> snd) pat \<Longrightarrow>
     (\<exists>r. extendRangeBound pat bound upper = Inr r) \<longleftrightarrow> isFieldNamePrefixOf bound pat"
proof (induction pat bound upper rule: extendRangeBound.induct)
  case (1 pat upper)
  with extend_tail_bounds [OF 1 refl] show ?case by (cases upper) auto
qed (auto simp: result_simps)

lemma extendRangeBound_bounds:
  assumes "list_all (directed \<circ> snd) pat" "ord_ok_obj b bound" "map fst (bound @ rest) = map fst pat"
  shows "\<exists>lo hi. extendRangeBound pat bound False = Inr lo \<and> extendRangeBound pat bound True = Inr hi \<and>
    woCompare_idx_loop True pat True lo (bound @ rest) \<le> 0 \<and> woCompare_idx_loop True pat True (bound @ rest) hi \<le> 0"
  using assms
proof (induction bound arbitrary: pat)
  case Nil
  with extend_tail_bounds [of pat rest] show ?case by auto
next
  case (Cons e es)
  then obtain p ps where pat: "pat = p # ps" "fst p = fst e" "map fst (es @ rest) = map fst ps"
    by (cases pat) auto
  have "all_value (\<lambda>v. time_ok b v \<and> long_ok v) (snd e)" using Cons.prems(2) by (cases e) simp
  then have "all_value (time_ok b) (snd e)" by (rule all_elems_mono(1) [rotated]) simp
  with elem_refl have "elem_woCompare e e True = 0" .
  moreover have "ord_ok_obj b es" using Cons.prems(2) by (cases e) simp
  ultimately show ?case using Cons.IH [of ps] Cons.prems(1) pat by (auto simp: Let_def)
qed

section \<open>Properties\<close>

text \<open>
  C28: the shard key of every document that has one lies between the global bounds of the pattern, and
  below the upper one unless all its fields are \<open>MaxKey\<close>: chunks that cover the space between the
  bounds have a place for it.
\<close>

theorem shard_key_in_space:
  fixes hash64 :: "bson_value option \<Rightarrow> u64"
  assumes "hasShardKey (ShardKeyPattern p) doc" "p \<noteq> []" "isHashed (snd (hd p)) \<longrightarrow> length p = 1"
  defines "k \<equiv> extractSingleKey hash64 p doc"
  shows "map fst k = map fst p \<and> obj_cmp (gMin (ShardKeyPattern p)) k \<le> 0 \<and> obj_cmp k (gMax (ShardKeyPattern p)) \<le> 0 \<and>
    (isGlobalMax (ShardKeyPattern p) k \<longleftrightarrow> (\<forall>e \<in> set k. snd e = MaxKeyV))"
proof -
  have "\<forall>n \<in> fst ` set p. getFieldDotted doc n \<noteq> None"
    using assms(1) by (auto simp: hasShardKey_def ShardKeyPattern_def getFieldNames_def split: option.splits)
  then have "map fst k = map fst p"
    unfolding k_def extractSingleKey_def using assms(2,3) extractFields_names [of p doc]
    by (auto split: list.splits)
  with global_encloses [OF this] show ?thesis by (simp add: ShardKeyPattern_def isGlobalMax_def)
qed

theorem shard_key_in_space_witness:
  "\<exists>doc. hasShardKey (ShardKeyPattern [(str ''a'', IntV 1)]) doc \<and>
     obj_cmp (extractSingleKey (\<lambda>_. 0) [(str ''a'', IntV 1)] doc) (gMax (ShardKeyPattern [(str ''a'', IntV 1)])) \<le> 0"
proof -
  let ?p = "[(str ''a'', IntV 1)]" and ?d = "[(str ''b'', NullV), (str ''a'', BoolV True)]"
  have "hasShardKey (ShardKeyPattern ?p) ?d"
    by (simp add: hasShardKey_def ShardKeyPattern_def getFieldNames_def getFieldDotted.simps str_def)
  with shard_key_in_space [OF this, of "\<lambda>_. 0"] show ?thesis by (intro exI [of _ ?d]) (simp add: isHashed_def str_def strcmp_def cstr_def)
qed

text \<open>
  C30: \<open>extendRangeBound\<close> succeeds exactly on bounds whose field names are a prefix of the pattern's, and
  in the order of the pattern the lower and the upper extension enclose every key that starts with the
  bound.
\<close>

theorem extendRangeBound_encloses:
  assumes "list_all (directed \<circ> snd) pat" "ord_ok_obj b bound"
  shows "((\<exists>r. extendRangeBound pat bound upper = Inr r) \<longleftrightarrow> isFieldNamePrefixOf bound pat) \<and>
    (map fst (bound @ rest) = map fst pat \<longrightarrow>
      (\<exists>lo hi. extendRangeBound pat bound False = Inr lo \<and> extendRangeBound pat bound True = Inr hi \<and>
        woCompare_idx lo (bound @ rest) pat True \<le> 0 \<and> woCompare_idx (bound @ rest) hi pat True \<le> 0))"
proof (intro conjI impI extendRangeBound_succeeds [OF assms(1)])
  assume names: "map fst (bound @ rest) = map fst pat"
  from extendRangeBound_bounds [OF assms names]
  obtain lo hi where *: "extendRangeBound pat bound False = Inr lo" "extendRangeBound pat bound True = Inr hi"
    "woCompare_idx_loop True pat True lo (bound @ rest) \<le> 0" "woCompare_idx_loop True pat True (bound @ rest) hi \<le> 0" by blast
  moreover have "woCompare_idx l r pat True = woCompare_idx_loop True pat True l r" if "pat \<noteq> [] \<or> l = [] \<or> r = []" for l r
    using that by (cases l; cases r) (auto simp: woCompare_idx_def)
  moreover have "pat = [] \<Longrightarrow> bound @ rest = []" using names by simp
  ultimately show "\<exists>lo hi. extendRangeBound pat bound False = Inr lo \<and> extendRangeBound pat bound True = Inr hi \<and>
      woCompare_idx lo (bound @ rest) pat True \<le> 0 \<and> woCompare_idx (bound @ rest) hi pat True \<le> 0"
    by (metis (no_types))
qed

theorem extendRangeBound_encloses_witness:
  "\<exists>lo hi. extendRangeBound [(str ''a'', IntV 1), (str ''b'', IntV (- 1))] [(str ''a'', IntV 55)] False = Inr lo \<and>
     extendRangeBound [(str ''a'', IntV 1), (str ''b'', IntV (- 1))] [(str ''a'', IntV 55)] True = Inr hi \<and>
     woCompare_idx lo [(str ''a'', IntV 55), (str ''b'', NullV)] [(str ''a'', IntV 1), (str ''b'', IntV (- 1))] True \<le> 0 \<and>
     woCompare_idx [(str ''a'', IntV 55), (str ''b'', NullV)] hi [(str ''a'', IntV 1), (str ''b'', IntV (- 1))] True \<le> 0"
  using extendRangeBound_encloses [of "[(str ''a'', IntV 1), (str ''b'', IntV (- 1))]" True "[(str ''a'', IntV 55)]" True
      "[(str ''b'', NullV)]"]
  by (simp add: directed_def)


end
