(* ===== verification/ConfigDiff.thy ===== *)
theory ConfigDiff
  imports ShardKey
begin

text \<open>
  Incremental reloads of the chunks of a collection (\<open>s/chunk_diff.h\<close>, \<open>s/chunk_diff.hpp\<close>): routers
  and shards keep the chunks they track in a map, ask the config server for the chunks that changed
  since the version they know, and apply those.  The adapters of the template (which chunks to track,
  how to store one, whether the map is keyed by the lower or the upper bound) are arguments.
\<close>

section \<open>Chunk documents\<close>

text \<open>\<open>Obj()\<close>, \<open>String()\<close> and \<open>Bool()\<close> of an element that may be missing.\<close>

fun elem_Obj :: "bson_value option \<Rightarrow> bson result" where
  "elem_Obj (Some (ObjectV b)) = Inr b"
| "elem_Obj (Some (ArrayV b)) = Inr b"
| "elem_Obj _ = Inl (UserAssertion 10065)"

fun elem_String :: "bson_value option \<Rightarrow> bstr result" where
  "elem_String (Some (StringV s)) = Inr (cstr s)"
| "elem_String _ = Inl (MsgAssertion 13111)"

fun elem_Bool :: "bson_value option \<Rightarrow> bool result" where
  "elem_Bool (Some (BoolV b)) = Inr b"
| "elem_Bool _ = Inl (MsgAssertion 13111)"

definition val :: "bson \<Rightarrow> string \<Rightarrow> bson_value option" where
  "val doc name = map_option snd (getField doc (str name))"

section \<open>The tracker\<close>

text \<open>What the tracker is attached to, which it updates in place.\<close>

record 'v diff_data =
  currMap :: "(bson, 'v) omap"
  maxVersion :: chunk_version
  maxShardVersions :: "(bstr, chunk_version) omap"

text \<open>Which chunks to remember, in what form, and by which bound.\<close>

record 'v diff_adapter =
  isTracked :: "bson \<Rightarrow> bool"
  isMinKeyIndexed :: bool
  rangeFor :: "bson \<Rightarrow> bson \<Rightarrow> bson \<Rightarrow> bson \<times> 'v"

definition overlappingRange :: "bool \<Rightarrow> bson \<Rightarrow> bson \<Rightarrow> (bson, 'v) omap \<Rightarrow> nat \<times> nat" where
  "overlappingRange minKeyIndexed mn mx m =
     (if minKeyIndexed then (lower_bound obj_cmp mn m, lower_bound obj_cmp mx m)
      else (upper_bound obj_cmp mn m, upper_bound obj_cmp mx m))"

definition isOverlapping :: "bool \<Rightarrow> bson \<Rightarrow> bson \<Rightarrow> (bson, 'v) omap \<Rightarrow> bool" where
  "isOverlapping minKeyIndexed mn mx m \<longleftrightarrow>
     fst (overlappingRange minKeyIndexed mn mx m) \<noteq> snd (overlappingRange minKeyIndexed mn mx m)"

text \<open>Erasing from one iterator to an earlier one is undefined.\<close>

definition removeOverlapping :: "bool \<Rightarrow> bson \<Rightarrow> bson \<Rightarrow> (bson, 'v) omap \<Rightarrow> (bson, 'v) omap result" where
  "removeOverlapping minKeyIndexed mn mx m =
     (case overlappingRange minKeyIndexed mn mx m of
        (low, high) \<Rightarrow> if low \<le> high then Inr (om_erase_range low high m) else Inl UndefinedBehaviour)"

definition note_shard_version :: "bstr \<Rightarrow> chunk_version \<Rightarrow> (bstr, chunk_version) omap \<Rightarrow> (bstr, chunk_version) omap" where
  "note_shard_version shard v m =
     (case om_find lexcmp shard m of
        None \<Rightarrow> om_put lexcmp shard v m
      | Some (_, w) \<Rightarrow> if version_lt w v then om_put lexcmp shard v m else m)"

text \<open>
  The first loop: the data, the number of valid documents and the documents to track, or \<open>None\<close> for the
  early return of \<open>-1\<close>.  The data is changed in place and so is part of both results.
\<close>

fun read_diffs :: "'v diff_adapter \<Rightarrow> bstr \<Rightarrow> bson list \<Rightarrow> 'v diff_data \<Rightarrow> int \<Rightarrow> bson list \<Rightarrow>
    ('v diff_data \<times> (int \<times> bson list) option) result" where
  "read_diffs a currEpoch [] d validDiffs newTracked = Inr (d, Some (validDiffs, newTracked))"
| "read_diffs a currEpoch (doc # docs) d validDiffs newTracked =
     (case version_fromObj doc (str ''lastmod'') of
        None \<Rightarrow> Inl UndefinedBehaviour
      | Some (chunkVersion, _) \<Rightarrow>
          (case (val doc ''min'', val doc ''max'', val doc ''shard'') of
             (Some (ObjectV mn), Some (ObjectV mx), Some (StringV s)) \<Rightarrow>
               if \<not> version_isSet chunkVersion \<or> \<not> hasCompatibleEpoch chunkVersion currEpoch then Inr (d, None)
               else bind_result (removeOverlapping (isMinKeyIndexed a) mn mx (currMap d)) (\<lambda>m.
                      read_diffs a currEpoch docs
                        (d\<lparr>currMap := m,
                           maxVersion := (if version_gt chunkVersion (maxVersion d) then chunkVersion else maxVersion d),
                           maxShardVersions := note_shard_version (cstr s) chunkVersion (maxShardVersions d)\<rparr>)
                        (validDiffs + 1) (if isTracked a doc then newTracked @ [doc] else newTracked))
           | _ \<Rightarrow> read_diffs a currEpoch docs d validDiffs newTracked))"

text \<open>The second loop; \<open>False\<close> is the early return of \<open>-1\<close>.\<close>

fun add_tracked :: "'v diff_adapter \<Rightarrow> bson list \<Rightarrow> (bson, 'v) omap \<Rightarrow> ((bson, 'v) omap \<times> bool) result" where
  "add_tracked a [] m = Inr (m, True)"
| "add_tracked a (doc # docs) m =
     bind_result (elem_Obj (val doc ''min'')) (\<lambda>mn.
     bind_result (elem_Obj (val doc ''max'')) (\<lambda>mx.
       if isOverlapping (isMinKeyIndexed a) mn mx m then Inr (m, False)
       else add_tracked a docs
         (om_insert obj_cmp (fst (rangeFor a doc mn mx)) (snd (rangeFor a doc mn mx)) m)))"

definition calculateConfigDiff :: "'v diff_adapter \<Rightarrow> bson list \<Rightarrow> 'v diff_data \<Rightarrow> ('v diff_data \<times> int) result" where
  "calculateConfigDiff a docs d =
     bind_result (read_diffs a (epoch (maxVersion d)) docs d 0 []) (\<lambda>(d, r).
       case r of
         None \<Rightarrow> Inr (d, -1)
       | Some (validDiffs, newTracked) \<Rightarrow>
           bind_result (add_tracked a newTracked (currMap d)) (\<lambda>(m, ok).
             Inr (d\<lparr>currMap := m\<rparr>, if ok then validDiffs else -1)))"

text \<open>
  The query for the changes.  The code builds a copy of it with a sort order and returns the one
  without.
\<close>

definition maxMinorVersionClauses :: int where
  "maxMinorVersionClauses = 50"

fun bson_array :: "nat \<Rightarrow> bson list \<Rightarrow> bson" where
  "bson_array i [] = []"
| "bson_array i (x # xs) = (digits i, ObjectV x) # bson_array (i + 1) xs"

definition configDiffQuery :: "bstr \<Rightarrow> chunk_version list \<Rightarrow> 'v diff_data \<Rightarrow> bson" where
  "configDiffQuery ns extraMinorVersions d =
     (let numStaleMinorClauses = int (length extraMinorVersions) + int (length (maxShardVersions d))
      in (str ''ns'', StringV ns) #
         (if numStaleMinorClauses < maxMinorVersionClauses
          then [(str ''$or'', ArrayV (bson_array 0
            ([(str ''lastmod'', ObjectV [(str ''$gte'', TimestampV (combined (maxVersion d)))])] #
             map (\<lambda>(shard, v). [(str ''shard'', StringV shard),
                                (str ''lastmod'', ObjectV [(str ''$gt'', TimestampV (combined v))])]) (maxShardVersions d) @
             map (\<lambda>v. [(str ''lastmod'', ObjectV [(str ''$gt'', TimestampV (combined v)),
                         (str ''$lt'', TimestampV (combined (version_make (major v + 1) 0 no_oid)))])]) extraMinorVersions)))]
          else []))"

section \<open>Applying a diff\<close>

text \<open>The range and version of a chunk document, and the documents that are applied.\<close>

definition doc_range :: "bson \<Rightarrow> bson \<times> bson" where
  "doc_range doc =
     ((case val doc ''min'' of Some (ObjectV mn) \<Rightarrow> mn | _ \<Rightarrow> []),
      (case val doc ''max'' of Some (ObjectV mx) \<Rightarrow> mx | _ \<Rightarrow> []))"

definition doc_shard :: "bson \<Rightarrow> bstr" where
  "doc_shard doc = (case val doc ''shard'' of Some (StringV s) \<Rightarrow> s | _ \<Rightarrow> [])"

definition doc_version :: "bson \<Rightarrow> chunk_version" where
  "doc_version doc = (case version_fromObj doc (str ''lastmod'') of Some (v, _) \<Rightarrow> v | None \<Rightarrow> version_zero)"

definition typed_diff :: "bson \<Rightarrow> bool" where
  "typed_diff doc \<longleftrightarrow> val doc ''min'' = Some (ObjectV (fst (doc_range doc))) \<and>
     val doc ''max'' = Some (ObjectV (snd (doc_range doc))) \<and> val doc ''shard'' = Some (StringV (doc_shard doc)) \<and>
     version_fromObj doc (str ''lastmod'') \<noteq> None"

definition valid_diff :: "bool \<Rightarrow> bstr \<Rightarrow> bson \<Rightarrow> bool" where
  "valid_diff b currEpoch doc \<longleftrightarrow> typed_diff doc \<and> version_isSet (doc_version doc) \<and>
     hasCompatibleEpoch (doc_version doc) currEpoch \<and> range_ok (ord_ok_obj b) obj_cmp (doc_range doc)"

lemma valid_diffE:
  assumes "valid_diff b currEpoch doc"
  obtains mn mx s v c where "val doc ''min'' = Some (ObjectV mn)" "val doc ''max'' = Some (ObjectV mx)"
    "val doc ''shard'' = Some (StringV s)" "version_fromObj doc (str ''lastmod'') = Some (v, c)"
    "version_isSet v" "hasCompatibleEpoch v currEpoch" "range_ok (ord_ok_obj b) obj_cmp (mn, mx)"
    "doc_range doc = (mn, mx)" "doc_version doc = v"
  using assms unfolding valid_diff_def typed_diff_def doc_version_def by (cases "doc_range doc") fastforce

lemma om_sorted_filter: "om_sorted D cmp m \<Longrightarrow> om_sorted D cmp (filter P m)"
  by (auto simp: om_sorted_def sorted_wrt_filter)

lemma version_gt_trans [trans]: "\<not> version_gt u v \<Longrightarrow> \<not> version_gt v w \<Longrightarrow> \<not> version_gt u w"
  by (auto simp: version_gt_def)

lemma read_diffs_valid:
  assumes "isMinKeyIndexed a" "om_sorted (ord_ok_obj b) obj_cmp (currMap d)"
    "\<forall>doc \<in> set docs. valid_diff b currEpoch doc"
  shows "\<exists>d'. read_diffs a currEpoch docs d n nt = Inr (d', Some (n + int (length docs), nt @ filter (isTracked a) docs)) \<and>
    currMap d' = filter (\<lambda>e. \<forall>doc \<in> set docs. \<not> in_range obj_cmp (doc_range doc) (fst e)) (currMap d) \<and>
    (\<forall>doc \<in> set docs. \<not> version_gt (doc_version doc) (maxVersion d')) \<and> \<not> version_gt (maxVersion d) (maxVersion d')"
  using assms(2,3)
proof (induction docs arbitrary: d n nt)
  case (Cons doc docs)
  from Cons.prems(2) have "valid_diff b currEpoch doc" by simp
  then obtain mn mx s v c where doc: "val doc ''min'' = Some (ObjectV mn)" "val doc ''max'' = Some (ObjectV mx)"
    "val doc ''shard'' = Some (StringV s)" "version_fromObj doc (str ''lastmod'') = Some (v, c)"
    "version_isSet v" "hasCompatibleEpoch v currEpoch" "range_ok (ord_ok_obj b) obj_cmp (mn, mx)"
    "doc_range doc = (mn, mx)" "doc_version doc = v" by (rule valid_diffE)
  have dom: "ord_ok_obj b mn" "ord_ok_obj b mx" "obj_cmp mn mx \<le> 0" using doc(7) by (simp_all add: range_ok_def)
  note erase = obj_map.erase_between [OF Cons.prems(1) dom]
  let ?m = "filter (\<lambda>e. \<not> in_range obj_cmp (mn, mx) (fst e)) (currMap d)"
  let ?d = "d\<lparr>currMap := ?m, maxVersion := (if version_gt v (maxVersion d) then v else maxVersion d),
    maxShardVersions := note_shard_version (cstr s) v (maxShardVersions d)\<rparr>"
  have rm: "removeOverlapping True mn mx (currMap d) = Inr ?m"
    unfolding removeOverlapping_def overlappingRange_def using erase
    by (simp add: in_range_def not_less not_le disj_commute)
  have "om_sorted (ord_ok_obj b) obj_cmp (currMap ?d)" using Cons.prems(1) by (simp add: om_sorted_filter)
  from Cons.IH [OF this, of "n + 1" "if isTracked a doc then nt @ [doc] else nt"] Cons.prems(2)
  obtain d' where d': "read_diffs a currEpoch docs ?d (n + 1) (if isTracked a doc then nt @ [doc] else nt) =
      Inr (d', Some (n + 1 + int (length docs), (if isTracked a doc then nt @ [doc] else nt) @ filter (isTracked a) docs))"
    "currMap d' = filter (\<lambda>e. \<forall>doc \<in> set docs. \<not> in_range obj_cmp (doc_range doc) (fst e)) ?m"
    "\<forall>doc \<in> set docs. \<not> version_gt (doc_version doc) (maxVersion d')" "\<not> version_gt (maxVersion ?d) (maxVersion d')"
    by auto
  have "\<not> version_gt v (maxVersion d')" "\<not> version_gt (maxVersion d) (maxVersion d')"
    using d'(4) by (auto simp: version_gt_def split: if_splits)
  moreover have "read_diffs a currEpoch (doc # docs) d n nt =
      Inr (d', Some (n + int (length (doc # docs)), nt @ filter (isTracked a) (doc # docs)))"
    using doc(1-6) rm assms(1) d'(1) by simp
  ultimately show ?case using d'(2,3) doc(8,9) by (intro exI [of _ d']) (auto intro: filter_cong)
qed (simp add: version_gt_def)

lemma read_diffs_append:
  "read_diffs a ep (xs @ ys) d n nt =
     bind_result (read_diffs a ep xs d n nt) (\<lambda>(d', r).
       case r of None \<Rightarrow> Inr (d', None) | Some (n', nt') \<Rightarrow> read_diffs a ep ys d' n' nt')"
proof (induction xs arbitrary: d n nt)
  case (Cons x xs)
  show ?case
    by (simp add: Cons split: option.split prod.split) (auto simp: Cons bind_result_assoc split: bson_value.split option.split)
qed simp

abbreviation tracked_entry :: "'v diff_adapter \<Rightarrow> bson \<Rightarrow> bson \<times> 'v" where
  "tracked_entry a doc \<equiv> rangeFor a doc (fst (doc_range doc)) (snd (doc_range doc))"

abbreviation disjoint_docs :: "bson list \<Rightarrow> bool" where
  "disjoint_docs docs \<equiv> sorted_wrt (\<lambda>x y. \<not> ranges_meet obj_cmp (doc_range x) (doc_range y)) docs"

lemma add_tracked_valid:
  assumes "isMinKeyIndexed a" "\<And>doc mn mx. fst (rangeFor a doc mn mx) = mn"
    "om_sorted (ord_ok_obj b) obj_cmp m" "\<forall>doc \<in> set docs. valid_diff b ep doc" "disjoint_docs docs"
    "\<forall>doc \<in> set docs. \<forall>e \<in> set m. \<not> in_range obj_cmp (doc_range doc) (fst e)"
  shows "\<exists>m'. add_tracked a docs m = Inr (m', True) \<and> om_sorted (ord_ok_obj b) obj_cmp m' \<and>
    set m' = set m \<union> tracked_entry a ` set docs"
  using assms(3-6)
proof (induction docs arbitrary: m)
  case (Cons doc docs)
  from Cons.prems(2) have "valid_diff b ep doc" by simp
  then obtain mn mx where doc: "val doc ''min'' = Some (ObjectV mn)" "val doc ''max'' = Some (ObjectV mx)"
    "doc_range doc = (mn, mx)" and r: "range_ok (ord_ok_obj b) obj_cmp (mn, mx)" by (rule valid_diffE)
  have dom: "ord_ok_obj b mn" "ord_ok_obj b mx" "obj_cmp mn mx \<le> 0" using r by (simp_all add: range_ok_def)
  have "\<not> isOverlapping True mn mx m"
    unfolding isOverlapping_def overlappingRange_def
    using obj_map.erase_between(3) [OF Cons.prems(1) dom] Cons.prems(4) doc(3) by (auto simp: in_range_def not_less)
  moreover have in': "in_range obj_cmp (mn, mx) k" if "obj_cmp k mn = 0" "ord_ok_obj b k" for k
    using that r obj_map.le_less_trans [of b k mn mx] by (auto simp: in_range_def range_ok_def)
  then have "\<forall>e \<in> set m. obj_cmp (fst e) mn \<noteq> 0"
    using Cons.prems(1,4) doc(3) by (auto simp: om_sorted_def)
  then have "om_sorted (ord_ok_obj b) obj_cmp (om_insert obj_cmp mn (snd (rangeFor a doc mn mx)) m) \<and>
    set (om_insert obj_cmp mn (snd (rangeFor a doc mn mx)) m) = insert (mn, snd (rangeFor a doc mn mx)) (set m)"
    by (rule obj_map.insert_new [OF Cons.prems(1) dom(1)])
  moreover have "(mn, snd (rangeFor a doc mn mx)) = rangeFor a doc mn mx"
    using assms(2) [of doc mn mx] by (simp add: prod_eq_iff)
  moreover have "\<not> in_range obj_cmp (doc_range x) mn" if "x \<in> set docs" for x
  proof -
    have "valid_diff b ep x" "\<not> ranges_meet obj_cmp (doc_range doc) (doc_range x)"
      using Cons.prems(2,3) that by auto
    then show ?thesis using obj_map.apart_starts(2) [of b "doc_range doc" "doc_range x"] r doc(3) by (auto simp: valid_diff_def)
  qed
  ultimately show ?case
    using Cons.IH [of "om_insert obj_cmp mn (snd (rangeFor a doc mn mx)) m"] Cons.prems assms(1,2) doc
    by (auto simp: Un_insert_left)
qed simp

lemma config_diff_applied:
  assumes "isMinKeyIndexed a" "\<And>doc mn mx. fst (rangeFor a doc mn mx) = mn"
    "om_sorted (ord_ok_obj b) obj_cmp (currMap d)"
    "\<forall>doc \<in> set docs. valid_diff b (epoch (maxVersion d)) doc" "disjoint_docs docs"
  shows "\<exists>d'. calculateConfigDiff a docs d = Inr (d', int (length docs)) \<and> om_sorted (ord_ok_obj b) obj_cmp (currMap d') \<and>
    set (currMap d') = {e \<in> set (currMap d). \<forall>doc \<in> set docs. \<not> in_range obj_cmp (doc_range doc) (fst e)} \<union>
      tracked_entry a ` {doc \<in> set docs. isTracked a doc} \<and>
    (\<forall>doc \<in> set docs. \<not> version_gt (doc_version doc) (maxVersion d')) \<and> \<not> version_gt (maxVersion d) (maxVersion d')"
proof -
  from read_diffs_valid [OF assms(1,3,4), of 0 "[]"] obtain d' where
    d': "read_diffs a (epoch (maxVersion d)) docs d 0 [] = Inr (d', Some (int (length docs), filter (isTracked a) docs))"
    "currMap d' = filter (\<lambda>e. \<forall>doc \<in> set docs. \<not> in_range obj_cmp (doc_range doc) (fst e)) (currMap d)"
    "\<forall>doc \<in> set docs. \<not> version_gt (doc_version doc) (maxVersion d')" "\<not> version_gt (maxVersion d) (maxVersion d')"
    by auto
  have "\<exists>m'. add_tracked a (filter (isTracked a) docs) (currMap d') = Inr (m', True) \<and> om_sorted (ord_ok_obj b) obj_cmp m' \<and>
    set m' = set (currMap d') \<union> tracked_entry a ` set (filter (isTracked a) docs)"
    using d'(2) assms by (intro add_tracked_valid) (auto simp: om_sorted_filter sorted_wrt_filter)
  then obtain m' where "add_tracked a (filter (isTracked a) docs) (currMap d') = Inr (m', True)"
    "om_sorted (ord_ok_obj b) obj_cmp m'" "set m' = set (currMap d') \<union> tracked_entry a ` set (filter (isTracked a) docs)" by blast
  with d' show ?thesis by (intro exI [of _ "d'\<lparr>currMap := m'\<rparr>"]) (auto simp: calculateConfigDiff_def)
qed

section \<open>Properties\<close>





text \<open>
  The test for overlap looks only at where the chunks of the map start: it misses one that starts
  before the new range and reaches into it.
\<close>

lemma overlap_missed:
  "ranges_meet obj_cmp ([(n, NullV)], [(n, MaxKeyV)]) ([(n, MinKeyV)], [(n, BoolV True)])"
  "\<not> isOverlapping True [(n, NullV)] [(n, MaxKeyV)] [([(n, MinKeyV)], [(n, BoolV True)])]"
  by (simp_all add: ranges_meet_def isOverlapping_def overlappingRange_def lower_bound_def elem_woCompare_def lex_def Let_def)

end
