(* ===== verification/ShardChunks.thy ===== *)
theory ShardChunks
  imports ConfigDiff
begin

text \<open>
  The chunks of a collection that a shard owns (\<open>s/d_chunk_manager.cpp\<close>): loading them, finding out
  whether a document belongs to the shard, and the new managers that a migration or a split installs.
  \<open>_chunksMap\<close> maps the lower bound of every chunk to its upper bound; \<open>_rangesMap\<close> is the same with
  adjacent chunks joined.
\<close>

section \<open>The manager\<close>

record shard_chunk_manager =
  collVersion :: chunk_version
  shardVersion :: chunk_version
  shardKey :: bson
  chunksMap :: "(bson, bson) omap"
  rangesMap :: "(bson, bson) omap"

definition scm_new :: shard_chunk_manager where
  "scm_new = \<lparr> collVersion = version_zero, shardVersion = version_zero, shardKey = [], chunksMap = [], rangesMap = [] \<rparr>"

definition fillCollectionKey :: "bson \<Rightarrow> bson result" where
  "fillCollectionKey collectionDoc =
     (case val collectionDoc ''key'' of
        Some (ObjectV b) \<Rightarrow> Inr b
      | Some (ArrayV b) \<Rightarrow> Inr b
      | _ \<Rightarrow> Inl (UserAssertion 13542))"

fun fillChunks_loop :: "bson list \<Rightarrow> (bson, bson) omap \<Rightarrow> chunk_version \<Rightarrow> ((bson, bson) omap \<times> chunk_version) result" where
  "fillChunks_loop [] m v = Inr (m, v)"
| "fillChunks_loop (d # ds) m v =
     bind_result (elem_Obj (val d ''min'')) (\<lambda>mn.
     bind_result (elem_Obj (val d ''max'')) (\<lambda>mx.
       case version_fromBSON (val d ''lastmod'') of
         None \<Rightarrow> Inl UndefinedBehaviour
       | Some (currVersion, _) \<Rightarrow>
           fillChunks_loop ds (om_insert obj_cmp mn mx m) (if version_gt currVersion v then currVersion else v)))"

definition fillChunks :: "bson list \<Rightarrow> shard_chunk_manager \<Rightarrow> shard_chunk_manager result" where
  "fillChunks docs p =
     bind_result (fillChunks_loop docs (chunksMap p) version_zero)
       (\<lambda>(m, v). Inr (p\<lparr>chunksMap := m, shardVersion := v\<rparr>))"

text \<open>The range being joined, and the ranges already complete.\<close>

fun fillRanges_loop :: "bson \<Rightarrow> bson \<Rightarrow> (bson, bson) omap \<Rightarrow> (bson, bson) omap \<Rightarrow> (bson \<times> bson \<times> (bson, bson) omap) result" where
  "fillRanges_loop mn mx ranges [] = Inr (mn, mx, ranges)"
| "fillRanges_loop mn mx ranges ((currMin, currMax) # it) =
     (if mn = [] then fillRanges_loop currMin currMax ranges it
      else bind_result (bson_equal mx currMin) (\<lambda>eq.
        if eq then fillRanges_loop mn currMax ranges it
        else fillRanges_loop currMin currMax (om_insert obj_cmp mn mx ranges) it))"

definition fillRanges :: "shard_chunk_manager \<Rightarrow> shard_chunk_manager result" where
  "fillRanges p =
     (if chunksMap p = [] then Inr p
      else bind_result (fillRanges_loop [] [] (rangesMap p) (chunksMap p)) (\<lambda>(mn, mx, ranges).
        if mn = [] then Inl VerifyFailed else Inr (p\<lparr>rangesMap := om_insert obj_cmp mn mx ranges\<rparr>)))"

definition scm_from_docs :: "bson \<Rightarrow> bson list \<Rightarrow> shard_chunk_manager result" where
  "scm_from_docs collectionDoc chunksArr =
     bind_result (fillCollectionKey collectionDoc) (\<lambda>key.
     bind_result (fillChunks chunksArr (scm_new\<lparr>shardKey := key\<rparr>)) fillRanges)"

definition SCMConfigDiffTracker :: "bstr \<Rightarrow> bson diff_adapter" where
  "SCMConfigDiffTracker currShard =
     \<lparr> isTracked = (\<lambda>doc. case val doc ''shard'' of Some (StringV s) \<Rightarrow> cstr s = currShard | _ \<Rightarrow> False),
       isMinKeyIndexed = True, rangeFor = (\<lambda>_ mn mx. (mn, mx)) \<rparr>"

text \<open>
  \<open>_init\<close> on what the config server returned: the document of the collection and the chunk documents.
  The last \<open>uassert\<close> tests the cursor again, which is not null.
\<close>

definition scm_init :: "bstr \<Rightarrow> shard_chunk_manager option \<Rightarrow> bson \<Rightarrow> bson list \<Rightarrow> shard_chunk_manager result" where
  "scm_init shardName oldManager collectionDoc docs =
     (if collectionDoc = [] then Inr scm_new
      else bind_result (elem_Bool (val collectionDoc ''dropped'')) (\<lambda>dropped.
        if dropped then Inr scm_new
        else bind_result (fillCollectionKey collectionDoc) (\<lambda>key.
          let start = (case oldManager of
                Some old \<Rightarrow> if version_isSet (collVersion old)
                  then \<lparr> currMap = chunksMap old, maxVersion = collVersion old, maxShardVersions = [(shardName, shardVersion old)] \<rparr>
                  else \<lparr> currMap = [], maxVersion = version_of_long 0 no_oid, maxShardVersions = [(shardName, version_zero)] \<rparr>
              | None \<Rightarrow> \<lparr> currMap = [], maxVersion = version_of_long 0 no_oid, maxShardVersions = [(shardName, version_zero)] \<rparr>)
          in bind_result (calculateConfigDiff (SCMConfigDiffTracker shardName) docs start) (\<lambda>(d, diffsApplied).
               let p = scm_new\<lparr>shardKey := key, collVersion := maxVersion d, chunksMap := currMap d\<rparr>
               in if diffsApplied > 0
                  then fillRanges (p\<lparr>shardVersion :=
                    (case om_find lexcmp shardName (maxShardVersions d) of Some (_, v) \<Rightarrow> v | None \<Rightarrow> version_zero)\<rparr>)
                  else if diffsApplied = 0
                  then Inr (p\<lparr>shardVersion := version_of_long 0 no_oid, collVersion := version_of_long 0 no_oid, chunksMap := []\<rparr>)
                  else Inr p))))"

section \<open>Lookups\<close>

definition contains :: "bson \<Rightarrow> bson \<Rightarrow> bson \<Rightarrow> bool" where
  "contains mn mx point \<longleftrightarrow> obj_cmp point mn \<ge> 0 \<and> obj_cmp point mx < 0"

definition overlap :: "bson \<Rightarrow> bson \<Rightarrow> bson \<Rightarrow> bson \<Rightarrow> bool" where
  "overlap l1 h1 l2 h2 \<longleftrightarrow> \<not> (obj_cmp h1 l2 \<le> 0 \<or> obj_cmp h2 l1 \<le> 0)"

text \<open>With no range the iterator is at the end, where it may not be read.\<close>

definition belongsToMe_point :: "shard_chunk_manager \<Rightarrow> bson \<Rightarrow> bool result" where
  "belongsToMe_point p point =
     (if rangesMap p = [] then Inl UndefinedBehaviour
      else let it = rangesMap p ! step_back (upper_bound obj_cmp point (rangesMap p))
           in Inr (contains (fst it) (snd it) point))"

definition belongsToMe :: "(bson_value option \<Rightarrow> u64) \<Rightarrow> shard_chunk_manager \<Rightarrow> bson \<Rightarrow> bool result" where
  "belongsToMe hash64 p doc =
     (if rangesMap p = [] then Inr False
      else belongsToMe_point p (extractSingleKey hash64 (shardKey p) doc))"

definition getNextChunk :: "shard_chunk_manager \<Rightarrow> bson \<Rightarrow> bool \<times> bson \<times> bson" where
  "getNextChunk p lookupKey =
     (if chunksMap p = [] then (True, [], [])
      else if lookupKey = [] then (length (chunksMap p) = 1, fst (hd (chunksMap p)), snd (hd (chunksMap p)))
      else let it = upper_bound obj_cmp lookupKey (chunksMap p)
           in if it \<noteq> length (chunksMap p) then (False, fst (chunksMap p ! it), snd (chunksMap p ! it))
              else (True, [], []))"

definition scm_hasShardKey :: "shard_chunk_manager \<Rightarrow> bson \<Rightarrow> bool" where
  "scm_hasShardKey p obj = hasShardKey (ShardKeyPattern (shardKey p)) obj"

section \<open>New managers\<close>

definition assertChunkExists :: "shard_chunk_manager \<Rightarrow> bson \<Rightarrow> bson \<Rightarrow> unit result" where
  "assertChunkExists p mn mx =
     (case om_find obj_cmp mn (chunksMap p) of
        None \<Rightarrow> Inl (UserAssertion 13586)
      | Some it \<Rightarrow> if obj_cmp (snd it) mx \<noteq> 0 then Inl (UserAssertion 13587) else Inr ())"

definition cloneMinus :: "shard_chunk_manager \<Rightarrow> bson \<Rightarrow> bson \<Rightarrow> chunk_version \<Rightarrow> shard_chunk_manager result" where
  "cloneMinus p mn mx version =
     bind_result (assertChunkExists p mn mx) (\<lambda>_.
       if length (chunksMap p) = 1
       then bind_result (guardE (\<not> version_isSet version) (UserAssertion 13590)) (\<lambda>_.
         Inr (scm_new\<lparr>shardKey := shardKey p, shardVersion := version_of_long 0 no_oid, collVersion := collVersion p\<rparr>))
       else if version_le version (shardVersion p) then Inl (UserAssertion 13585)
       else fillRanges (scm_new\<lparr>shardKey := shardKey p, chunksMap := om_erase obj_cmp mn (chunksMap p),
              shardVersion := version,
              collVersion := (if version_gt version (collVersion p) then version else collVersion p)\<rparr>))"

definition clonePlus :: "shard_chunk_manager \<Rightarrow> bson \<Rightarrow> bson \<Rightarrow> chunk_version \<Rightarrow> shard_chunk_manager result" where
  "clonePlus p mn mx version =
     bind_result (guardE (version_isSet version) (UserAssertion 13591)) (\<lambda>_.
     bind_result
       (if chunksMap p \<noteq> []
        then let it = chunksMap p ! step_back (lower_bound obj_cmp mx (chunksMap p))
             in guardE (\<not> overlap mn mx (fst it) (snd it)) (UserAssertion 13588)
        else Inr ()) (\<lambda>_.
       fillRanges (scm_new\<lparr>shardKey := shardKey p, chunksMap := om_insert obj_cmp mn mx (chunksMap p),
         shardVersion := version,
         collVersion := (if version_gt version (collVersion p) then version else collVersion p)\<rparr>)))"

text \<open>The loop over the split keys: the map and the version; \<open>startKey\<close> is set and never read.\<close>

fun split_loop :: "bson \<Rightarrow> bson \<Rightarrow> bson list \<Rightarrow> (bson, bson) omap \<Rightarrow> chunk_version \<Rightarrow> (bson, bson) omap \<times> chunk_version" where
  "split_loop mn mx [] m v = (m, v)"
| "split_loop mn mx (split # keys) m v =
     split_loop mn mx keys (om_insert obj_cmp split mx (om_put obj_cmp mn split m)) (incMinor v)"

definition cloneSplit :: "shard_chunk_manager \<Rightarrow> bson \<Rightarrow> bson \<Rightarrow> bson list \<Rightarrow> chunk_version \<Rightarrow> shard_chunk_manager result" where
  "cloneSplit p mn mx splitKeys version =
     (if version_le version (shardVersion p) then Inl (UserAssertion 14039)
      else bind_result (assertChunkExists p mn mx) (\<lambda>_.
        if \<exists>k \<in> set splitKeys. \<not> contains mn mx k then Inl (UserAssertion 14040)
        else let (m, v) = split_loop mn mx splitKeys (chunksMap p) version
             in fillRanges (scm_new\<lparr>shardKey := shardKey p, chunksMap := m, shardVersion := v,
                  collVersion := (if version_gt version (collVersion p) then version else collVersion p)\<rparr>)))"

section \<open>Joined ranges\<close>

text \<open>What every manager keeps: disjoint chunks with the fields of the key, and the ranges they join to.\<close>

definition bounds_ok :: "shard_chunk_manager \<Rightarrow> bson \<times> bson \<Rightarrow> bool" where
  "bounds_ok p r \<longleftrightarrow> length (fst r) = length (shardKey p) \<and> length (snd r) = length (shardKey p)"

definition chunks_ok :: "bool \<Rightarrow> shard_chunk_manager \<Rightarrow> bool" where
  "chunks_ok b p \<longleftrightarrow> shardKey p \<noteq> [] \<and> ranges_ok (ord_ok_obj b) obj_cmp (chunksMap p) \<and> (\<forall>r \<in> set (chunksMap p). bounds_ok p r)"

definition scm_ok :: "bool \<Rightarrow> shard_chunk_manager \<Rightarrow> bool" where
  "scm_ok b p \<longleftrightarrow> chunks_ok b p \<and> ranges_ok (ord_ok_obj b) obj_cmp (rangesMap p) \<and> (rangesMap p = [] \<longleftrightarrow> chunksMap p = []) \<and>
     (\<forall>point. ord_ok_obj b point \<longrightarrow> covers obj_cmp (rangesMap p) point = covers obj_cmp (chunksMap p) point)"

abbreviation owns :: "shard_chunk_manager \<Rightarrow> bson \<Rightarrow> bool" where
  "owns p \<equiv> covers obj_cmp (chunksMap p)"

lemma ranges_ok_join:
  assumes "ranges_ok D cmp (acc @ (mn, mx) # (c, d) # it)" "range_ok D cmp (mn, d)"
  shows "ranges_ok D cmp (acc @ (mn, d) # it)"
  using assms by (auto simp: ranges_ok_append)

lemma fillRanges_loop_ok:
  assumes "ranges_ok (ord_ok_obj b) obj_cmp (acc @ (mn, mx) # it)" "mn \<noteq> []" "length mx = n" "0 < n"
    "\<forall>r \<in> set it. length (fst r) = n \<and> length (snd r) = n"
  shows "\<exists>mn' mx' acc'. fillRanges_loop mn mx acc it = Inr (mn', mx', acc') \<and> mn' \<noteq> [] \<and>
    ranges_ok (ord_ok_obj b) obj_cmp (acc' @ [(mn', mx')]) \<and>
    (\<forall>p. ord_ok_obj b p \<longrightarrow> covers obj_cmp (acc' @ [(mn', mx')]) p = covers obj_cmp (acc @ (mn, mx) # it) p)"
  using assms
proof (induction it arbitrary: mn mx acc)
  case (Cons r it)
  obtain c d where r: "r = (c, d)" by (cases r)
  with Cons.prems have len: "length mx = length c" "length d = n" "c \<noteq> []" by auto
  have eq: "bson_equal mx c = Inr (obj_cmp mx c = 0)" using len(1) by (rule bson_equal_same_length)
  have ok: "range_ok (ord_ok_obj b) obj_cmp (mn, mx)" "range_ok (ord_ok_obj b) obj_cmp (c, d)"
    using Cons.prems(1) r by (auto simp: ranges_ok_append)
  show ?case
  proof (cases "obj_cmp mx c = 0")
    case True
    note j = obj_map.join_ranges [OF ok True]
    have "ord_ok_obj b mn" using ok(1) by (simp add: range_ok_def)
    then have "range_ok (ord_ok_obj b) obj_cmp (mn, d)" by (rule j(1))
    with Cons.prems(1) have "ranges_ok (ord_ok_obj b) obj_cmp (acc @ (mn, d) # it)"
      unfolding r by (rule ranges_ok_join)
    from Cons.IH [OF this Cons.prems(2) len(2) Cons.prems(4)] Cons.prems(5) r eq True Cons.prems(2) j(2) show ?thesis by simp
  next
    case False
    have ins: "om_insert obj_cmp mn mx acc = acc @ [(mn, mx)]"
      using Cons.prems(1) by (intro obj_map.insert_last [of b]) (auto simp: ranges_ok_append)
    from Cons.IH [of "acc @ [(mn, mx)]" c d] Cons.prems r len eq False ins show ?thesis by simp
  qed
qed auto

lemma fillRanges_ok:
  assumes "chunks_ok b p" "rangesMap p = []"
  obtains rs where "fillRanges p = Inr (p\<lparr>rangesMap := rs\<rparr>)" "scm_ok b (p\<lparr>rangesMap := rs\<rparr>)"
proof (cases "chunksMap p")
  case Nil
  then show thesis using assms that [of "[]"] by (simp add: fillRanges_def scm_ok_def chunks_ok_def bounds_ok_def)
next
  case (Cons r it)
  obtain mn mx where r: "r = (mn, mx)" by (cases r)
  have *: "ranges_ok (ord_ok_obj b) obj_cmp ([] @ (mn, mx) # it)" "mn \<noteq> []" "length mx = length (shardKey p)" "0 < length (shardKey p)"
    "\<forall>r \<in> set it. length (fst r) = length (shardKey p) \<and> length (snd r) = length (shardKey p)"
    using assms Cons r by (auto simp: chunks_ok_def bounds_ok_def)
  obtain mn' mx' acc' where l: "fillRanges_loop mn mx [] it = Inr (mn', mx', acc')" "mn' \<noteq> []"
    "ranges_ok (ord_ok_obj b) obj_cmp (acc' @ [(mn', mx')])"
    "\<forall>p. ord_ok_obj b p \<longrightarrow> covers obj_cmp (acc' @ [(mn', mx')]) p = covers obj_cmp ([] @ (mn, mx) # it) p"
    using fillRanges_loop_ok [OF *] by blast
  have "om_insert obj_cmp mn' mx' acc' = acc' @ [(mn', mx')]" using l(3) by (rule obj_map.insert_last)
  then have "fillRanges p = Inr (p\<lparr>rangesMap := acc' @ [(mn', mx')]\<rparr>)"
    using assms(2) Cons r l(1,2) by (simp add: fillRanges_def)
  moreover have "scm_ok b (p\<lparr>rangesMap := acc' @ [(mn', mx')]\<rparr>)"
    using assms(1) Cons r l(3,4) by (auto simp: scm_ok_def chunks_ok_def bounds_ok_def)
  ultimately show thesis by (rule that)
qed

lemma contains_in_range: "contains mn mx = in_range obj_cmp (mn, mx)"
  by (simp add: contains_def in_range_def fun_eq_iff)

lemma overlap_meet: "overlap mn mx (fst r) (snd r) = ranges_meet obj_cmp (mn, mx) r"
  by (simp add: overlap_def ranges_meet_def)

lemma belongs_owns:
  assumes "scm_ok b p" "ord_ok_obj b point" "rangesMap p \<noteq> []"
  shows "belongsToMe_point p point = Inr (owns p point)"
  using assms obj_map.step_back_lookup [of b "rangesMap p" point]
  by (simp add: belongsToMe_point_def scm_ok_def contains_in_range)

lemma find_chunk:
  assumes "chunks_ok b p" "ord_ok_obj b mn"
  shows "om_find obj_cmp mn (chunksMap p) = None \<longleftrightarrow> (\<forall>e \<in> set (chunksMap p). obj_cmp (fst e) mn \<noteq> 0)"
    "e \<in> set (chunksMap p) \<Longrightarrow> obj_cmp (fst e) mn = 0 \<Longrightarrow> om_find obj_cmp mn (chunksMap p) = Some e"
  using assms obj_map.find_none [of b "chunksMap p" mn] obj_map.find_in_ranges [of b "chunksMap p" mn e]
    obj_map.ranges_sorted [of b "chunksMap p"] by (auto simp: chunks_ok_def)

lemma split_chunk:
  assumes ok: "ranges_ok (ord_ok_obj b) obj_cmp m" and e: "e \<in> set m" "obj_cmp (fst e) mn = 0" "obj_cmp (snd e) mx = 0"
    and D: "ord_ok_obj b mn" "ord_ok_obj b mx" "ord_ok_obj b k" and k: "obj_cmp mn k < 0" "obj_cmp k mx < 0"
  defines "m' \<equiv> om_insert obj_cmp k mx (om_put obj_cmp mn k m)"
  shows "ranges_ok (ord_ok_obj b) obj_cmp m' \<and> set m' = insert (k, mx) (insert (fst e, k) (set m - {e}))"
proof -
  from e(1) obtain xs ys where m: "m = xs @ e # ys" by (auto simp: in_set_conv_decomp)
  have sorted: "om_sorted (ord_ok_obj b) obj_cmp m" using ok by (rule obj_map.ranges_sorted)
  have put: "om_put obj_cmp mn k m = xs @ (fst e, k) # ys"
    using sorted D(1) e(2) unfolding m by (rule obj_map.put_existing)
  have re: "range_ok (ord_ok_obj b) obj_cmp e" using ok e(1) by (rule ranges_ok_mem)
  have ek: "obj_cmp (fst e) k < 0" "obj_cmp k (snd e) < 0"
    using re e k D obj_map.le_less_trans [of b "fst e" mn k] obj_map.less_le_trans [of b k mx "snd e"]
      obj_map.eq_sym [of b "snd e" mx] by (auto simp: range_ok_def)
  have P: "ranges_ok (ord_ok_obj b) obj_cmp (xs @ (fst e, k) # ys)"
  proof -
    have "obj_cmp k (fst s) \<le> 0" if "s \<in> set ys" for s
    proof -
      have "range_ok (ord_ok_obj b) obj_cmp s" "obj_cmp (snd e) (fst s) \<le> 0"
        using ok that unfolding m by (auto simp: ranges_ok_append intro: ranges_ok_mem)
      then show ?thesis using ek(2) re D(3) obj_map.less_le_trans [of b k "snd e" "fst s"] by (auto simp: range_ok_def)
    qed
    with ok ek re D(3) show ?thesis unfolding m by (auto simp: ranges_ok_append range_ok_def)
  qed
  have K: "range_ok (ord_ok_obj b) obj_cmp (k, mx)" using D k by (simp add: range_ok_def)
  have "\<not> ranges_meet obj_cmp (k, mx) s" if s: "s \<in> set (xs @ (fst e, k) # ys)" for s
  proof -
    from s consider "s = (fst e, k)" | "s \<in> set xs" | "s \<in> set ys" by auto
    then show ?thesis
    proof cases
      case 1
      then show ?thesis using obj_map.refl [OF D(3)] by (simp add: ranges_meet_def)
    next
      case 2
      then have "obj_cmp (snd s) (fst e) \<le> 0" "range_ok (ord_ok_obj b) obj_cmp s"
        using ok unfolding m by (auto simp: ranges_ok_append intro: ranges_ok_mem)
      then have "obj_cmp (snd s) k < 0" using ek(1) re D(3) obj_map.le_less_trans [of b "snd s" "fst e" k] by (auto simp: range_ok_def)
      then show ?thesis by (simp add: ranges_meet_def)
    next
      case 3
      then have "obj_cmp (snd e) (fst s) \<le> 0" "range_ok (ord_ok_obj b) obj_cmp s"
        using ok unfolding m by (auto simp: ranges_ok_append intro: ranges_ok_mem)
      then have "obj_cmp mx (fst s) \<le> 0"
        using e(3) re D(2) obj_map.eq_sym [of b "snd e" mx] obj_map.le_trans [of b mx "snd e" "fst s"] by (auto simp: range_ok_def)
      then show ?thesis by (simp add: ranges_meet_def)
    qed
  qed
  from obj_map.insert_range [OF P K this]
  have "ranges_ok (ord_ok_obj b) obj_cmp m'" "set m' = insert (k, mx) (set (xs @ (fst e, k) # ys))"
    unfolding m'_def put by simp_all
  moreover have "e \<notin> set xs" "e \<notin> set ys"
    using sorted re obj_map.refl [of b "fst e"] unfolding m by (force simp: om_sorted_def sorted_wrt_append range_ok_def)+
  ultimately show ?thesis unfolding m by auto
qed

lemma disjoint_docs_apart:
  assumes "disjoint_docs docs" "x \<in> set docs" "y \<in> set docs" "doc_range x \<noteq> doc_range y"
  shows "\<not> ranges_meet obj_cmp (doc_range x) (doc_range y)"
  using assms by (induction docs) (auto simp: ranges_meet_def)

text \<open>A manager with the lower half of the keys, for examples.\<close>

definition half_manager :: shard_chunk_manager where
  "half_manager = \<lparr> collVersion = version_zero, shardVersion = version_zero, shardKey = [(str ''a'', IntV 1)],
     chunksMap = [([(str ''a'', MinKeyV)], [(str ''a'', BoolV True)])],
     rangesMap = [([(str ''a'', MinKeyV)], [(str ''a'', BoolV True)])] \<rparr>"

lemma type_order [simp]:
  "canonicalType l < canonicalType r \<Longrightarrow> \<not> isNumber l \<Longrightarrow> elem_woCompare (n, l) (m, r) cfn < 0"
  "canonicalType r < canonicalType l \<Longrightarrow> \<not> isNumber l \<Longrightarrow> elem_woCompare (n, l) (m, r) cfn > 0"
  by (simp_all add: elem_woCompare_def Let_def)

lemma half_manager_ok: "scm_ok True half_manager"
  by (simp add: scm_ok_def chunks_ok_def bounds_ok_def half_manager_def range_ok_def lex_def elem_woCompare_def Let_def)

section \<open>Properties\<close>

text \<open>
  C15: loading a collection from chunk documents that are well typed, disjoint and have the fields of
  the shard key gives a well-formed manager with exactly the chunks of this shard.
\<close>

theorem load_exact:
  assumes "val collectionDoc ''dropped'' = Some (BoolV False)" "val collectionDoc ''key'' = Some (ObjectV key)" "key \<noteq> []"
    "docs \<noteq> []" "disjoint_docs docs"
    "\<forall>doc \<in> set docs. valid_diff b no_oid doc \<and> length (fst (doc_range doc)) = length key \<and> length (snd (doc_range doc)) = length key"
  shows "\<exists>p. scm_init shardName None collectionDoc docs = Inr p \<and> scm_ok b p \<and> shardKey p = key \<and>
    set (chunksMap p) = doc_range ` {doc \<in> set docs. cstr (doc_shard doc) = shardName}"
proof -
  let ?a = "SCMConfigDiffTracker shardName"
  let ?d = "\<lparr>currMap = [], maxVersion = version_of_long 0 no_oid, maxShardVersions = [(shardName, version_zero)]\<rparr>"
  have "isMinKeyIndexed ?a" "\<And>doc mn mx. fst (rangeFor ?a doc mn mx) = mn" "om_sorted (ord_ok_obj b) obj_cmp (currMap ?d)"
    "\<forall>doc \<in> set docs. valid_diff b (epoch (maxVersion ?d)) doc"
    using assms(6) by (simp_all add: SCMConfigDiffTracker_def version_of_long_def)
  note config_diff_applied [OF this assms(5)]
  then obtain d' where d': "calculateConfigDiff ?a docs ?d = Inr (d', int (length docs))" "om_sorted (ord_ok_obj b) obj_cmp (currMap d')"
    "set (currMap d') = doc_range ` {doc \<in> set docs. isTracked ?a doc}" by (auto simp: SCMConfigDiffTracker_def)
  have tracked: "isTracked ?a doc \<longleftrightarrow> cstr (doc_shard doc) = shardName" if "doc \<in> set docs" for doc
    using assms(6) that by (auto simp: SCMConfigDiffTracker_def valid_diff_def typed_diff_def)
  define v where "v = (case om_find lexcmp shardName (maxShardVersions d') of Some (_, v) \<Rightarrow> v | None \<Rightarrow> version_zero)"
  define p where "p = scm_new\<lparr>shardKey := key, collVersion := maxVersion d', chunksMap := currMap d', shardVersion := v\<rparr>"
  have "ranges_ok (ord_ok_obj b) obj_cmp (currMap d')"
    using d'(2,3) assms(6) disjoint_docs_apart [OF assms(5)]
    by (intro obj_map.sorted_disjoint_ranges) (auto simp: valid_diff_def)
  then have "chunks_ok b p"
    using assms(3,6) d'(3) by (auto simp: p_def chunks_ok_def bounds_ok_def)
  then obtain rs where fill: "fillRanges p = Inr (p\<lparr>rangesMap := rs\<rparr>)" "scm_ok b (p\<lparr>rangesMap := rs\<rparr>)"
    by (rule fillRanges_ok) (simp_all add: p_def scm_new_def)
  have "collectionDoc \<noteq> []" using assms(1) by (auto simp: val_def)
  moreover have "scm_new\<lparr>shardKey := key, collVersion := maxVersion d', chunksMap := currMap d'\<rparr>\<lparr>shardVersion := v\<rparr> = p"
    by (simp add: p_def)
  ultimately have "scm_init shardName None collectionDoc docs = Inr (p\<lparr>rangesMap := rs\<rparr>)"
    using assms(1,2,4) d'(1) fill(1) by (simp add: scm_init_def fillCollectionKey_def v_def)
  with fill(2) d'(3) tracked show ?thesis by (intro exI [of _ "p\<lparr>rangesMap := rs\<rparr>"]) (auto simp: p_def)
qed

theorem load_exact_witness:
  "\<exists>collectionDoc docs p. scm_init (str ''s'') None collectionDoc docs = Inr p \<and> scm_ok True p \<and>
     chunksMap p = [([(str ''a'', MinKeyV)], [(str ''a'', MaxKeyV)])]"
proof -
  let ?c = "[(str ''key'', ObjectV [(str ''a'', IntV 1)]), (str ''dropped'', BoolV False)]"
  let ?doc = "[(str ''min'', ObjectV [(str ''a'', MinKeyV)]), (str ''max'', ObjectV [(str ''a'', MaxKeyV)]),
    (str ''shard'', StringV (str ''s'')), (str ''lastmod'', TimestampV 1)]"
  have "valid_diff True no_oid ?doc"
    by (simp add: valid_diff_def typed_diff_def doc_range_def doc_shard_def doc_version_def val_def version_fromObj_def str_def
        version_fromBSON.simps version_isSet_def hasCompatibleEpoch_def oid_isSet_def range_ok_def elem_woCompare_def Let_def hasField_def)
  moreover have r: "doc_range ?doc = ([(str ''a'', MinKeyV)], [(str ''a'', MaxKeyV)])" "cstr (doc_shard ?doc) = str ''s''"
    by (simp_all add: doc_range_def doc_shard_def val_def str_def cstr_def)
  moreover have "val ?c ''dropped'' = Some (BoolV False)" "val ?c ''key'' = Some (ObjectV [(str ''a'', IntV 1)])"
    by (simp_all add: val_def str_def)
  ultimately obtain p where p: "scm_init (str ''s'') None ?c [?doc] = Inr p" "scm_ok True p"
    "set (chunksMap p) = doc_range ` {doc \<in> {?doc}. cstr (doc_shard doc) = str ''s''}"
    using load_exact [of ?c "[(str ''a'', IntV 1)]" "[?doc]" True "str ''s''"] by auto
  have "{doc \<in> {?doc}. cstr (doc_shard doc) = str ''s''} = {?doc}" using r(2) by blast
  then have "set (chunksMap p) = {doc_range ?doc}" unfolding p(3) by (simp only: image_insert image_empty)
  moreover have "sorted_wrt (\<lambda>r s. obj_cmp (snd r) (fst s) \<le> 0) (chunksMap p)" "\<forall>r \<in> set (chunksMap p). obj_cmp (fst r) (snd r) < 0"
    using p(2) by (auto simp: scm_ok_def chunks_ok_def ranges_ok_def range_ok_def)
  ultimately have "chunksMap p = [doc_range ?doc]" unfolding r(1) using r(1)
    by (cases "chunksMap p"; cases "tl (chunksMap p)") (auto simp: elem_woCompare_def Let_def)
  with p(1,2) r(1) show ?thesis by auto
qed

text \<open>
  C4: a shard says that a document belongs to it exactly when one of its chunks contains the shard key
  of the document, although it looks at a single one of the joined ranges.
\<close>

theorem belongsToMe_exact:
  fixes hash64 :: "bson_value option \<Rightarrow> u64"
  assumes "scm_ok b p" "ord_ok_obj b (extractSingleKey hash64 (shardKey p) doc)"
  shows "belongsToMe hash64 p doc = Inr (owns p (extractSingleKey hash64 (shardKey p) doc))"
proof (cases "rangesMap p = []")
  case True
  then have "chunksMap p = []" using assms(1) by (simp add: scm_ok_def)
  with True show ?thesis by (simp add: belongsToMe_def)
next
  case False
  with belongs_owns [OF assms] show ?thesis by (simp add: belongsToMe_def)
qed

theorem belongsToMe_exact_witness:
  "belongsToMe (\<lambda>_. 0) half_manager [(str ''a'', NullV)] = Inr (owns half_manager [(str ''a'', NullV)])"
  using belongsToMe_exact [OF half_manager_ok, of "\<lambda>_. 0" "[(str ''a'', NullV)]"]
  by (simp add: half_manager_def extractSingleKey_def isHashed_def strcmp_def cstr_def str_def extractFields_def getFieldDotted.simps)

text \<open>
  C13: \<open>clonePlus\<close> refuses version zero (13591) and a chunk that shares a point with one of the shard's
  (13588), which it finds by looking at one chunk; otherwise the new manager owns the points of the
  old one and those of the new chunk, and is well formed.
\<close>

theorem clonePlus_exact:
  assumes "scm_ok b p" "range_ok (ord_ok_obj b) obj_cmp (mn, mx)" "bounds_ok p (mn, mx)"
  shows "if \<not> version_isSet v then clonePlus p mn mx v = Inl (UserAssertion 13591)
    else if \<exists>r \<in> set (chunksMap p). ranges_meet obj_cmp (mn, mx) r then clonePlus p mn mx v = Inl (UserAssertion 13588)
    else \<exists>q. clonePlus p mn mx v = Inr q \<and> scm_ok b q \<and> set (chunksMap q) = insert (mn, mx) (set (chunksMap p)) \<and>
      (\<forall>point. owns q point \<longleftrightarrow> owns p point \<or> contains mn mx point) \<and> shardVersion q = v \<and> shardKey q = shardKey p"
proof -
  let ?q = "scm_new\<lparr>shardKey := shardKey p, chunksMap := om_insert obj_cmp mn mx (chunksMap p),
    shardVersion := v, collVersion := (if version_gt v (collVersion p) then v else collVersion p)\<rparr>"
  have ok: "ranges_ok (ord_ok_obj b) obj_cmp (chunksMap p)" "chunks_ok b p" using assms(1) by (simp_all add: scm_ok_def chunks_ok_def)
  have test: "(if chunksMap p \<noteq> []
      then let it = chunksMap p ! step_back (lower_bound obj_cmp mx (chunksMap p))
           in guardE (\<not> overlap mn mx (fst it) (snd it)) (UserAssertion 13588)
      else Inr ()) = guardE (\<not> (\<exists>r \<in> set (chunksMap p). ranges_meet obj_cmp (mn, mx) r)) (UserAssertion 13588)"
    using obj_map.step_back_meets [OF ok(1) assms(2)] by (auto simp: overlap_meet Let_def)
  show ?thesis
  proof (cases "version_isSet v \<and> \<not> (\<exists>r \<in> set (chunksMap p). ranges_meet obj_cmp (mn, mx) r)")
    case True
    then have ins: "ranges_ok (ord_ok_obj b) obj_cmp (chunksMap ?q)" "set (chunksMap ?q) = insert (mn, mx) (set (chunksMap p))"
      using obj_map.insert_range [OF ok(1) assms(2)] by auto
    have "chunks_ok b ?q" using ins assms(3) ok(2) by (auto simp: chunks_ok_def bounds_ok_def)
    then obtain rs where "fillRanges ?q = Inr (?q\<lparr>rangesMap := rs\<rparr>)" "scm_ok b (?q\<lparr>rangesMap := rs\<rparr>)"
      by (rule fillRanges_ok) (simp_all add: scm_new_def)
    with True ins(2) show ?thesis unfolding clonePlus_def test by (auto simp: contains_in_range covers_def)
  next
    case False
    then show ?thesis unfolding clonePlus_def test by auto
  qed
qed

theorem clonePlus_exact_witness:
  "\<exists>q. clonePlus half_manager [(str ''a'', BoolV True)] [(str ''a'', MaxKeyV)] (version_make 1 0 no_oid) = Inr q \<and> scm_ok True q"
proof -
  have "range_ok (ord_ok_obj True) obj_cmp ([(str ''a'', BoolV True)], [(str ''a'', MaxKeyV)])"
    "bounds_ok half_manager ([(str ''a'', BoolV True)], [(str ''a'', MaxKeyV)])"
    "version_isSet (version_make 1 0 no_oid)"
    "\<not> (\<exists>r \<in> set (chunksMap half_manager). ranges_meet obj_cmp ([(str ''a'', BoolV True)], [(str ''a'', MaxKeyV)]) r)"
    by (simp_all add: range_ok_def bounds_ok_def half_manager_def version_isSet_def combined_def version_make_def word_gt_0
        ranges_meet_def elem_woCompare_def lex_def Let_def strcmp_def)
  with clonePlus_exact [OF half_manager_ok, of "[(str ''a'', BoolV True)]" "[(str ''a'', MaxKeyV)]" "version_make 1 0 no_oid"]
  show ?thesis by auto
qed

text \<open>
  C14: \<open>cloneMinus\<close> refuses a chunk that is not there (13586, 13587), a version for the removal of the
  last chunk (13590) and a version that is not newer (13585); otherwise the new manager owns exactly the
  points of the old one outside the chunk, and is well formed.
\<close>

theorem cloneMinus_exact:
  assumes "scm_ok b p" "ord_ok_obj b mn" "ord_ok_obj b mx"
  shows "((\<forall>e \<in> set (chunksMap p). obj_cmp (fst e) mn \<noteq> 0) \<longrightarrow> cloneMinus p mn mx v = Inl (UserAssertion 13586)) \<and>
    (\<forall>e \<in> set (chunksMap p). obj_cmp (fst e) mn = 0 \<longrightarrow>
      (if obj_cmp (snd e) mx \<noteq> 0 then cloneMinus p mn mx v = Inl (UserAssertion 13587)
       else if chunksMap p = [e] \<and> version_isSet v then cloneMinus p mn mx v = Inl (UserAssertion 13590)
       else if chunksMap p \<noteq> [e] \<and> version_le v (shardVersion p) then cloneMinus p mn mx v = Inl (UserAssertion 13585)
       else \<exists>q. cloneMinus p mn mx v = Inr q \<and> scm_ok b q \<and> set (chunksMap q) = set (chunksMap p) - {e} \<and>
         (\<forall>point. ord_ok_obj b point \<longrightarrow> owns q point = (owns p point \<and> \<not> contains mn mx point)) \<and>
         combined (shardVersion q) = combined v \<and> shardKey q = shardKey p))"
proof (intro conjI impI ballI)
  have ok: "ranges_ok (ord_ok_obj b) obj_cmp (chunksMap p)" "chunks_ok b p" using assms(1) by (simp_all add: scm_ok_def chunks_ok_def)
  note find = find_chunk [OF ok(2) assms(2)]
  {
    assume "\<forall>e \<in> set (chunksMap p). obj_cmp (fst e) mn \<noteq> 0"
    with find(1) show "cloneMinus p mn mx v = Inl (UserAssertion 13586)" by (simp add: cloneMinus_def assertChunkExists_def)
  }
  fix e
  assume e: "e \<in> set (chunksMap p)" "obj_cmp (fst e) mn = 0"
  let ?q = "scm_new\<lparr>shardKey := shardKey p, chunksMap := om_erase obj_cmp mn (chunksMap p), shardVersion := v,
    collVersion := (if version_gt v (collVersion p) then v else collVersion p)\<rparr>"
  note er = obj_map.erase_range [OF ok(1) assms(2) find(2) [OF e]]
  have one: "length (chunksMap p) = 1 \<longleftrightarrow> chunksMap p = [e]" using e(1) by (auto simp: length_Suc_conv)
  have own: "covers obj_cmp m point = (owns p point \<and> \<not> contains mn mx point)"
    if "set m = set (chunksMap p) - {e}" "obj_cmp (snd e) mx = 0" "ord_ok_obj b point" for m point
    using obj_map.covers_remove [OF ok(1) e(1) that(3,1)] obj_map.range_cong [OF ranges_ok_mem [OF ok(1) e(1)] assms(2,3) e(2) that(2,3)]
    by (simp add: contains_in_range)
  have "chunks_ok b ?q" using er ok(2) by (auto simp: chunks_ok_def bounds_ok_def)
  then obtain rs where fill: "fillRanges ?q = Inr (?q\<lparr>rangesMap := rs\<rparr>)" "scm_ok b (?q\<lparr>rangesMap := rs\<rparr>)"
    by (rule fillRanges_ok) (simp_all add: scm_new_def)
  have zero: "\<not> version_isSet v \<Longrightarrow> combined v = 0" by (simp add: version_isSet_def word_gt_0)
  show "if obj_cmp (snd e) mx \<noteq> 0 then cloneMinus p mn mx v = Inl (UserAssertion 13587)
       else if chunksMap p = [e] \<and> version_isSet v then cloneMinus p mn mx v = Inl (UserAssertion 13590)
       else if chunksMap p \<noteq> [e] \<and> version_le v (shardVersion p) then cloneMinus p mn mx v = Inl (UserAssertion 13585)
       else \<exists>q. cloneMinus p mn mx v = Inr q \<and> scm_ok b q \<and> set (chunksMap q) = set (chunksMap p) - {e} \<and>
         (\<forall>point. ord_ok_obj b point \<longrightarrow> owns q point = (owns p point \<and> \<not> contains mn mx point)) \<and>
         combined (shardVersion q) = combined v \<and> shardKey q = shardKey p"
  proof (cases "obj_cmp (snd e) mx = 0")
    case False
    with find(2) [OF e] show ?thesis by (simp add: cloneMinus_def assertChunkExists_def)
  next
    case True
    with find(2) [OF e] have exists: "assertChunkExists p mn mx = Inr ()" by (simp add: assertChunkExists_def)
    show ?thesis
    proof (cases "chunksMap p = [e]")
      case single: True
      show ?thesis
      proof (cases "version_isSet v")
        case False
        have "scm_ok b (scm_new\<lparr>shardKey := shardKey p, shardVersion := version_of_long 0 no_oid, collVersion := collVersion p\<rparr>)"
          using ok(2) by (simp add: scm_ok_def chunks_ok_def scm_new_def)
        with False single True exists own [of "[]"] zero show ?thesis by (simp add: cloneMinus_def one scm_new_def)
      qed (simp add: cloneMinus_def exists one single True)
    next
      case many: False
      show ?thesis
      proof (cases "version_le v (shardVersion p)")
        case False
        with many fill(1) have "cloneMinus p mn mx v = Inr (?q\<lparr>rangesMap := rs\<rparr>)"
          by (simp only: cloneMinus_def exists one bind_result.simps if_False)
        with many False True fill(2) er own [OF _ True, of "chunksMap ?q"] show ?thesis by simp
      qed (use many one in \<open>simp add: cloneMinus_def exists True\<close>)
    qed
  qed
qed

theorem cloneMinus_exact_witness:
  "\<exists>q. cloneMinus half_manager [(str ''a'', MinKeyV)] [(str ''a'', BoolV True)] version_zero = Inr q \<and> set (chunksMap q) = {}"
proof -
  let ?e = "([(str ''a'', MinKeyV)], [(str ''a'', BoolV True)])"
  have "?e \<in> set (chunksMap half_manager)" "chunksMap half_manager = [?e]" "\<not> version_isSet version_zero"
    "obj_cmp (fst ?e) [(str ''a'', MinKeyV)] = 0" "obj_cmp (snd ?e) [(str ''a'', BoolV True)] = 0"
    by (simp_all add: half_manager_def version_isSet_def combined_def version_zero_def elem_woCompare_def lex_def Let_def strcmp_def)
  with cloneMinus_exact [OF half_manager_ok, of "[(str ''a'', MinKeyV)]" "[(str ''a'', BoolV True)]" version_zero]
  show ?thesis by auto
qed

text \<open>
  C23: a split at one key inside the chunk replaces the chunk by its two halves: the new manager is well
  formed and owns the same points.
\<close>

theorem cloneSplit_one:
  assumes "scm_ok b p" "\<not> version_le v (shardVersion p)" "e \<in> set (chunksMap p)" "obj_cmp (fst e) mn = 0" "obj_cmp (snd e) mx = 0"
    "ord_ok_obj b mn" "ord_ok_obj b mx" "ord_ok_obj b k" "bounds_ok p (k, mx)" "obj_cmp mn k < 0" "obj_cmp k mx < 0"
  shows "\<exists>q. cloneSplit p mn mx [k] v = Inr q \<and> scm_ok b q \<and>
    set (chunksMap q) = insert (k, mx) (insert (fst e, k) (set (chunksMap p) - {e})) \<and>
    (\<forall>point. ord_ok_obj b point \<longrightarrow> owns q point = owns p point) \<and> shardVersion q = incMinor v \<and> shardKey q = shardKey p"
proof -
  let ?m = "om_insert obj_cmp k mx (om_put obj_cmp mn k (chunksMap p))"
  let ?q = "scm_new\<lparr>shardKey := shardKey p, chunksMap := ?m, shardVersion := incMinor v,
    collVersion := (if version_gt v (collVersion p) then v else collVersion p)\<rparr>"
  have ok: "ranges_ok (ord_ok_obj b) obj_cmp (chunksMap p)" "chunks_ok b p" using assms(1) by (simp_all add: scm_ok_def chunks_ok_def)
  note sp = split_chunk [OF ok(1) assms(3-8,10,11)]
  have exists: "assertChunkExists p mn mx = Inr ()"
    using find_chunk(2) [OF ok(2) assms(6,3,4)] assms(5) by (simp add: assertChunkExists_def)
  have cont: "contains mn mx k" using assms(6,8,10,11) obj_map.ge_iff [of b k mn] by (simp add: contains_def)
  have "chunks_ok b ?q" using sp ok(2) assms(3,9) by (auto simp: chunks_ok_def bounds_ok_def)
  then obtain rs where fill: "fillRanges ?q = Inr (?q\<lparr>rangesMap := rs\<rparr>)" "scm_ok b (?q\<lparr>rangesMap := rs\<rparr>)"
    by (rule fillRanges_ok) (simp_all add: scm_new_def)
  have "cloneSplit p mn mx [k] v = Inr (?q\<lparr>rangesMap := rs\<rparr>)"
    using assms(2) exists cont fill(1) by (simp add: cloneSplit_def)
  moreover have "covers obj_cmp ?m point = owns p point" if "ord_ok_obj b point" for point
  proof -
    have re: "range_ok (ord_ok_obj b) obj_cmp e" using ok(1) assms(3) by (rule ranges_ok_mem)
    have halves: "range_ok (ord_ok_obj b) obj_cmp (fst e, k)" "range_ok (ord_ok_obj b) obj_cmp (k, mx)"
      using sp ranges_ok_mem by fastforce+
    have "in_range obj_cmp (fst e, mx) point \<longleftrightarrow> in_range obj_cmp (fst e, k) point \<or> in_range obj_cmp (k, mx) point"
      using halves obj_map.refl [OF assms(8)] that by (rule obj_map.join_ranges(2))
    moreover have "in_range obj_cmp (fst e, mx) point \<longleftrightarrow> in_range obj_cmp e point"
      using re assms(5,7) that obj_map.refl [of b "fst e"] by (intro obj_map.range_cong [of b]) (auto simp: range_ok_def)
    ultimately show ?thesis using sp assms(3) unfolding covers_def by (auto simp: ball_Un)
  qed
  ultimately show ?thesis using fill(2) sp by (intro exI [of _ "?q\<lparr>rangesMap := rs\<rparr>"]) simp
qed

theorem cloneSplit_one_witness:
  "\<exists>q. cloneSplit half_manager [(str ''a'', MinKeyV)] [(str ''a'', BoolV True)] [[(str ''a'', NullV)]] (version_make 1 0 no_oid) = Inr q \<and>
     scm_ok True q"
  using cloneSplit_one [OF half_manager_ok, of "version_make 1 0 no_oid" "([(str ''a'', MinKeyV)], [(str ''a'', BoolV True)])"
      "[(str ''a'', MinKeyV)]" "[(str ''a'', BoolV True)]" "[(str ''a'', NullV)]"]
  by (auto simp: half_manager_def version_le_def combined_def version_make_def version_zero_def bounds_ok_def
      elem_woCompare_def lex_def Let_def strcmp_def)

text \<open>
  A split at two keys leaves the lower bound of the chunk mapped to the last of them and every key to
  the upper bound of the chunk: the chunks overlap, and the first half of the split cannot be
  subtracted.  A split at the lower bound itself, which the guard lets pass, loses the chunk.
\<close>

lemma two_splits_overlap:
  "\<exists>q. cloneSplit half_manager [(str ''a'', MinKeyV)] [(str ''a'', BoolV True)]
       [[(str ''a'', NullV)], [(str ''a'', StringV [])]] (version_make 1 0 no_oid) = Inr q \<and>
     chunksMap q = [([(str ''a'', MinKeyV)], [(str ''a'', StringV [])]), ([(str ''a'', NullV)], [(str ''a'', BoolV True)]),
       ([(str ''a'', StringV [])], [(str ''a'', BoolV True)])] \<and>
     cloneMinus q [(str ''a'', MinKeyV)] [(str ''a'', NullV)] (version_make 2 0 no_oid) = Inl (UserAssertion 13587)"
  by (simp add: half_manager_def cloneSplit_def cloneMinus_def assertChunkExists_def contains_def version_le_def combined_def
      version_make_def version_zero_def elem_woCompare_def lex_def Let_def strcmp_def fillRanges_def scm_new_def)

lemma split_at_min_loses_chunk:
  "\<exists>q. cloneSplit half_manager [(str ''a'', MinKeyV)] [(str ''a'', BoolV True)] [[(str ''a'', MinKeyV)]] (version_make 1 0 no_oid) = Inr q \<and>
     \<not> owns q [(str ''a'', NullV)] \<and> owns half_manager [(str ''a'', NullV)]"
  by (simp add: half_manager_def cloneSplit_def assertChunkExists_def contains_def version_le_def combined_def
      version_make_def version_zero_def elem_woCompare_def lex_def Let_def strcmp_def fillRanges_def scm_new_def in_range_def)

text \<open>
  A load that fails is not reported: the last \<open>uassert\<close> of \<open>_init\<close> tests the cursor, not the result, and
  the manager it leaves owns nothing.
\<close>

lemma failed_load_accepted:
  "\<exists>p. scm_init (str ''s'') None [(str ''key'', ObjectV [(str ''a'', IntV 1)]), (str ''dropped'', BoolV False)]
       [[(str ''min'', ObjectV []), (str ''max'', ObjectV []), (str ''shard'', StringV (str ''s''))]] = Inr p \<and>
     calculateConfigDiff (SCMConfigDiffTracker (str ''s''))
       [[(str ''min'', ObjectV []), (str ''max'', ObjectV []), (str ''shard'', StringV (str ''s''))]]
       \<lparr>currMap = [], maxVersion = version_of_long 0 no_oid, maxShardVersions = [(str ''s'', version_zero)]\<rparr> =
       Inr (\<lparr>currMap = [], maxVersion = version_of_long 0 no_oid, maxShardVersions = [(str ''s'', version_zero)]\<rparr>, -1) \<and>
     rangesMap p = []"
  by (simp add: scm_init_def val_def str_def fillCollectionKey_def calculateConfigDiff_def version_fromObj_def Let_def hasField_def
      version_fromBSON.simps version_isSet_def scm_new_def)

end
