(* ===== verification/Balancer.thy ===== *)
theory Balancer
  imports ConfigDiff
begin

text \<open>
  The balancer's policy (\<open>s/balancer_policy.cpp\<close>): what it knows of the shards, their chunks and the
  ranges of the key space that are tagged, and which chunk it suggests to move where.
\<close>

section \<open>Shards and tag ranges\<close>

record shard_info =
  maxSize :: int
  currSize :: int
  draining :: bool
  opsQueued :: bool
  shardTags :: "bstr set"
  mongoVersion :: bstr

definition ShardInfo :: "int \<Rightarrow> int \<Rightarrow> bool \<Rightarrow> bool \<Rightarrow> bstr set \<Rightarrow> bstr \<Rightarrow> shard_info" where
  "ShardInfo mxSize crSize drain ops tags version =
     \<lparr> maxSize = mxSize, currSize = crSize, draining = drain, opsQueued = ops, shardTags = tags, mongoVersion = version \<rparr>"

definition addTag :: "bstr \<Rightarrow> shard_info \<Rightarrow> shard_info" where
  "addTag tag s = s\<lparr>shardTags := insert tag (shardTags s)\<rparr>"

definition isSizeMaxed :: "shard_info \<Rightarrow> bool" where
  "isSizeMaxed s \<longleftrightarrow> (if maxSize s = 0 \<or> currSize s = 0 then False else currSize s \<ge> maxSize s)"

definition hasTag :: "shard_info \<Rightarrow> bstr \<Rightarrow> bool" where
  "hasTag s tag \<longleftrightarrow> (if tag = [] then True else tag \<in> shardTags s)"

record tag_range =
  tr_min :: bson
  tr_max :: bson
  tr_tag :: bstr

text \<open>Maps and sets with the names of shards as keys are in the order of \<open>std::string\<close>.\<close>

record distribution =
  shardInfo :: "(bstr, shard_info) omap"
  shardChunks :: "(bstr, bson list) omap"
  tagRanges :: "(bson, tag_range) omap"
  allTags :: "bstr set"

definition DistributionStatus :: "(bstr, shard_info) omap \<Rightarrow> (bstr, bson list) omap \<Rightarrow> distribution" where
  "DistributionStatus info chunks = \<lparr> shardInfo = info, shardChunks = chunks, tagRanges = [], allTags = {} \<rparr>"

definition shards :: "distribution \<Rightarrow> bstr list" where
  "shards d = map fst (shardInfo d)"

definition getShardInfo :: "distribution \<Rightarrow> bstr \<Rightarrow> shard_info result" where
  "getShardInfo d shard = (case om_find lexcmp shard (shardInfo d) of None \<Rightarrow> Inl VerifyFailed | Some (_, s) \<Rightarrow> Inr s)"

definition getChunks :: "distribution \<Rightarrow> bstr \<Rightarrow> bson list result" where
  "getChunks d shard = (case om_find lexcmp shard (shardChunks d) of None \<Rightarrow> Inl VerifyFailed | Some (_, c) \<Rightarrow> Inr c)"

text \<open>Counts are \<open>unsigned\<close>.\<close>

definition totalChunks :: "distribution \<Rightarrow> u32" where
  "totalChunks d = foldl (\<lambda>tot i. tot + of_nat (length (snd i))) 0 (shardChunks d)"

definition numberOfChunksInShard :: "distribution \<Rightarrow> bstr \<Rightarrow> u32" where
  "numberOfChunksInShard d shard =
     (case om_find lexcmp shard (shardChunks d) of None \<Rightarrow> 0 | Some (_, c) \<Rightarrow> of_nat (length c))"

text \<open>The ranges are keyed by their upper bound: the first one above a point is the one that may hold it.\<close>

definition getTagForChunk :: "distribution \<Rightarrow> bson \<Rightarrow> bstr result" where
  "getTagForChunk d chunk =
     (if tagRanges d = [] then Inr []
      else bind_result (elem_Obj (val chunk ''min'')) (\<lambda>mn.
        let i = upper_bound obj_cmp mn (tagRanges d)
        in if i = length (tagRanges d) then Inr []
           else let rng = snd (tagRanges d ! i)
                in if obj_cmp mn (tr_min rng) < 0 then Inr [] else Inr (tr_tag rng)))"

fun count_tag :: "distribution \<Rightarrow> bstr \<Rightarrow> bson list \<Rightarrow> u32 \<Rightarrow> u32 result" where
  "count_tag d tag [] tot = Inr tot"
| "count_tag d tag (c # cs) tot =
     bind_result (getTagForChunk d c) (\<lambda>t. count_tag d tag cs (if tag = t then tot + 1 else tot))"

definition numberOfChunksInShardWithTag :: "distribution \<Rightarrow> bstr \<Rightarrow> bstr \<Rightarrow> u32 result" where
  "numberOfChunksInShardWithTag d shard tag =
     (case om_find lexcmp shard (shardChunks d) of None \<Rightarrow> Inr 0 | Some (_, c) \<Rightarrow> count_tag d tag c 0)"

fun bestReceiver_loop :: "distribution \<Rightarrow> bstr \<Rightarrow> (bstr, shard_info) omap \<Rightarrow> bstr \<Rightarrow> u32 \<Rightarrow> bstr" where
  "bestReceiver_loop d tag [] best minChunks = best"
| "bestReceiver_loop d tag ((shard, s) # is) best minChunks =
     (if isSizeMaxed s then bestReceiver_loop d tag is best minChunks
      else if draining s then bestReceiver_loop d tag is best minChunks
      else if opsQueued s then bestReceiver_loop d tag is best minChunks
      else if \<not> hasTag s tag then bestReceiver_loop d tag is best minChunks
      else let myChunks = numberOfChunksInShard d shard
           in if myChunks \<ge> minChunks then bestReceiver_loop d tag is best minChunks
              else bestReceiver_loop d tag is shard myChunks)"

definition getBestReceieverShard :: "distribution \<Rightarrow> bstr \<Rightarrow> bstr" where
  "getBestReceieverShard d tag = bestReceiver_loop d tag (shardInfo d) [] (- 1)"

fun mostOverloaded_loop :: "distribution \<Rightarrow> bstr \<Rightarrow> (bstr, shard_info) omap \<Rightarrow> bstr \<Rightarrow> u32 \<Rightarrow> bstr result" where
  "mostOverloaded_loop d tag [] worst maxChunks = Inr worst"
| "mostOverloaded_loop d tag ((shard, s) # is) worst maxChunks =
     (if opsQueued s then mostOverloaded_loop d tag is worst maxChunks
      else bind_result (numberOfChunksInShardWithTag d shard tag) (\<lambda>myChunks.
        if myChunks \<le> maxChunks then mostOverloaded_loop d tag is worst maxChunks
        else mostOverloaded_loop d tag is shard myChunks))"

definition getMostOverloadedShard :: "distribution \<Rightarrow> bstr \<Rightarrow> bstr result" where
  "getMostOverloadedShard d tag = mostOverloaded_loop d tag (shardInfo d) [] 0"

text \<open>\<open>addTagRange\<close>: the loop over the ranges there are, then the new distribution and what is returned.\<close>

fun rangesAllow :: "tag_range \<Rightarrow> (bson, tag_range) omap \<Rightarrow> bool result" where
  "rangesAllow rng [] = Inr True"
| "rangesAllow rng ((_, tocheck) # is) =
     bind_result (bson_equal (tr_min rng) (tr_min tocheck)) (\<lambda>same.
       if same then Inr False
       else if obj_cmp (tr_min rng) (tr_min tocheck) < 0
       then if obj_cmp (tr_max rng) (tr_min tocheck) > 0 then Inr False else rangesAllow rng is
       else if obj_cmp (tr_max tocheck) (tr_min rng) > 0 then Inr False else rangesAllow rng is)"

definition addTagRange :: "tag_range \<Rightarrow> distribution \<Rightarrow> (distribution \<times> bool) result" where
  "addTagRange rng d =
     bind_result (rangesAllow rng (tagRanges d)) (\<lambda>ok.
       if ok then Inr (d\<lparr>tagRanges := om_put obj_cmp (tr_max rng) rng (tagRanges d),
                         allTags := insert (tr_tag rng) (allTags d)\<rparr>, True)
       else Inr (d, False))"

section \<open>The policy\<close>

record migrate_info =
  mi_ns :: bstr
  mi_to :: bstr
  mi_from :: bstr
  mi_chunk :: "bson \<times> bson"

definition MigrateInfo :: "bstr \<Rightarrow> bstr \<Rightarrow> bstr \<Rightarrow> bson \<Rightarrow> migrate_info result" where
  "MigrateInfo ns to from chunk =
     bind_result (elem_Obj (val chunk ''min'')) (\<lambda>mn.
     bind_result (elem_Obj (val chunk ''max'')) (\<lambda>mx.
       Inr \<lparr> mi_ns = ns, mi_to = to, mi_from = from, mi_chunk = (mn, mx) \<rparr>))"

definition isJumbo :: "bson \<Rightarrow> bool" where
  "isJumbo chunk = (case val chunk ''jumbo'' of Some v \<Rightarrow> trueValue v | None \<Rightarrow> False)"

text \<open>First the chunks of draining shards; \<open>None\<close> where the loop goes on.\<close>

fun drain_chunks :: "distribution \<Rightarrow> bstr \<Rightarrow> bstr \<Rightarrow> bson list \<Rightarrow> migrate_info option result" where
  "drain_chunks d ns shard [] = Inr None"
| "drain_chunks d ns shard (c # cs) =
     (if isJumbo c then drain_chunks d ns shard cs
      else bind_result (getTagForChunk d c) (\<lambda>tag.
        let to = getBestReceieverShard d tag
        in if to = [] then drain_chunks d ns shard cs
           else bind_result (MigrateInfo ns to shard c) (\<lambda>mi. Inr (Some mi))))"

fun drain_shards :: "distribution \<Rightarrow> bstr \<Rightarrow> bstr list \<Rightarrow> migrate_info option result" where
  "drain_shards d ns [] = Inr None"
| "drain_shards d ns (shard # ss) =
     bind_result (getShardInfo d shard) (\<lambda>info.
       if \<not> draining info then drain_shards d ns ss
       else if numberOfChunksInShard d shard = 0 then drain_shards d ns ss
       else if opsQueued info then drain_shards d ns ss
       else bind_result (getChunks d shard) (\<lambda>chunks.
            bind_result (drain_chunks d ns shard chunks) (\<lambda>r.
              case r of Some mi \<Rightarrow> Inr (Some mi) | None \<Rightarrow> drain_shards d ns ss)))"

text \<open>Then the chunks on a shard without their tag.\<close>

fun retag_chunks :: "distribution \<Rightarrow> bstr \<Rightarrow> bstr \<Rightarrow> shard_info \<Rightarrow> bson list \<Rightarrow> migrate_info option result" where
  "retag_chunks d ns shard info [] = Inr None"
| "retag_chunks d ns shard info (c # cs) =
     bind_result (getTagForChunk d c) (\<lambda>tag.
       if hasTag info tag then retag_chunks d ns shard info cs
       else if isJumbo c then retag_chunks d ns shard info cs
       else let to = getBestReceieverShard d tag
            in if to = [] then retag_chunks d ns shard info cs
               else bind_result (guardE (to \<noteq> shard) VerifyFailed) (\<lambda>_.
                    bind_result (MigrateInfo ns to shard c) (\<lambda>mi. Inr (Some mi))))"

fun retag_shards :: "distribution \<Rightarrow> bstr \<Rightarrow> bstr list \<Rightarrow> migrate_info option result" where
  "retag_shards d ns [] = Inr None"
| "retag_shards d ns (shard # ss) =
     bind_result (getShardInfo d shard) (\<lambda>info.
     bind_result (getChunks d shard) (\<lambda>chunks.
     bind_result (retag_chunks d ns shard info chunks) (\<lambda>r.
       case r of Some mi \<Rightarrow> Inr (Some mi) | None \<Rightarrow> retag_shards d ns ss)))"

text \<open>Then the imbalance of each tag; a chunk of the overloaded shard, or the number of jumbo ones.\<close>

fun pick_chunk :: "distribution \<Rightarrow> bstr \<Rightarrow> bson list \<Rightarrow> u32 \<Rightarrow> (bson + u32) result" where
  "pick_chunk d tag [] numJumboChunks = Inr (Inr numJumboChunks)"
| "pick_chunk d tag (c # cs) numJumboChunks =
     bind_result (getTagForChunk d c) (\<lambda>t.
       if t \<noteq> tag then pick_chunk d tag cs numJumboChunks
       else if isJumbo c then pick_chunk d tag cs (numJumboChunks + 1)
       else Inr (Inl c))"

fun balance_tags :: "distribution \<Rightarrow> bstr \<Rightarrow> int \<Rightarrow> bstr list \<Rightarrow> migrate_info option result" where
  "balance_tags d ns threshold [] = Inr None"
| "balance_tags d ns threshold (tag # tags) =
     bind_result (getMostOverloadedShard d tag) (\<lambda>from.
       if from = [] then balance_tags d ns threshold tags
       else bind_result (numberOfChunksInShardWithTag d from tag) (\<lambda>mx.
         if mx = 0 then balance_tags d ns threshold tags
         else let to = getBestReceieverShard d tag
              in if to = [] then Inr None
                 else bind_result (numberOfChunksInShardWithTag d to tag) (\<lambda>mn.
                   if sint (mx - mn) < threshold then balance_tags d ns threshold tags
                   else bind_result (getChunks d from) (\<lambda>chunks.
                        bind_result (pick_chunk d tag chunks 0) (\<lambda>r.
                          case r of
                            Inl c \<Rightarrow> bind_result (MigrateInfo ns to from c) (\<lambda>mi. Inr (Some mi))
                          | Inr numJumboChunks \<Rightarrow>
                              if numJumboChunks \<noteq> 0 then balance_tags d ns threshold tags else Inl VerifyFailed)))))"

definition balance_threshold :: "distribution \<Rightarrow> int \<Rightarrow> int" where
  "balance_threshold d balancedLastTime =
     (if balancedLastTime \<noteq> 0 \<or> totalChunks d < 20 then 2 else if totalChunks d < 80 then 4 else 8)"

text \<open>\<open>shuffled\<close> are the tags and the empty tag in the order that \<open>random_shuffle\<close> gives them.\<close>

definition balance :: "bstr \<Rightarrow> distribution \<Rightarrow> int \<Rightarrow> bstr list \<Rightarrow> migrate_info option result" where
  "balance ns d balancedLastTime shuffled =
     bind_result (drain_shards d ns (shards d)) (\<lambda>r.
       case r of
         Some mi \<Rightarrow> Inr (Some mi)
       | None \<Rightarrow>
           bind_result (if allTags d \<noteq> {} then retag_shards d ns (shards d) else Inr None) (\<lambda>r.
             case r of
               Some mi \<Rightarrow> Inr (Some mi)
             | None \<Rightarrow> balance_tags d ns (balance_threshold d balancedLastTime) shuffled))"

section \<open>Tags\<close>

definition tr_bounds :: "tag_range \<Rightarrow> bson \<times> bson" where
  "tr_bounds r = (tr_min r, tr_max r)"

text \<open>The tag ranges are disjoint, keyed by their upper bounds, and have bounds with the same fields.\<close>

definition tags_ok :: "bool \<Rightarrow> nat \<Rightarrow> distribution \<Rightarrow> bool" where
  "tags_ok b n d \<longleftrightarrow> ranges_ok (ord_ok_obj b) obj_cmp (map (tr_bounds \<circ> snd) (tagRanges d)) \<and>
     (\<forall>e \<in> set (tagRanges d). fst e = tr_max (snd e) \<and> length (tr_min (snd e)) = n)"

lemma rangesAllow_exact:
  assumes "range_ok (ord_ok_obj b) obj_cmp (tr_bounds rng)"
    "\<forall>e \<in> set m. range_ok (ord_ok_obj b) obj_cmp (tr_bounds (snd e)) \<and> length (tr_min rng) = length (tr_min (snd e))"
  shows "rangesAllow rng m = Inr (\<forall>e \<in> set m. \<not> ranges_meet obj_cmp (tr_bounds rng) (tr_bounds (snd e)))"
  using assms(2)
proof (induction m)
  case (Cons e m)
  obtain k t where e: "e = (k, t)" by (cases e)
  let ?a = "tr_min rng" and ?b = "tr_max rng" and ?c = "tr_min t" and ?d = "tr_max t"
  have D: "ord_ok_obj b ?a" "ord_ok_obj b ?b" "ord_ok_obj b ?c" "ord_ok_obj b ?d" "obj_cmp ?a ?b < 0" "obj_cmp ?c ?d < 0"
    and len: "length ?a = length ?c"
    using assms(1) Cons.prems by (auto simp: e range_ok_def tr_bounds_def)
  have meet: "ranges_meet obj_cmp (tr_bounds rng) (tr_bounds t) \<longleftrightarrow>
    (obj_cmp ?a ?c = 0 \<or> (if obj_cmp ?a ?c < 0 then obj_cmp ?b ?c > 0 else obj_cmp ?d ?a > 0))"
  proof -
    consider "obj_cmp ?a ?c < 0" | "obj_cmp ?a ?c = 0" | "obj_cmp ?a ?c > 0" by linarith
    then show ?thesis
    proof cases
      case 1
      then have "obj_cmp ?a ?d < 0" using D obj_map.less_trans [of b ?a ?c ?d] by blast
      with 1 D obj_map.gt_iff [of b ?a ?d] show ?thesis by (auto simp: ranges_meet_def tr_bounds_def)
    next
      case 2
      then have "obj_cmp ?c ?b < 0" "obj_cmp ?a ?d < 0"
        using D obj_map.eq_sym [of b ?a ?c] obj_map.le_less_trans [of b ?c ?a ?b] obj_map.le_less_trans [of b ?a ?c ?d] by simp_all
      with 2 D obj_map.gt_iff [of b ?a ?d] obj_map.gt_iff [of b ?c ?b] show ?thesis by (auto simp: ranges_meet_def tr_bounds_def)
    next
      case 3
      then have "obj_cmp ?c ?a < 0" using D obj_map.gt_iff [of b ?c ?a] by simp
      then have "obj_cmp ?c ?b < 0" using D obj_map.less_trans [of b ?c ?a ?b] by blast
      with 3 D obj_map.gt_iff [of b ?c ?b] show ?thesis by (auto simp: ranges_meet_def tr_bounds_def)
    qed
  qed
  have "bson_equal ?a ?c = Inr (obj_cmp ?a ?c = 0)" using len by (rule bson_equal_same_length)
  with Cons meet show ?case by (auto simp: e)
qed simp

lemma addTagRange_exact:
  assumes "tags_ok b n d" "range_ok (ord_ok_obj b) obj_cmp (tr_bounds rng)" "length (tr_min rng) = n"
  defines "free \<equiv> \<forall>e \<in> set (tagRanges d). \<not> ranges_meet obj_cmp (tr_bounds rng) (tr_bounds (snd e))"
  obtains d' where "addTagRange rng d = Inr (d', free)" "tags_ok b n d'"
    "snd ` set (tagRanges d') = (if free then insert rng (snd ` set (tagRanges d)) else snd ` set (tagRanges d))"
proof -
  have ok: "ranges_ok (ord_ok_obj b) obj_cmp (map (tr_bounds \<circ> snd) (tagRanges d))"
    "\<forall>e \<in> set (tagRanges d). fst e = snd (tr_bounds (snd e))" using assms(1) by (auto simp: tags_ok_def tr_bounds_def)
  have allow: "rangesAllow rng (tagRanges d) = Inr free"
    unfolding free_def using assms(1-3) ok(1) by (intro rangesAllow_exact) (auto simp: tags_ok_def ranges_ok_def)
  have bounds: "snd (tr_bounds rng) = tr_max rng" by (simp add: tr_bounds_def)
  show thesis
  proof (cases free)
    case True
    let ?m = "om_put obj_cmp (tr_max rng) rng (tagRanges d)"
    have "ranges_ok (ord_ok_obj b) obj_cmp (map (tr_bounds \<circ> snd) ?m) \<and> set ?m = insert (tr_max rng, rng) (set (tagRanges d))"
      using obj_map.put_by_upper [OF ok assms(2), unfolded bounds] True by (simp add: free_def)
    with assms(1,3) allow True show thesis
      by (intro that [of "d\<lparr>tagRanges := ?m, allTags := insert (tr_tag rng) (allTags d)\<rparr>"]) (auto simp: addTagRange_def tags_ok_def)
  next
    case False
    with assms(1) allow show thesis by (intro that [of d]) (simp_all add: addTagRange_def)
  qed
qed

lemma getTagForChunk_exact:
  assumes "tags_ok b n d" "val chunk ''min'' = Some (ObjectV mn)" "ord_ok_obj b mn"
  obtains t where "getTagForChunk d chunk = Inr t"
    "\<And>r. r \<in> snd ` set (tagRanges d) \<Longrightarrow> in_range obj_cmp (tr_bounds r) mn \<Longrightarrow> t = tr_tag r"
    "(\<And>r. r \<in> snd ` set (tagRanges d) \<Longrightarrow> \<not> in_range obj_cmp (tr_bounds r) mn) \<Longrightarrow> t = []"
proof (cases "tagRanges d = []")
  case True
  then show thesis by (intro that [of "[]"]) (auto simp: getTagForChunk_def)
next
  case False
  let ?i = "upper_bound obj_cmp mn (tagRanges d)"
  have ok: "ranges_ok (ord_ok_obj b) obj_cmp (map (tr_bounds \<circ> snd) (tagRanges d))"
    "\<forall>e \<in> set (tagRanges d). fst e = snd (tr_bounds (snd e))" using assms(1) by (auto simp: tags_ok_def tr_bounds_def)
  from obj_map.lookup_by_upper [OF ok assms(3)] show thesis
  proof
    assume "?i = length (tagRanges d) \<and> \<not> covers obj_cmp (map (tr_bounds \<circ> snd) (tagRanges d)) mn"
    with False assms(2) show thesis by (intro that [of "[]"]) (auto simp: getTagForChunk_def covers_def)
  next
    assume i: "?i < length (tagRanges d) \<and> (\<forall>e \<in> set (tagRanges d). in_range obj_cmp (tr_bounds (snd e)) mn \<longleftrightarrow>
        e = tagRanges d ! ?i \<and> \<not> obj_cmp mn (fst (tr_bounds (snd e))) < 0)"
    let ?r = "snd (tagRanges d ! ?i)"
    have mem: "tagRanges d ! ?i \<in> set (tagRanges d)" using i by simp
    have tag: "getTagForChunk d chunk = Inr (if obj_cmp mn (tr_min ?r) < 0 then [] else tr_tag ?r)"
      using False assms(2) i by (simp add: getTagForChunk_def Let_def)
    have in': "in_range obj_cmp (tr_bounds ?r) mn \<longleftrightarrow> \<not> obj_cmp mn (tr_min ?r) < 0" using i mem by (simp add: tr_bounds_def)
    have in_tag: "(if obj_cmp mn (tr_min ?r) < 0 then [] else tr_tag ?r) = tr_tag r"
      if r: "r \<in> snd ` set (tagRanges d)" "in_range obj_cmp (tr_bounds r) mn" for r
    proof -
      have "r = ?r" using i r by auto
      with r(2) in' show ?thesis by simp
    qed
    have "(if obj_cmp mn (tr_min ?r) < 0 then [] else tr_tag ?r) = []"
      if "\<And>r. r \<in> snd ` set (tagRanges d) \<Longrightarrow> \<not> in_range obj_cmp (tr_bounds r) mn"
      using that [OF imageI [OF mem]] in' by simp
    with tag in_tag show thesis by (rule that)
  qed
qed

section \<open>Receivers and donors\<close>

interpretation name_map: ordered_map "\<lambda>_. True" lexcmp
  by unfold_locales (unfold sgn_lexcmp, rule lexcmp_antisym, rule tri_lexcmp)

definition chunks_of :: "distribution \<Rightarrow> bstr \<Rightarrow> bson list" where
  "chunks_of d shard = (case om_find lexcmp shard (shardChunks d) of None \<Rightarrow> [] | Some (_, c) \<Rightarrow> c)"

definition chunk_tag :: "distribution \<Rightarrow> bson \<Rightarrow> bstr" where
  "chunk_tag d c = (case getTagForChunk d c of Inr t \<Rightarrow> t | Inl _ \<Rightarrow> [])"

definition chunk_doc_ok :: "bson \<Rightarrow> bool" where
  "chunk_doc_ok c \<longleftrightarrow> val c ''min'' = Some (ObjectV (fst (doc_range c))) \<and> val c ''max'' = Some (ObjectV (snd (doc_range c)))"

text \<open>
  What the balancer is given: every shard has a name and a list of chunks, no longer than an \<open>int\<close>
  counts, of documents with bounds.
\<close>

definition dist_ok :: "distribution \<Rightarrow> bool" where
  "dist_ok d \<longleftrightarrow> om_sorted (\<lambda>_. True) lexcmp (shardInfo d) \<and> om_sorted (\<lambda>_. True) lexcmp (shardChunks d) \<and>
     (\<forall>e \<in> set (shardInfo d). fst e \<noteq> [] \<and> om_find lexcmp (fst e) (shardChunks d) \<noteq> None) \<and>
     (\<forall>e \<in> set (shardChunks d). length (snd e) < 2 ^ 31 \<and> (\<forall>c \<in> set (snd e). chunk_doc_ok c))"

definition eligible :: "bstr \<Rightarrow> shard_info \<Rightarrow> bool" where
  "eligible tag s \<longleftrightarrow> \<not> isSizeMaxed s \<and> \<not> draining s \<and> \<not> opsQueued s \<and> hasTag s tag"

definition tagged :: "distribution \<Rightarrow> bstr \<Rightarrow> bstr \<Rightarrow> nat" where
  "tagged d tag shard = length (filter (\<lambda>c. chunk_tag d c = tag) (chunks_of d shard))"

lemma chunks_of_ok:
  assumes "dist_ok d"
  shows "length (chunks_of d s) < 2 ^ 31" "c \<in> set (chunks_of d s) \<Longrightarrow> chunk_doc_ok c"
proof -
  have "length (chunks_of d s) < 2 ^ 31 \<and> (\<forall>c \<in> set (chunks_of d s). chunk_doc_ok c)"
  proof (cases "om_find lexcmp s (shardChunks d)")
    case (Some e)
    then have "e \<in> set (shardChunks d)" using om_find_mem by metis
    with Some assms show ?thesis by (cases e) (fastforce simp: chunks_of_def dist_ok_def)
  qed (simp add: chunks_of_def)
  then show "length (chunks_of d s) < 2 ^ 31" "c \<in> set (chunks_of d s) \<Longrightarrow> chunk_doc_ok c" by blast+
qed

lemma shard_lookup:
  assumes "dist_ok d" "(shard, s) \<in> set (shardInfo d)"
  shows "getShardInfo d shard = Inr s" "getChunks d shard = Inr (chunks_of d shard)" "shard \<noteq> []"
proof -
  have "om_find lexcmp shard (shardInfo d) = Some (shard, s)"
    using assms name_map.find_in_ranges [of "shardInfo d" "(shard, s)" shard] by (simp add: dist_ok_def)
  then show "getShardInfo d shard = Inr s" by (simp add: getShardInfo_def)
  show "shard \<noteq> []" "getChunks d shard = Inr (chunks_of d shard)"
    using assms by (auto simp: dist_ok_def getChunks_def chunks_of_def split: option.splits)
qed

lemma tag_total:
  assumes "chunk_doc_ok c"
  shows "getTagForChunk d c = Inr (chunk_tag d c)"
  using assms by (simp add: getTagForChunk_def chunk_tag_def chunk_doc_ok_def Let_def)

lemma MigrateInfo_ok:
  "chunk_doc_ok c \<Longrightarrow> MigrateInfo ns to from c = Inr \<lparr> mi_ns = ns, mi_to = to, mi_from = from, mi_chunk = doc_range c \<rparr>"
  by (simp add: MigrateInfo_def chunk_doc_ok_def)

lemma unat_of_small: "n < 2 ^ 31 \<Longrightarrow> unat (of_nat n :: u32) = n"
  by (simp add: unat_of_nat take_bit_nat_eq_self)

lemma count_chunks:
  assumes "dist_ok d"
  shows "unat (numberOfChunksInShard d s) = length (chunks_of d s)"
    "numberOfChunksInShardWithTag d s tag = Inr (of_nat (tagged d tag s))" "tagged d tag s < 2 ^ 31"
proof -
  note ok = chunks_of_ok [OF assms, where s = s]
  have "numberOfChunksInShard d s = of_nat (length (chunks_of d s))"
    by (auto simp: numberOfChunksInShard_def chunks_of_def split: option.splits)
  then show "unat (numberOfChunksInShard d s) = length (chunks_of d s)" using unat_of_small [OF ok(1)] by simp
  have count: "count_tag d tag cs t = Inr (t + of_nat (length (filter (\<lambda>c. chunk_tag d c = tag) cs)))"
    if "\<forall>c \<in> set cs. chunk_doc_ok c" for cs t
    using that by (induction cs arbitrary: t) (simp_all add: tag_total algebra_simps)
  then show "numberOfChunksInShardWithTag d s tag = Inr (of_nat (tagged d tag s))"
    using ok(2) by (auto simp: numberOfChunksInShardWithTag_def tagged_def chunks_of_def split: option.splits)
  show "tagged d tag s < 2 ^ 31" unfolding tagged_def using le_less_trans [OF length_filter_le ok(1)] .
qed

lemma bestReceiver_loop_spec:
  assumes "dist_ok d" "bestReceiver_loop d tag is best mc = r"
  shows "r = best \<and> (\<forall>e \<in> set is. eligible tag (snd e) \<longrightarrow> unat mc \<le> length (chunks_of d (fst e))) \<or>
    (\<exists>s. (r, s) \<in> set is \<and> eligible tag s \<and> length (chunks_of d r) < unat mc \<and>
      (\<forall>e \<in> set is. eligible tag (snd e) \<longrightarrow> length (chunks_of d r) \<le> length (chunks_of d (fst e))))"
  using assms(2)
proof (induction "is" arbitrary: best mc)
  case (Cons e "is")
  obtain x s where e: "e = (x, s)" by (cases e)
  note n = count_chunks(1) [OF assms(1), of x]
  show ?case
  proof (cases "eligible tag s \<and> length (chunks_of d x) < unat mc")
    case True
    then have "bestReceiver_loop d tag is x (numberOfChunksInShard d x) = r"
      using Cons.prems n by (simp add: e eligible_def word_le_nat_alt)
    from Cons.IH [OF this] True n show ?thesis by (auto simp: e)
  next
    case False
    then have "bestReceiver_loop d tag is best mc = r"
      using Cons.prems n by (auto simp: e eligible_def word_le_nat_alt Let_def split: if_splits)
    from Cons.IH [OF this] False show ?thesis by (auto simp: e)
  qed
qed simp

text \<open>The best receiver is an eligible shard with the fewest chunks; without one its name is empty.\<close>

lemma receiver_spec:
  assumes "dist_ok d"
  shows "getBestReceieverShard d tag = [] \<longleftrightarrow> \<not> (\<exists>e \<in> set (shardInfo d). eligible tag (snd e))"
    "getBestReceieverShard d tag \<noteq> [] \<Longrightarrow>
       \<exists>s. (getBestReceieverShard d tag, s) \<in> set (shardInfo d) \<and> eligible tag s \<and>
         (\<forall>e \<in> set (shardInfo d). eligible tag (snd e) \<longrightarrow>
            length (chunks_of d (getBestReceieverShard d tag)) \<le> length (chunks_of d (fst e)))"
proof -
  have big: "unat (- 1 :: u32) = 2 ^ 32 - 1" by (simp add: unsigned_minus_1_eq_mask mask_eq_exp_minus_1)
  have small: "length (chunks_of d x) < unat (- 1 :: u32)" for x
    using chunks_of_ok(1) [OF assms, of x] unfolding big by simp
  have "getBestReceieverShard d tag = [] \<and> (\<forall>e \<in> set (shardInfo d). \<not> eligible tag (snd e)) \<or>
    (\<exists>s. (getBestReceieverShard d tag, s) \<in> set (shardInfo d) \<and> eligible tag s \<and>
      (\<forall>e \<in> set (shardInfo d). eligible tag (snd e) \<longrightarrow> length (chunks_of d (getBestReceieverShard d tag)) \<le> length (chunks_of d (fst e))))"
    using bestReceiver_loop_spec [OF assms, of tag "shardInfo d" "[]" "- 1" "getBestReceieverShard d tag"] small
    unfolding getBestReceieverShard_def by (meson linorder_not_le)
  moreover have "x \<noteq> []" if "(x, s) \<in> set (shardInfo d)" for x s using shard_lookup(3) [OF assms that] .
  ultimately show "getBestReceieverShard d tag = [] \<longleftrightarrow> \<not> (\<exists>e \<in> set (shardInfo d). eligible tag (snd e))"
    "getBestReceieverShard d tag \<noteq> [] \<Longrightarrow>
       \<exists>s. (getBestReceieverShard d tag, s) \<in> set (shardInfo d) \<and> eligible tag s \<and>
         (\<forall>e \<in> set (shardInfo d). eligible tag (snd e) \<longrightarrow>
            length (chunks_of d (getBestReceieverShard d tag)) \<le> length (chunks_of d (fst e)))"
    by fastforce+
qed

lemma mostOverloaded_loop_spec:
  assumes "dist_ok d"
  shows "\<exists>r. mostOverloaded_loop d tag is worst mc = Inr r \<and>
    (r = worst \<and> (\<forall>e \<in> set is. \<not> opsQueued (snd e) \<longrightarrow> tagged d tag (fst e) \<le> unat mc) \<or>
     (\<exists>s. (r, s) \<in> set is \<and> \<not> opsQueued s \<and> unat mc < tagged d tag r \<and>
       (\<forall>e \<in> set is. \<not> opsQueued (snd e) \<longrightarrow> tagged d tag (fst e) \<le> tagged d tag r)))"
proof (induction "is" arbitrary: worst mc)
  case (Cons e "is")
  obtain x s where e: "e = (x, s)" by (cases e)
  note n = count_chunks(2,3) [OF assms, where s = x and tag = tag]
  have u: "unat (of_nat (tagged d tag x) :: u32) = tagged d tag x" using n(2) by (rule unat_of_small)
  show ?case
  proof (cases "\<not> opsQueued s \<and> unat mc < tagged d tag x")
    case True
    then have "mostOverloaded_loop d tag (e # is) worst mc = mostOverloaded_loop d tag is x (of_nat (tagged d tag x))"
      using n(1) u by (simp add: e word_le_nat_alt)
    with Cons.IH [of x "of_nat (tagged d tag x)"] True u show ?thesis by (auto simp: e)
  next
    case False
    then have "mostOverloaded_loop d tag (e # is) worst mc = mostOverloaded_loop d tag is worst mc"
      using n(1) u by (auto simp: e word_le_nat_alt)
    with Cons.IH [of worst mc] False show ?thesis by (auto simp: e)
  qed
qed simp

lemma donor_spec:
  assumes "dist_ok d"
  obtains r where "getMostOverloadedShard d tag = Inr r"
    "r \<noteq> [] \<Longrightarrow> \<exists>s. (r, s) \<in> set (shardInfo d) \<and> \<not> opsQueued s \<and> 0 < tagged d tag r \<and>
       (\<forall>e \<in> set (shardInfo d). \<not> opsQueued (snd e) \<longrightarrow> tagged d tag (fst e) \<le> tagged d tag r)"
  using mostOverloaded_loop_spec [OF assms, of tag "shardInfo d" "[]" 0] unfolding getMostOverloadedShard_def by auto


section \<open>Moves\<close>

text \<open>
  What a suggested move satisfies: the chunk is on the donor and not jumbo, the receiver is another shard that
  may take it and has the fewest chunks of those, and there is a reason to move.
\<close>

definition move_ok :: "distribution \<Rightarrow> migrate_info \<Rightarrow> bool" where
  "move_ok d mi \<longleftrightarrow> (\<exists>c si sto. (mi_from mi, si) \<in> set (shardInfo d) \<and> (mi_to mi, sto) \<in> set (shardInfo d) \<and> mi_to mi \<noteq> mi_from mi \<and>
     c \<in> set (chunks_of d (mi_from mi)) \<and> mi_chunk mi = doc_range c \<and> \<not> isJumbo c \<and> eligible (chunk_tag d c) sto \<and>
     (\<forall>e \<in> set (shardInfo d). eligible (chunk_tag d c) (snd e) \<longrightarrow> length (chunks_of d (mi_to mi)) \<le> length (chunks_of d (fst e))) \<and>
     (draining si \<and> \<not> opsQueued si \<or> \<not> hasTag si (chunk_tag d c) \<or>
      \<not> opsQueued si \<and> tagged d (chunk_tag d c) (mi_to mi) + 2 \<le> tagged d (chunk_tag d c) (mi_from mi)))"

lemma moved:
  assumes "dist_ok d" "(shard, si) \<in> set (shardInfo d)" "c \<in> set (chunks_of d shard)" "\<not> isJumbo c"
    and to: "to = getBestReceieverShard d (chunk_tag d c)" "to \<noteq> []" "to \<noteq> shard"
    and "draining si \<and> \<not> opsQueued si \<or> \<not> hasTag si (chunk_tag d c) \<or>
      \<not> opsQueued si \<and> tagged d (chunk_tag d c) to + 2 \<le> tagged d (chunk_tag d c) shard"
  obtains mi where "MigrateInfo ns to shard c = Inr mi" "move_ok d mi"
proof
  show "MigrateInfo ns to shard c = Inr \<lparr> mi_ns = ns, mi_to = to, mi_from = shard, mi_chunk = doc_range c \<rparr>"
    using chunks_of_ok(2) [OF assms(1,3)] by (rule MigrateInfo_ok)
  from receiver_spec(2) [OF assms(1), of "chunk_tag d c"] to obtain sto where "(to, sto) \<in> set (shardInfo d)" "eligible (chunk_tag d c) sto"
    "\<forall>e \<in> set (shardInfo d). eligible (chunk_tag d c) (snd e) \<longrightarrow> length (chunks_of d to) \<le> length (chunks_of d (fst e))" by auto
  with assms show "move_ok d \<lparr> mi_ns = ns, mi_to = to, mi_from = shard, mi_chunk = doc_range c \<rparr>"
    unfolding move_ok_def by auto
qed

lemma drain_chunks_spec:
  assumes "dist_ok d" "(shard, si) \<in> set (shardInfo d)" "draining si" "\<not> opsQueued si" "set cs \<subseteq> set (chunks_of d shard)"
  shows "\<exists>r. drain_chunks d ns shard cs = Inr r \<and> (case r of Some mi \<Rightarrow> move_ok d mi |
    None \<Rightarrow> \<forall>c \<in> set cs. isJumbo c \<or> getBestReceieverShard d (chunk_tag d c) = [])"
  using assms(5)
proof (induction cs)
  case (Cons c cs)
  let ?to = "getBestReceieverShard d (chunk_tag d c)"
  have tag: "getTagForChunk d c = Inr (chunk_tag d c)"
    using chunks_of_ok(2) [OF assms(1)] Cons.prems by (intro tag_total) auto
  show ?case
  proof (cases "isJumbo c \<or> ?to = []")
    case True
    with Cons tag show ?thesis by (auto simp: Let_def split: option.splits)
  next
    case False
    have "?to \<noteq> shard"
    proof
      assume "?to = shard"
      with receiver_spec(2) [OF assms(1)] False obtain s where "(shard, s) \<in> set (shardInfo d)" "eligible (chunk_tag d c) s" by metis
      with shard_lookup(1) [OF assms(1)] assms(2,3) show False by (auto simp: eligible_def dest!: shard_lookup(1) [OF assms(1)])
    qed
    then obtain mi where "MigrateInfo ns ?to shard c = Inr mi" "move_ok d mi"
      using moved [OF assms(1,2), of c ?to ns] False assms(3,4) Cons.prems by auto
    with False tag show ?thesis by (simp add: Let_def)
  qed
qed simp

lemma drain_shards_spec:
  assumes "dist_ok d" "set ss \<subseteq> fst ` set (shardInfo d)"
  shows "\<exists>r. drain_shards d ns ss = Inr r \<and> (case r of Some mi \<Rightarrow> move_ok d mi |
    None \<Rightarrow> \<forall>shard si c. (shard, si) \<in> set (shardInfo d) \<and> shard \<in> set ss \<and> draining si \<and> \<not> opsQueued si \<and>
      c \<in> set (chunks_of d shard) \<longrightarrow> isJumbo c \<or> getBestReceieverShard d (chunk_tag d c) = [])"
  using assms(2)
proof (induction ss)
  case (Cons shard ss)
  then obtain si where si: "(shard, si) \<in> set (shardInfo d)" by auto
  note look = shard_lookup [OF assms(1) si]
  have uniq: "s = si" if "(shard, s) \<in> set (shardInfo d)" for s using look(1) shard_lookup(1) [OF assms(1) that] by simp
  have empty: "numberOfChunksInShard d shard = 0 \<longleftrightarrow> chunks_of d shard = []"
    using count_chunks(1) [OF assms(1), of shard] by (auto simp: unat_eq_0 [symmetric])
  from Cons obtain r where r: "drain_shards d ns ss = Inr r" "case r of Some mi \<Rightarrow> move_ok d mi |
    None \<Rightarrow> \<forall>shard si c. (shard, si) \<in> set (shardInfo d) \<and> shard \<in> set ss \<and> draining si \<and> \<not> opsQueued si \<and>
      c \<in> set (chunks_of d shard) \<longrightarrow> isJumbo c \<or> getBestReceieverShard d (chunk_tag d c) = []" by auto
  show ?case
  proof (cases "draining si \<and> chunks_of d shard \<noteq> [] \<and> \<not> opsQueued si")
    case True
    with drain_chunks_spec [OF assms(1) si, of "chunks_of d shard" ns] obtain q where
      q: "drain_chunks d ns shard (chunks_of d shard) = Inr q" "case q of Some mi \<Rightarrow> move_ok d mi |
        None \<Rightarrow> \<forall>c \<in> set (chunks_of d shard). isJumbo c \<or> getBestReceieverShard d (chunk_tag d c) = []" by auto
    then show ?thesis using True look empty r uniq by (cases q; cases r) (simp_all, blast)
  next
    case False
    then show ?thesis using look empty r uniq by (cases r) auto
  qed
qed simp


lemma retag_chunks_spec:
  assumes "dist_ok d" "(shard, si) \<in> set (shardInfo d)" "set cs \<subseteq> set (chunks_of d shard)"
  shows "\<exists>r. retag_chunks d ns shard si cs = Inr r \<and> (case r of Some mi \<Rightarrow> move_ok d mi | None \<Rightarrow> True)"
  using assms(3)
proof (induction cs)
  case (Cons c cs)
  let ?to = "getBestReceieverShard d (chunk_tag d c)"
  have tag: "getTagForChunk d c = Inr (chunk_tag d c)"
    using chunks_of_ok(2) [OF assms(1)] Cons.prems by (intro tag_total) auto
  show ?case
  proof (cases "hasTag si (chunk_tag d c) \<or> isJumbo c \<or> ?to = []")
    case True
    with Cons tag show ?thesis by (auto simp: Let_def)
  next
    case False
    have "?to \<noteq> shard"
    proof
      assume "?to = shard"
      with receiver_spec(2) [OF assms(1)] False obtain s where s: "(shard, s) \<in> set (shardInfo d)" "eligible (chunk_tag d c) s" by metis
      with shard_lookup(1) [OF assms(1,2)] shard_lookup(1) [OF assms(1) s(1)] False show False by (simp add: eligible_def)
    qed
    then obtain mi where "MigrateInfo ns ?to shard c = Inr mi" "move_ok d mi"
      using moved [OF assms(1,2), of c ?to ns] False Cons.prems by auto
    with False tag \<open>?to \<noteq> shard\<close> show ?thesis by (simp add: Let_def guardE_def)
  qed
qed simp

lemma retag_shards_spec:
  assumes "dist_ok d" "set ss \<subseteq> fst ` set (shardInfo d)"
  shows "\<exists>r. retag_shards d ns ss = Inr r \<and> (case r of Some mi \<Rightarrow> move_ok d mi | None \<Rightarrow> True)"
  using assms(2)
proof (induction ss)
  case (Cons shard ss)
  then obtain si where si: "(shard, si) \<in> set (shardInfo d)" by auto
  from retag_chunks_spec [OF assms(1) si subset_refl, of ns] obtain r where
    r: "retag_chunks d ns shard si (chunks_of d shard) = Inr r" "case r of Some mi \<Rightarrow> move_ok d mi | None \<Rightarrow> True" by auto
  from Cons obtain q where q: "retag_shards d ns ss = Inr q" "case q of Some mi \<Rightarrow> move_ok d mi | None \<Rightarrow> True" by auto
  show ?case using r q shard_lookup [OF assms(1) si] by (cases r) auto
qed simp

lemma pick_chunk_spec:
  assumes "\<forall>c \<in> set cs. chunk_doc_ok c"
  shows "(\<exists>c \<in> set cs. pick_chunk d tag cs n = Inr (Inl c) \<and> chunk_tag d c = tag \<and> \<not> isJumbo c) \<or>
    pick_chunk d tag cs n = Inr (Inr (n + of_nat (length (filter (\<lambda>c. chunk_tag d c = tag) cs))))"
  using assms
proof (induction cs arbitrary: n)
  case (Cons c cs)
  have "getTagForChunk d c = Inr (chunk_tag d c)" using Cons.prems by (intro tag_total) auto
  with Cons.IH [of n] Cons.IH [of "n + 1"] Cons.prems show ?case by (auto simp: algebra_simps)
qed simp

lemma imbalance:
  assumes "a < 2 ^ 31" "b \<le> a"
  shows "sint (of_nat a - of_nat b :: u32) = int a - int b"
proof -
  have "of_nat a - of_nat b = (of_nat (a - b) :: u32)" using assms by (simp add: of_nat_diff)
  moreover have "sint (of_nat n :: u32) = int n" if "n < 2 ^ 31" for n
    using that by (simp add: signed_of_nat signed_take_bit_int_eq_self)
  moreover have "a - b < 2 ^ 31" using assms by linarith
  ultimately show ?thesis using assms(2) by (metis of_nat_diff)
qed

lemma balance_tags_spec:
  assumes "dist_ok d" "2 \<le> threshold"
  shows "\<exists>r. balance_tags d ns threshold tags = Inr r \<and> (case r of Some mi \<Rightarrow> move_ok d mi | None \<Rightarrow> True)"
proof (induction tags)
  case (Cons tag tags)
  obtain src where f: "getMostOverloadedShard d tag = Inr src"
    "src \<noteq> [] \<Longrightarrow> \<exists>s. (src, s) \<in> set (shardInfo d) \<and> \<not> opsQueued s \<and> 0 < tagged d tag src \<and>
       (\<forall>e \<in> set (shardInfo d). \<not> opsQueued (snd e) \<longrightarrow> tagged d tag (fst e) \<le> tagged d tag src)"
    using donor_spec [OF assms(1)] by blast
  let ?to = "getBestReceieverShard d tag"
  note n = count_chunks(2,3) [OF assms(1), where tag = tag]
  show ?case
  proof (cases "src = [] \<or> ?to = []")
    case True
    with Cons f n show ?thesis by (auto simp: Let_def)
  next
    case False
    with f obtain s where s: "(src, s) \<in> set (shardInfo d)" "\<not> opsQueued s" "0 < tagged d tag src"
      "\<forall>e \<in> set (shardInfo d). \<not> opsQueued (snd e) \<longrightarrow> tagged d tag (fst e) \<le> tagged d tag src" by auto
    from receiver_spec(2) [OF assms(1)] False obtain sto where "(?to, sto) \<in> set (shardInfo d)" "eligible tag sto" by blast
    with s have "tagged d tag ?to \<le> tagged d tag src" by (auto simp: eligible_def)
    with n have imb: "sint (of_nat (tagged d tag src) - of_nat (tagged d tag ?to) :: u32) = int (tagged d tag src) - int (tagged d tag ?to)"
      by (intro imbalance)
    have nz: "of_nat (tagged d tag src) \<noteq> (0 :: u32)"
      using s(3) unat_of_small [OF n(2)] by (metis neq0_conv unat_0)
    note pick = pick_chunk_spec [of "chunks_of d src" d tag 0, folded tagged_def]
    show ?thesis
    proof (cases "int (tagged d tag src) - int (tagged d tag ?to) < threshold")
      case True
      with False Cons f n nz imb show ?thesis by (simp add: Let_def)
    next
      case big: False
      from pick chunks_of_ok(2) [OF assms(1)] consider
        c where "c \<in> set (chunks_of d src)" "pick_chunk d tag (chunks_of d src) 0 = Inr (Inl c)" "chunk_tag d c = tag" "\<not> isJumbo c"
        | "pick_chunk d tag (chunks_of d src) 0 = Inr (Inr (of_nat (tagged d tag src)))" by auto
      then show ?thesis
      proof cases
        case 1
        from big assms(2) have "tagged d tag ?to + 2 \<le> tagged d tag src" "?to \<noteq> src" by auto
        with 1 s False obtain mi where "MigrateInfo ns ?to src c = Inr mi" "move_ok d mi"
          using moved [OF assms(1) s(1), of c ?to ns] by auto
        with 1 big False f n nz imb shard_lookup [OF assms(1) s(1)] show ?thesis by (simp add: Let_def)
      next
        case 2
        with big False Cons f n nz imb shard_lookup [OF assms(1) s(1)] show ?thesis by (simp add: Let_def)
      qed
    qed
  qed
qed simp


text \<open>
  C26: A tag range is added to the policy exactly when it meets none of the ranges already there; the ranges stay
  disjoint, and the tag looked up for a chunk afterwards is the one of the range that has the lower bound of the chunk
  in it, and the empty tag when there is no such range.
\<close>
theorem tag_ranges_exact:
  assumes "tags_ok b n d" "range_ok (ord_ok_obj b) obj_cmp (tr_bounds rng)" "length (tr_min rng) = n"
  defines "free \<equiv> \<forall>r \<in> snd ` set (tagRanges d). \<not> ranges_meet obj_cmp (tr_bounds rng) (tr_bounds r)"
  shows "\<exists>d'. addTagRange rng d = Inr (d', free) \<and> tags_ok b n d' \<and>
    snd ` set (tagRanges d') = (if free then insert rng (snd ` set (tagRanges d)) else snd ` set (tagRanges d)) \<and>
    (\<forall>chunk mn. val chunk ''min'' = Some (ObjectV mn) \<and> ord_ok_obj b mn \<longrightarrow>
      (\<exists>t. getTagForChunk d' chunk = Inr t \<and>
        (\<forall>r \<in> snd ` set (tagRanges d'). in_range obj_cmp (tr_bounds r) mn \<longrightarrow> t = tr_tag r) \<and>
        ((\<forall>r \<in> snd ` set (tagRanges d'). \<not> in_range obj_cmp (tr_bounds r) mn) \<longrightarrow> t = [])))"
proof -
  from addTagRange_exact [OF assms(1-3)] obtain d' where d': "addTagRange rng d = Inr (d', free)" "tags_ok b n d'"
    "snd ` set (tagRanges d') = (if free then insert rng (snd ` set (tagRanges d)) else snd ` set (tagRanges d))"
    unfolding free_def by auto
  moreover have "\<exists>t. getTagForChunk d' chunk = Inr t \<and>
      (\<forall>r \<in> snd ` set (tagRanges d'). in_range obj_cmp (tr_bounds r) mn \<longrightarrow> t = tr_tag r) \<and>
      ((\<forall>r \<in> snd ` set (tagRanges d'). \<not> in_range obj_cmp (tr_bounds r) mn) \<longrightarrow> t = [])"
    if "val chunk ''min'' = Some (ObjectV mn)" "ord_ok_obj b mn" for chunk mn
    using getTagForChunk_exact [OF d'(2) that] by metis
  ultimately show ?thesis by blast
qed

text \<open>Two shards, the first draining: its chunk is moved.\<close>

definition pair_chunk :: "u32 \<Rightarrow> u32 \<Rightarrow> bson" where
  "pair_chunk a b = [(str ''min'', ObjectV [(str ''a'', IntV a)]), (str ''max'', ObjectV [(str ''a'', IntV b)])]"

definition pair_dist :: distribution where
  "pair_dist = DistributionStatus
     [(str ''x'', ShardInfo 0 0 True False {} []), (str ''y'', ShardInfo 0 0 False False {} [])]
     [(str ''x'', [pair_chunk 0 5]), (str ''y'', [pair_chunk 5 9])]"

lemma shards_sub: "set (shards d) \<subseteq> fst ` set (shardInfo d)"
  by (simp add: shards_def)

text \<open>
  C7: For every distribution of chunks over shards, every outcome of the shuffle and either value of
  \<open>balancedLastTime\<close>, a round of the policy ends with no \<open>verify\<close> failing, and a
  move it suggests takes a chunk that is on the donor and not jumbo to a different shard, which has the tag of
  the chunk, is neither full nor draining nor behind on its writes, and has the fewest chunks of such shards;
  and the donor is draining, or does not have the tag, or has at least two more chunks of the tag than the receiver.
\<close>
theorem balance_sound:
  assumes "dist_ok d"
  shows "balance ns d balancedLastTime shuffled = Inr None \<or>
    (\<exists>mi. balance ns d balancedLastTime shuffled = Inr (Some mi) \<and> move_ok d mi)"
proof -
  have "2 \<le> balance_threshold d balancedLastTime" by (simp add: balance_threshold_def)
  from balance_tags_spec [OF assms this, of ns shuffled] obtain r3 where
    "balance_tags d ns (balance_threshold d balancedLastTime) shuffled = Inr r3" "case r3 of Some mi \<Rightarrow> move_ok d mi | None \<Rightarrow> True" by auto
  moreover from retag_shards_spec [OF assms shards_sub, of ns] obtain r2 where
    "retag_shards d ns (shards d) = Inr r2" "case r2 of Some mi \<Rightarrow> move_ok d mi | None \<Rightarrow> True" by auto
  moreover from drain_shards_spec [OF assms shards_sub, of ns] obtain r1 where
    "drain_shards d ns (shards d) = Inr r1" "r1 = None \<or> (\<exists>mi. r1 = Some mi \<and> move_ok d mi)"
    by (metis (no_types, lifting) not_None_eq option.simps(5))
  ultimately show ?thesis unfolding balance_def by (cases r1; cases r2; cases r3) auto
qed

text \<open>
  C24: A shard that is draining and not behind on its writes is emptied: while it has a chunk that is not jumbo and that some
  shard may take, every round of the policy suggests a move.
\<close>
theorem draining_moves:
  assumes "dist_ok d" "(shard, si) \<in> set (shardInfo d)" "draining si" "\<not> opsQueued si"
    and "c \<in> set (chunks_of d shard)" "\<not> isJumbo c" "(other, so) \<in> set (shardInfo d)" "eligible (chunk_tag d c) so"
  shows "\<exists>mi. balance ns d balancedLastTime shuffled = Inr (Some mi) \<and> move_ok d mi"
proof -
  have "getBestReceieverShard d (chunk_tag d c) \<noteq> []" using receiver_spec(1) [OF assms(1)] assms(7,8) by force
  moreover have "shard \<in> set (shards d)" using assms(2) by (force simp: shards_def)
  moreover from drain_shards_spec [OF assms(1) shards_sub, of ns] obtain r where "drain_shards d ns (shards d) = Inr r"
    "case r of Some mi \<Rightarrow> move_ok d mi | None \<Rightarrow> \<forall>shard si c. (shard, si) \<in> set (shardInfo d) \<and> shard \<in> set (shards d) \<and>
      draining si \<and> \<not> opsQueued si \<and> c \<in> set (chunks_of d shard) \<longrightarrow> isJumbo c \<or> getBestReceieverShard d (chunk_tag d c) = []" by auto
  ultimately have "\<exists>mi. drain_shards d ns (shards d) = Inr (Some mi) \<and> move_ok d mi"
    using assms(2-6) by (cases r) auto
  then show ?thesis by (auto simp: balance_def)
qed

text \<open>Witnesses.\<close>

lemma pair_values:
  "val (pair_chunk a b) ''min'' = Some (ObjectV [(str ''a'', IntV a)])"
  "val (pair_chunk a b) ''max'' = Some (ObjectV [(str ''a'', IntV b)])"
  "doc_range (pair_chunk a b) = ([(str ''a'', IntV a)], [(str ''a'', IntV b)])"
  by (code_simp)+

lemma pair_dist_ok: "dist_ok pair_dist"
  unfolding dist_ok_def pair_dist_def DistributionStatus_def
  by (simp add: chunk_doc_ok_def pair_values om_sorted_def) code_simp

definition all_keys :: tag_range where
  "all_keys = \<lparr> tr_min = [(str ''a'', MinKeyV)], tr_max = [(str ''a'', MaxKeyV)], tr_tag = str ''t'' \<rparr>"

theorem tag_ranges_exact_witness:
  "\<exists>d'. addTagRange all_keys pair_dist = Inr (d', True) \<and> tags_ok True 1 d' \<and>
     getTagForChunk d' (pair_chunk 0 5) = Inr (str ''t'')"
proof -
  have "tags_ok True 1 pair_dist" "tagRanges pair_dist = []"
    by (simp_all add: tags_ok_def pair_dist_def DistributionStatus_def)
  moreover have "range_ok (ord_ok_obj True) obj_cmp (tr_bounds all_keys)" "length (tr_min all_keys) = 1"
    by (simp_all add: range_ok_def tr_bounds_def all_keys_def elem_woCompare_def Let_def)
  moreover have "val (pair_chunk 0 5) ''min'' = Some (ObjectV [(str ''a'', IntV 0)]) \<and> ord_ok_obj True [(str ''a'', IntV 0)]"
    "in_range obj_cmp (tr_bounds all_keys) [(str ''a'', IntV 0)]"
    by (simp_all add: pair_values in_range_def tr_bounds_def all_keys_def elem_woCompare_def Let_def)
  moreover have "tr_tag all_keys = str ''t''" by (simp add: all_keys_def)
  ultimately show ?thesis using tag_ranges_exact [of True 1 pair_dist all_keys] by fastforce
qed

theorem balance_sound_witness:
  "\<exists>mi. balance (str ''db.c'') pair_dist 0 [[]] = Inr (Some mi) \<and> move_ok pair_dist mi"
proof -
  have "balance (str ''db.c'') pair_dist 0 [[]] \<noteq> Inr None" by code_simp
  with balance_sound [OF pair_dist_ok, of "str ''db.c''" 0 "[[]]"] show ?thesis by simp
qed

theorem draining_moves_witness:
  "\<exists>mi. balance (str ''db.c'') pair_dist 1 [] = Inr (Some mi) \<and> move_ok pair_dist mi"
proof -
  let ?x = "ShardInfo 0 0 True False {} []" and ?y = "ShardInfo 0 0 False False {} []"
  have "(str ''x'', ?x) \<in> set (shardInfo pair_dist)" "(str ''y'', ?y) \<in> set (shardInfo pair_dist)"
    by (simp_all add: pair_dist_def DistributionStatus_def)
  moreover have "pair_chunk 0 5 \<in> set (chunks_of pair_dist (str ''x''))" "\<not> isJumbo (pair_chunk 0 5)" "chunk_tag pair_dist (pair_chunk 0 5) = []"
    by code_simp+
  moreover have "eligible [] ?y" "draining ?x" "\<not> opsQueued ?x" by (simp_all add: eligible_def isSizeMaxed_def hasTag_def ShardInfo_def)
  ultimately show ?thesis
    using draining_moves [OF pair_dist_ok, of "str ''x''" ?x "pair_chunk 0 5" "str ''y''" ?y "str ''db.c''" 1 "[]"] by simp
qed

end
