(* ===== verification/FieldRange.thy ===== *)
theory FieldRange
  imports BsonCompare OrdMap
begin

text \<open>
  The ranges of values that a query allows for a field (\<open>db/queryutil.h\<close>, \<open>db/queryutil.cpp\<close>): intervals with inclusive and
  exclusive bounds, kept disjoint and in order, and their union, intersection and difference. Bounds are compared
  without their field names except where the code compares them with names.
\<close>

section \<open>Bounds and intervals\<close>

record field_bound =
  fb_bound :: bson_elem
  fb_inclusive :: bool

definition fb_equal :: "field_bound \<Rightarrow> field_bound \<Rightarrow> bool" where
  "fb_equal a b \<longleftrightarrow> elem_woCompare (fb_bound a) (fb_bound b) True = 0 \<and> fb_inclusive a = fb_inclusive b"

definition flipInclusive :: "field_bound \<Rightarrow> field_bound" where
  "flipInclusive b = b\<lparr>fb_inclusive := \<not> fb_inclusive b\<rparr>"

text \<open>\<open>fi_cached\<close> keeps the answer of \<open>equality\<close>, -1 until it has been asked for.\<close>

record field_interval =
  fi_lower :: field_bound
  fi_upper :: field_bound
  fi_cached :: int

definition FieldInterval :: "bson_elem \<Rightarrow> field_interval" where
  "FieldInterval e = \<lparr> fi_lower = \<lparr> fb_bound = e, fb_inclusive = True \<rparr>,
     fi_upper = \<lparr> fb_bound = e, fb_inclusive = True \<rparr>, fi_cached = -1 \<rparr>"

definition isStrictValid :: "field_interval \<Rightarrow> bool" where
  "isStrictValid i =
     (let cmp = elem_woCompare (fb_bound (fi_lower i)) (fb_bound (fi_upper i)) False
      in cmp < 0 \<or> (cmp = 0 \<and> fb_inclusive (fi_lower i) \<and> fb_inclusive (fi_upper i)))"

definition fi_equality :: "field_interval \<Rightarrow> bool \<times> field_interval" where
  "fi_equality i =
     (let i' = (if fi_cached i = -1
                then i\<lparr>fi_cached := (if fb_inclusive (fi_lower i) \<and> fb_inclusive (fi_upper i) \<and>
                         elem_woCompare (fb_bound (fi_lower i)) (fb_bound (fi_upper i)) False = 0 then 1 else 0)\<rparr>
                else i)
      in (fi_cached i' \<noteq> 0, i'))"

section \<open>Special indexes\<close>

type_synonym special_indices = "(bstr, bool) omap"

definition si_get :: "special_indices \<Rightarrow> bstr \<Rightarrow> bool" where
  "si_get s name = (case om_find lexcmp name s of Some (_, req) \<Rightarrow> req | None \<Rightarrow> False)"

definition si_has :: "special_indices \<Rightarrow> bstr \<Rightarrow> bool" where
  "si_has s name \<longleftrightarrow> om_find lexcmp name s \<noteq> None"

definition combineWith :: "special_indices \<Rightarrow> special_indices \<Rightarrow> special_indices" where
  "combineWith s other = foldl (\<lambda>ret (name, req). om_put lexcmp name (si_get ret name \<or> req) ret) s other"

definition si_add :: "special_indices \<Rightarrow> bstr \<Rightarrow> bool \<Rightarrow> special_indices" where
  "si_add s name req = om_put lexcmp name (si_get s name \<or> req) s"

definition anyRequireIndex :: "special_indices \<Rightarrow> bool" where
  "anyRequireIndex s = list_ex snd s"

section \<open>Ranges\<close>

record field_range =
  fr_intervals :: "field_interval list"
  fr_objData :: "bson list"
  fr_special :: special_indices
  fr_exactMatch :: bool
  fr_elemMatchContext :: "bson_elem option"

definition fr_empty :: "field_range \<Rightarrow> bool" where
  "fr_empty r \<longleftrightarrow> fr_intervals r = []"

definition fr_min :: "field_range \<Rightarrow> bson_elem result" where
  "fr_min r = bind_result (guardE (\<not> fr_empty r) VerifyFailed) (\<lambda>_. Inr (fb_bound (fi_lower (hd (fr_intervals r)))))"

definition fr_max :: "field_range \<Rightarrow> bson_elem result" where
  "fr_max r = bind_result (guardE (\<not> fr_empty r) VerifyFailed) (\<lambda>_. Inr (fb_bound (fi_upper (last (fr_intervals r)))))"

definition minInclusive :: "field_range \<Rightarrow> bool result" where
  "minInclusive r = bind_result (guardE (\<not> fr_empty r) VerifyFailed) (\<lambda>_. Inr (fb_inclusive (fi_lower (hd (fr_intervals r)))))"

definition maxInclusive :: "field_range \<Rightarrow> bool result" where
  "maxInclusive r = bind_result (guardE (\<not> fr_empty r) VerifyFailed) (\<lambda>_. Inr (fb_inclusive (fi_upper (last (fr_intervals r)))))"

definition fr_equality :: "field_range \<Rightarrow> bool result" where
  "fr_equality r =
     (if fr_empty r then Inr False
      else bind_result (fr_min r) (\<lambda>mn. bind_result (fr_max r) (\<lambda>mx.
        if elem_woCompare mn mx False \<noteq> 0 then Inr False
        else bind_result (maxInclusive r) (\<lambda>b. if \<not> b then Inr False else minInclusive r))))"

definition makeEmpty :: "field_range \<Rightarrow> field_range" where
  "makeEmpty r = r\<lparr>fr_intervals := []\<rparr>"

definition addObj :: "bson \<Rightarrow> field_range \<Rightarrow> field_range" where
  "addObj obj r = r\<lparr>fr_objData := fr_objData r @ [obj]\<rparr>"

definition finishOperation :: "field_interval list \<Rightarrow> field_range \<Rightarrow> bool \<Rightarrow> field_range \<Rightarrow> field_range" where
  "finishOperation newIntervals other exactMatch r =
     r\<lparr>fr_intervals := newIntervals, fr_objData := fr_objData r @ fr_objData other,
       fr_special := (if fr_special r = [] \<and> fr_special other \<noteq> [] then fr_special other else fr_special r),
       fr_exactMatch := exactMatch, fr_elemMatchContext := None\<rparr>"

definition maxLowerBound :: "field_bound \<Rightarrow> field_bound \<Rightarrow> field_bound" where
  "maxLowerBound a b =
     (let cmp = elem_woCompare (fb_bound a) (fb_bound b) False
      in if (cmp = 0 \<and> \<not> fb_inclusive b) \<or> cmp < 0 then b else a)"

definition minUpperBound :: "field_bound \<Rightarrow> field_bound \<Rightarrow> field_bound" where
  "minUpperBound a b =
     (let cmp = elem_woCompare (fb_bound a) (fb_bound b) False
      in if (cmp = 0 \<and> \<not> fb_inclusive b) \<or> cmp > 0 then b else a)"

definition fieldIntervalOverlap :: "field_interval \<Rightarrow> field_interval \<Rightarrow> bool \<times> field_interval" where
  "fieldIntervalOverlap one two =
     (let result = \<lparr> fi_lower = maxLowerBound (fi_lower one) (fi_lower two),
                     fi_upper = minUpperBound (fi_upper one) (fi_upper two), fi_cached = -1 \<rparr>
      in (isStrictValid result, result))"

fun intersect_loop :: "field_interval list \<Rightarrow> field_interval list \<Rightarrow> field_interval list" where
  "intersect_loop (i # is) (j # js) =
     (let (valid, ov) = fieldIntervalOverlap i j;
          rest = (if fb_equal (fi_upper i) (minUpperBound (fi_upper i) (fi_upper j))
                  then intersect_loop is (j # js) else intersect_loop (i # is) js)
      in if valid then ov # rest else rest)"
| "intersect_loop _ _ = []"

text \<open>The builder of unions: the last interval, which may still grow, and the finished ones.\<close>

record range_union_builder =
  rub_tail :: "field_interval option"
  rub_unionIntervals :: "field_interval list"

definition handleDisjoint :: "field_interval \<Rightarrow> field_interval \<Rightarrow> bool" where
  "handleDisjoint lst nxt =
     (let cmp = elem_woCompare (fb_bound (fi_upper lst)) (fb_bound (fi_lower nxt)) False
      in cmp < 0 \<or> (cmp = 0 \<and> \<not> fb_inclusive (fi_upper lst) \<and> \<not> fb_inclusive (fi_lower nxt)))"

definition handleExtend :: "field_interval \<Rightarrow> field_interval \<Rightarrow> field_interval" where
  "handleExtend lst nxt =
     (let cmp = elem_woCompare (fb_bound (fi_upper lst)) (fb_bound (fi_upper nxt)) False
      in if cmp < 0 \<or> (cmp = 0 \<and> \<not> fb_inclusive (fi_upper lst) \<and> fb_inclusive (fi_upper nxt))
         then lst\<lparr>fi_upper := fi_upper nxt\<rparr> else lst)"

definition nextOrderedInterval :: "field_interval \<Rightarrow> range_union_builder \<Rightarrow> range_union_builder" where
  "nextOrderedInterval nxt b =
     (case rub_tail b of
        None \<Rightarrow> b\<lparr>rub_tail := Some nxt\<rparr>
      | Some lst \<Rightarrow>
          if handleDisjoint lst nxt
          then b\<lparr>rub_unionIntervals := rub_unionIntervals b @ [lst], rub_tail := Some nxt\<rparr>
          else b\<lparr>rub_tail := Some (handleExtend lst nxt)\<rparr>)"

definition union_done :: "range_union_builder \<Rightarrow> field_interval list" where
  "union_done b = (case rub_tail b of None \<Rightarrow> rub_unionIntervals b | Some lst \<Rightarrow> rub_unionIntervals b @ [lst])"

fun union_loop :: "field_interval list \<Rightarrow> field_interval list \<Rightarrow> range_union_builder \<Rightarrow> range_union_builder" where
  "union_loop (i # is) (j # js) b =
     (let cmp = elem_woCompare (fb_bound (fi_lower i)) (fb_bound (fi_lower j)) False
      in if cmp < 0 \<or> (cmp = 0 \<and> fb_inclusive (fi_lower i))
         then union_loop is (j # js) (nextOrderedInterval i b)
         else union_loop (i # is) js (nextOrderedInterval j b))"
| "union_loop (i # is) [] b = union_loop is [] (nextOrderedInterval i b)"
| "union_loop [] (j # js) b = union_loop [] js (nextOrderedInterval j b)"
| "union_loop [] [] b = b"

definition fr_union :: "field_range \<Rightarrow> field_range \<Rightarrow> field_range" where
  "fr_union r other =
     finishOperation (union_done (union_loop (fr_intervals r) (fr_intervals other) \<lparr> rub_tail = None, rub_unionIntervals = [] \<rparr>))
       other False r"

text \<open>The difference; an interval that reaches past the one subtracted is cut off at its end and looked at again.\<close>

fun diff_loop :: "field_interval list \<Rightarrow> field_interval list \<Rightarrow> field_interval list" where
  "diff_loop (i # is) (j # js) =
     (let cmp = elem_woCompare (fb_bound (fi_lower i)) (fb_bound (fi_lower j)) False;
          cmp3 = elem_woCompare (fb_bound (fi_upper i)) (fb_bound (fi_upper j)) False;
          ends_within = (cmp3 < 0 \<or> (cmp3 = 0 \<and> (\<not> fb_inclusive (fi_upper i) \<or> fb_inclusive (fi_upper j))));
          i' = i\<lparr>fi_lower := flipInclusive (fi_upper j)\<rparr>
      in if cmp < 0 \<or> (cmp = 0 \<and> fb_inclusive (fi_lower i) \<and> \<not> fb_inclusive (fi_lower j))
         then let cmp2 = elem_woCompare (fb_bound (fi_upper i)) (fb_bound (fi_lower j)) False
              in if cmp2 < 0 then i # diff_loop is (j # js)
                 else if cmp2 = 0
                 then (if fb_inclusive (fi_upper i) \<and> fb_inclusive (fi_lower j)
                       then i\<lparr>fi_upper := (fi_upper i)\<lparr>fb_inclusive := False\<rparr>\<rparr> else i) # diff_loop is (j # js)
                 else i\<lparr>fi_upper := flipInclusive (fi_lower j)\<rparr> #
                      (if ends_within then diff_loop is (j # js) else diff_loop (i' # is) js)
         else let cmp2 = elem_woCompare (fb_bound (fi_lower i)) (fb_bound (fi_upper j)) False
              in if cmp2 > 0 \<or> (cmp2 = 0 \<and> (\<not> fb_inclusive (fi_lower i) \<or> \<not> fb_inclusive (fi_upper j)))
                 then diff_loop (i # is) js
                 else if ends_within then diff_loop is (j # js) else diff_loop (i' # is) js)"
| "diff_loop is js = is"

definition fr_diff :: "field_range \<Rightarrow> field_range \<Rightarrow> field_range" where
  "fr_diff r other = finishOperation (diff_loop (fr_intervals r) (fr_intervals other)) other False r"

definition fr_subset :: "field_range \<Rightarrow> field_range \<Rightarrow> bool" where
  "fr_subset r other \<longleftrightarrow> fr_empty (fr_diff r other)"

text \<open>The order of adjacent bounds is asked for with their field names.\<close>

fun adjacent_cover :: "field_interval list \<Rightarrow> bool" where
  "adjacent_cover (i # j # is) =
     (if \<not> fb_inclusive (fi_upper i) \<and> \<not> fb_inclusive (fi_lower j) then False
      else if elem_woCompare (fb_bound (fi_upper i)) (fb_bound (fi_lower j)) True < 0 then False
      else adjacent_cover (j # is))"
| "adjacent_cover _ = True"

definition universal :: "field_range \<Rightarrow> bool result" where
  "universal r =
     (if fr_empty r then Inr False
      else bind_result (fr_min r) (\<lambda>mn.
        if elem_woCompare ([], MinKeyV) mn False \<noteq> 0 then Inr False
        else bind_result (fr_max r) (\<lambda>mx.
          if elem_woCompare ([], MaxKeyV) mx False \<noteq> 0 then Inr False
          else Inr (adjacent_cover (fr_intervals r)))))"

definition fr_intersect :: "field_range \<Rightarrow> field_range \<Rightarrow> bool \<Rightarrow> field_range result" where
  "fr_intersect r other singleKey =
     bind_result (universal r) (\<lambda>all.
       if all then Inr (other\<lparr>fr_special := combineWith (fr_special r) (fr_special other)\<rparr>)
       else if \<not> singleKey
       then let r' = (if fr_subset other r then other else r)
            in Inr (r'\<lparr>fr_exactMatch := False, fr_special := combineWith (fr_special r) (fr_special other)\<rparr>)
       else Inr (finishOperation (intersect_loop (fr_intervals r) (fr_intervals other)) other
                  (fr_exactMatch r \<and> fr_exactMatch other) r))"

fun point_intervals :: "field_interval list \<Rightarrow> bool \<times> field_interval list" where
  "point_intervals [] = (True, [])"
| "point_intervals (i # is) =
     (let (eq, i') = fi_equality i
      in if \<not> eq then (False, i' # is)
         else let (all, is') = point_intervals is in (all, i' # is'))"

definition isPointIntervalSet :: "field_range \<Rightarrow> bool \<times> field_range" where
  "isPointIntervalSet r =
     (if fr_intervals r = [] then (False, r)
      else let (all, is) = point_intervals (fr_intervals r) in (all, r\<lparr>fr_intervals := is\<rparr>))"

definition setExclusiveBounds :: "field_range \<Rightarrow> field_range" where
  "setExclusiveBounds r = r\<lparr>fr_intervals := map (\<lambda>i.
     i\<lparr>fi_lower := (fi_lower i)\<lparr>fb_inclusive := False\<rparr>, fi_upper := (fi_upper i)\<lparr>fb_inclusive := False\<rparr>\<rparr>) (fr_intervals r)\<rparr>"

definition fr_reverse :: "field_range \<Rightarrow> field_range \<Rightarrow> field_range result" where
  "fr_reverse r ret =
     bind_result (guardE (fr_special r = []) VerifyFailed) (\<lambda>_.
       Inr (ret\<lparr>fr_objData := fr_objData r,
         fr_intervals := map (\<lambda>i. \<lparr> fi_lower = fi_upper i, fi_upper = fi_lower i, fi_cached = -1 \<rparr>) (rev (fr_intervals r))\<rparr>))"

section \<open>The values in a range\<close>

definition above_lower :: "field_bound \<Rightarrow> bson_elem \<Rightarrow> bool" where
  "above_lower b x \<longleftrightarrow> elem_woCompare (fb_bound b) x False < 0 \<or> (elem_woCompare (fb_bound b) x False = 0 \<and> fb_inclusive b)"

definition below_upper :: "field_bound \<Rightarrow> bson_elem \<Rightarrow> bool" where
  "below_upper b x \<longleftrightarrow> elem_woCompare x (fb_bound b) False < 0 \<or> (elem_woCompare x (fb_bound b) False = 0 \<and> fb_inclusive b)"

definition in_interval :: "bson_elem \<Rightarrow> field_interval \<Rightarrow> bool" where
  "in_interval x i \<longleftrightarrow> above_lower (fi_lower i) x \<and> below_upper (fi_upper i) x"

definition in_intervals :: "bson_elem \<Rightarrow> field_interval list \<Rightarrow> bool" where
  "in_intervals x is \<longleftrightarrow> (\<exists>i \<in> set is. in_interval x i)"

text \<open>Intervals are valid, disjoint and in order.\<close>

definition before :: "field_interval \<Rightarrow> field_interval \<Rightarrow> bool" where
  "before i j \<longleftrightarrow> (let cmp = elem_woCompare (fb_bound (fi_upper i)) (fb_bound (fi_lower j)) False
     in cmp < 0 \<or> (cmp = 0 \<and> \<not> (fb_inclusive (fi_upper i) \<and> fb_inclusive (fi_lower j))))"

definition bounds_in :: "(bson_elem \<Rightarrow> bool) \<Rightarrow> field_interval list \<Rightarrow> bool" where
  "bounds_in P is \<longleftrightarrow> (\<forall>i \<in> set is. P (fb_bound (fi_lower i)) \<and> P (fb_bound (fi_upper i)))"

definition intervals_ok :: "bool \<Rightarrow> field_interval list \<Rightarrow> bool" where
  "intervals_ok b is \<longleftrightarrow> bounds_in (\<lambda>e. ord_ok b (snd e)) is \<and> list_all isStrictValid is \<and> sorted_wrt before is"

interpretation elem_order: three_way "\<lambda>e. ord_ok b (snd e)" "\<lambda>l r. elem_woCompare l r cfn" for b cfn
proof
  fix x y z :: bson_elem
  assume ok: "ord_ok b (snd x)" "ord_ok b (snd y)"
  then have "all_value (time_ok b) (snd x)" "all_value (time_ok b) (snd y)" by (auto elim!: all_elems_mono(2) [rotated])
  then show "sgn (elem_woCompare y x cfn) = - sgn (elem_woCompare x y cfn)" by (rule elem_antisym)
  assume "ord_ok b (snd z)"
  with ok show "tri (elem_woCompare x y cfn) (elem_woCompare y z cfn) (elem_woCompare x z cfn)" by (rule elem_tri)
qed

section \<open>Cuts\<close>

text \<open>
  A rank for finitely many elements turns bounds into numbers: the elements are multiples of four, a bound is the
  number just below or above its element. An inclusive upper bound and an exclusive lower one are the same cut.
\<close>

definition ranks :: "bson_elem set \<Rightarrow> (bson_elem \<Rightarrow> nat) \<Rightarrow> bool" where
  "ranks S r \<longleftrightarrow> (\<forall>x \<in> S. \<forall>y \<in> S. (elem_woCompare x y False < 0 \<longleftrightarrow> r x < r y) \<and>
     (0 < elem_woCompare x y False \<longleftrightarrow> r y < r x) \<and> (elem_woCompare x y False = 0 \<longleftrightarrow> r x = r y))"

lemma ranks_exist:
  assumes "finite S" "\<And>x. x \<in> S \<Longrightarrow> ord_ok b (snd x)"
  obtains r where "ranks S r"
proof (rule elem_order.rank [OF assms, where cfn = False])
  fix r :: "bson_elem \<Rightarrow> nat"
  assume "\<And>x y. x \<in> S \<Longrightarrow> y \<in> S \<Longrightarrow> (elem_woCompare x y False < 0 \<longleftrightarrow> r x < r y) \<and> (elem_woCompare x y False \<le> 0 \<longleftrightarrow> r x \<le> r y) \<and>
    (0 \<le> elem_woCompare x y False \<longleftrightarrow> r y \<le> r x) \<and> (0 < elem_woCompare x y False \<longleftrightarrow> r y < r x) \<and> (elem_woCompare x y False = 0 \<longleftrightarrow> r x = r y)"
  then have "ranks S r" by (simp add: ranks_def)
  then show thesis by (rule that)
qed

definition lcut :: "(bson_elem \<Rightarrow> nat) \<Rightarrow> field_bound \<Rightarrow> int" where
  "lcut r b = 4 * int (r (fb_bound b)) + (if fb_inclusive b then -1 else 1)"

definition ucut :: "(bson_elem \<Rightarrow> nat) \<Rightarrow> field_bound \<Rightarrow> int" where
  "ucut r b = 4 * int (r (fb_bound b)) + (if fb_inclusive b then 1 else -1)"

definition icut :: "(bson_elem \<Rightarrow> nat) \<Rightarrow> field_interval \<Rightarrow> int \<times> int" where
  "icut r i = (lcut r (fi_lower i), ucut r (fi_upper i))"

abbreviation bounds_of :: "field_interval \<Rightarrow> bson_elem set" where
  "bounds_of i \<equiv> {fb_bound (fi_lower i), fb_bound (fi_upper i)}"

lemma cut_simps:
  "fst (icut r i) = lcut r (fi_lower i)" "snd (icut r i) = ucut r (fi_upper i)"
  "lcut r (flipInclusive b) = ucut r b" "ucut r (flipInclusive b) = lcut r b"
  by (simp_all add: icut_def lcut_def ucut_def flipInclusive_def)

lemma ranked_in:
  assumes "ranks S r" "x \<in> S" "bounds_of i \<subseteq> S"
  shows "in_interval x i \<longleftrightarrow> fst (icut r i) < 4 * int (r x) \<and> 4 * int (r x) < snd (icut r i)"
  using assms by (auto simp: in_interval_def above_lower_def below_upper_def ranks_def icut_def lcut_def ucut_def)

lemma ranked_valid:
  assumes "ranks S r" "bounds_of i \<subseteq> S"
  shows "isStrictValid i \<longleftrightarrow> fst (icut r i) < snd (icut r i)"
  using assms by (auto simp: isStrictValid_def ranks_def icut_def lcut_def ucut_def Let_def)

lemma ranked_before:
  assumes "ranks S r" "bounds_of i \<subseteq> S" "bounds_of j \<subseteq> S"
  shows "before i j \<longleftrightarrow> snd (icut r i) \<le> fst (icut r j)"
  using assms by (auto simp: before_def ranks_def icut_def lcut_def ucut_def Let_def)

text \<open>A point is never a cut.\<close>

lemma cut_not_point: "fst (icut r i) \<noteq> 4 * int n" "snd (icut r i) \<noteq> 4 * int n"
  by (auto simp: icut_def lcut_def ucut_def) presburger+

definition iv_in :: "int \<Rightarrow> (int \<times> int) list \<Rightarrow> bool" where
  "iv_in p is \<longleftrightarrow> (\<exists>(l, u) \<in> set is. l < p \<and> p < u)"

definition iv_ok :: "(int \<times> int) list \<Rightarrow> bool" where
  "iv_ok is \<longleftrightarrow> (\<forall>(l, u) \<in> set is. l < u) \<and> sorted_wrt (\<lambda>i j. snd i \<le> fst j) is"

lemma iv_simps [simp]:
  "\<not> iv_in p []" "iv_in p ((l, u) # is) \<longleftrightarrow> (l < p \<and> p < u) \<or> iv_in p is"
  "iv_ok []" "iv_ok ((l, u) # is) \<longleftrightarrow> l < u \<and> (\<forall>j \<in> set is. u \<le> fst j) \<and> iv_ok is"
  by (auto simp: iv_in_def iv_ok_def)

lemma bounds_in_set: "bounds_in (\<lambda>e. e \<in> S) is \<longleftrightarrow> (\<forall>i \<in> set is. bounds_of i \<subseteq> S)"
  by (auto simp: bounds_in_def)

lemma bounds_in_simps [simp]:
  "bounds_in P []" "bounds_in P (i # is) \<longleftrightarrow> P (fb_bound (fi_lower i)) \<and> P (fb_bound (fi_upper i)) \<and> bounds_in P is"
  by (auto simp: bounds_in_def)

lemma ranked_list:
  assumes "ranks S r" "bounds_in (\<lambda>e. e \<in> S) is"
  shows "list_all isStrictValid is \<and> sorted_wrt before is \<longleftrightarrow> iv_ok (map (icut r) is)"
    and "x \<in> S \<Longrightarrow> in_intervals x is \<longleftrightarrow> iv_in (4 * int (r x)) (map (icut r) is)"
proof -
  have "sorted_wrt before is \<longleftrightarrow> sorted_wrt (\<lambda>i j. snd (icut r i) \<le> fst (icut r j)) is"
    using assms by (induction "is") (auto simp: ranked_before [OF assms(1)] bounds_in_set)
  moreover have "list_all isStrictValid is \<longleftrightarrow> (\<forall>i \<in> set is. fst (icut r i) < snd (icut r i))"
    using assms by (auto simp: list_all_iff ranked_valid [OF assms(1)] bounds_in_set)
  ultimately show "list_all isStrictValid is \<and> sorted_wrt before is \<longleftrightarrow> iv_ok (map (icut r) is)"
    by (auto simp: iv_ok_def sorted_wrt_map case_prod_beta)
  show "in_intervals x is \<longleftrightarrow> iv_in (4 * int (r x)) (map (icut r) is)" if "x \<in> S"
    using assms that by (auto simp: in_intervals_def iv_in_def case_prod_beta ranked_in [OF assms(1)] bounds_in_set)
qed

text \<open>A property of an operation on intervals follows from its ranks.\<close>

lemma by_ranks:
  assumes "intervals_ok b is" "intervals_ok b js" "ord_ok b (snd x)"
    "\<And>P. bounds_in P is \<Longrightarrow> bounds_in P js \<Longrightarrow> bounds_in P ks"
    "\<And>S r. ranks S r \<Longrightarrow> bounds_in (\<lambda>e. e \<in> S) is \<Longrightarrow> bounds_in (\<lambda>e. e \<in> S) js \<Longrightarrow> iv_ok (map (icut r) is) \<Longrightarrow> iv_ok (map (icut r) js) \<Longrightarrow>
      iv_ok (map (icut r) ks) \<and> (\<forall>n :: nat. iv_in (4 * int n) (map (icut r) ks) \<longleftrightarrow>
        Q (iv_in (4 * int n) (map (icut r) is)) (iv_in (4 * int n) (map (icut r) js)))"
  shows "intervals_ok b ks" "in_intervals x ks \<longleftrightarrow> Q (in_intervals x is) (in_intervals x js)"
proof -
  let ?S = "insert x (\<Union>(bounds_of ` (set is \<union> set js)))"
  have S: "bounds_in (\<lambda>e. e \<in> ?S) is" "bounds_in (\<lambda>e. e \<in> ?S) js" by (auto simp: bounds_in_def)
  have "finite ?S" by simp
  moreover have "ord_ok b (snd y)" if "y \<in> ?S" for y
    using assms(1-3) that unfolding intervals_ok_def bounds_in_def by auto
  ultimately obtain r where r: "ranks ?S r" by (rule ranks_exist)
  note ok = assms(4) [OF S]
  have "iv_ok (map (icut r) is)" "iv_ok (map (icut r) js)"
    using assms(1,2) ranked_list(1) [OF r] S by (simp_all add: intervals_ok_def)
  from assms(5) [OF r S this] have "iv_ok (map (icut r) ks)"
    "\<And>n :: nat. iv_in (4 * int n) (map (icut r) ks) \<longleftrightarrow> Q (iv_in (4 * int n) (map (icut r) is)) (iv_in (4 * int n) (map (icut r) js))" by auto
  then show "intervals_ok b ks" "in_intervals x ks \<longleftrightarrow> Q (in_intervals x is) (in_intervals x js)"
    using ranked_list(1) [OF r ok] ranked_list(2) [OF r ok] ranked_list(2) [OF r S(1)] ranked_list(2) [OF r S(2)]
      assms(4) [of "\<lambda>e. ord_ok b (snd e)"] assms(1,2) by (simp_all add: intervals_ok_def)
qed

section \<open>Difference\<close>

fun idiff :: "(int \<times> int) list \<Rightarrow> (int \<times> int) list \<Rightarrow> (int \<times> int) list" where
  "idiff ((l, u) # is) ((m, v) # js) =
     (if l < m
      then if u \<le> m then (l, u) # idiff is ((m, v) # js)
           else (l, m) # (if u \<le> v then idiff is ((m, v) # js) else idiff ((v, u) # is) js)
      else if v \<le> l then idiff ((l, u) # is) js
      else if u \<le> v then idiff is ((m, v) # js) else idiff ((v, u) # is) js)"
| "idiff is js = is"

lemma iv_in_above: "iv_ok is \<Longrightarrow> \<forall>j \<in> set is. u \<le> fst j \<Longrightarrow> iv_in p is \<Longrightarrow> u < p"
  by (fastforce simp: iv_in_def)

lemma idiff_lower: "\<forall>i \<in> set is. b \<le> fst i \<Longrightarrow> iv_ok is \<Longrightarrow> iv_ok js \<Longrightarrow> \<forall>i \<in> set (idiff is js). b \<le> fst i"
  by (induction "is" js rule: idiff.induct) (simp_all split: if_splits)

lemma idiff_ok: "iv_ok is \<Longrightarrow> iv_ok js \<Longrightarrow> iv_ok (idiff is js)"
proof (induction "is" js rule: idiff.induct)
  case (1 l u "is" m v js)
  have "\<forall>j \<in> set (idiff is ((m, v) # js)). u \<le> fst j" using 1 idiff_lower [of "is" u "(m, v) # js"] by simp
  then have "\<forall>j \<in> set (idiff is ((m, v) # js)). u \<le> fst j \<and> (m < u \<longrightarrow> m \<le> fst j)" by auto
  moreover have "\<forall>j \<in> set (idiff ((v, u) # is) js). m \<le> fst j" if "v < u"
    using "1.prems" that idiff_lower [of "(v, u) # is" m js] by fastforce
  ultimately show ?case using 1 by simp
qed auto

lemma idiff_in:
  assumes "iv_ok is" "iv_ok js" "\<forall>j \<in> set js. fst j \<noteq> p \<and> snd j \<noteq> p"
  shows "iv_in p (idiff is js) \<longleftrightarrow> iv_in p is \<and> \<not> iv_in p js"
  using assms
proof (induction "is" js rule: idiff.induct)
  case (1 l u "is" m v js)
  then have ok: "l < u" "m < v" "p \<noteq> m" "p \<noteq> v" "iv_ok is" "iv_ok js" "\<forall>i \<in> set is. u \<le> fst i" "\<forall>j \<in> set js. v \<le> fst j"
    "iv_ok ((m, v) # js)" "\<forall>j \<in> set js. fst j \<noteq> p \<and> snd j \<noteq> p" by auto
  have up: "u < p" if "iv_in p is" using ok(5,7) that by (rule iv_in_above)
  have vp: "v < p" if "iv_in p js" using ok(6,8) that by (rule iv_in_above)
  have rest: "iv_in p (idiff is ((m, v) # js)) \<longleftrightarrow> iv_in p is \<and> \<not> ((m < p \<and> p < v) \<or> iv_in p js)"
    if "l < m \<and> u \<le> m \<or> l < m \<and> \<not> u \<le> m \<and> u \<le> v \<or> \<not> l < m \<and> \<not> v \<le> l \<and> u \<le> v"
    using "1.IH"(1,2,5) ok(5,9) "1.prems"(3) that by auto
  have tail: "iv_in p (idiff ((v, u) # is) js) \<longleftrightarrow> ((v < p \<and> p < u) \<or> iv_in p is) \<and> \<not> iv_in p js"
    if "l < m \<and> \<not> u \<le> m \<and> \<not> u \<le> v \<or> \<not> l < m \<and> \<not> v \<le> l \<and> \<not> u \<le> v"
    using "1.IH"(3,6) ok(5,6,7,10) that by auto
  have skip: "iv_in p (idiff ((l, u) # is) js) \<longleftrightarrow> ((l < p \<and> p < u) \<or> iv_in p is) \<and> \<not> iv_in p js" if "\<not> l < m" "v \<le> l"
    using "1.IH"(4) ok(1,5,6,7,10) that by auto
  show ?case using ok(1-4) up vp rest tail skip by auto
qed auto

text \<open>What the comparisons of bounds say about their cuts.\<close>

lemma ranked_bounds:
  assumes "ranks S r" "fb_bound a \<in> S" "fb_bound b \<in> S"
  defines "c \<equiv> elem_woCompare (fb_bound a) (fb_bound b) False"
  shows "c < 0 \<or> (c = 0 \<and> fb_inclusive a \<and> \<not> fb_inclusive b) \<longleftrightarrow> lcut r a < lcut r b"
    "c < 0 \<or> (c = 0 \<and> (\<not> fb_inclusive a \<or> fb_inclusive b)) \<longleftrightarrow> ucut r a \<le> ucut r b"
    "c < 0 \<or> (c = 0 \<and> \<not> fb_inclusive a \<and> fb_inclusive b) \<longleftrightarrow> ucut r a < ucut r b"
    "c < 0 \<or> (c = 0 \<and> \<not> fb_inclusive a \<and> \<not> fb_inclusive b) \<longleftrightarrow> ucut r a < lcut r b"
    "c > 0 \<or> (c = 0 \<and> (\<not> fb_inclusive a \<or> \<not> fb_inclusive b)) \<longleftrightarrow> ucut r b \<le> lcut r a"
    "c < 0 \<Longrightarrow> ucut r a < lcut r b" "c > 0 \<Longrightarrow> lcut r b < ucut r a"
    "c = 0 \<Longrightarrow> lcut r b < ucut r a \<longleftrightarrow> fb_inclusive a \<and> fb_inclusive b"
  using assms(1-3) unfolding c_def by (auto simp: ranks_def lcut_def ucut_def)

lemma diff_step:
  assumes "ranks S r" "bounds_of i \<subseteq> S" "bounds_of j \<subseteq> S" "isStrictValid j"
  defines "l \<equiv> lcut r (fi_lower i)" and "u \<equiv> ucut r (fi_upper i)" and "m \<equiv> lcut r (fi_lower j)" and "v \<equiv> ucut r (fi_upper j)"
    and "i' \<equiv> i\<lparr>fi_lower := flipInclusive (fi_upper j)\<rparr>"
  shows "map (icut r) (diff_loop (i # is) (j # js)) =
    (if l < m
     then if u \<le> m then (l, u) # map (icut r) (diff_loop is (j # js))
          else (l, m) # (if u \<le> v then map (icut r) (diff_loop is (j # js)) else map (icut r) (diff_loop (i' # is) js))
     else if v \<le> l then map (icut r) (diff_loop (i # is) js)
     else if u \<le> v then map (icut r) (diff_loop is (j # js)) else map (icut r) (diff_loop (i' # is) js))"
proof -
  have in_S: "fb_bound (fi_lower i) \<in> S" "fb_bound (fi_upper i) \<in> S" "fb_bound (fi_lower j) \<in> S" "fb_bound (fi_upper j) \<in> S"
    using assms(2,3) by auto
  note first = ranked_bounds(1) [OF assms(1) in_S(1,3), folded l_def m_def] and within = ranked_bounds(2) [OF assms(1) in_S(2,4), folded u_def v_def]
    and past = ranked_bounds(5) [OF assms(1) in_S(1,4), folded l_def v_def] and touch = ranked_bounds(6-8) [OF assms(1) in_S(2,3), folded u_def m_def]
  consider "elem_woCompare (fb_bound (fi_upper i)) (fb_bound (fi_lower j)) False < 0" | "elem_woCompare (fb_bound (fi_upper i)) (fb_bound (fi_lower j)) False = 0"
    | "elem_woCompare (fb_bound (fi_upper i)) (fb_bound (fi_lower j)) False > 0" by linarith
  then show ?thesis
  proof cases
    case 1
    then show ?thesis unfolding diff_loop.simps(1) Let_def first within past i'_def using touch(1) by (simp add: icut_def l_def u_def)
  next
    case 2
    then have "r (fb_bound (fi_upper i)) = r (fb_bound (fi_lower j))" using assms(1) in_S by (simp add: ranks_def)
    then have eq: "u = (if fb_inclusive (fi_upper i) then 1 else -1) + (m - (if fb_inclusive (fi_lower j) then -1 else 1))"
      by (simp add: u_def m_def lcut_def ucut_def)
    have "u \<le> v" if "fb_inclusive (fi_upper i)" "fb_inclusive (fi_lower j)"
    proof -
      have "m + 2 \<le> v" using assms(1,4) in_S that by (auto simp: m_def v_def lcut_def ucut_def isStrictValid_def Let_def ranks_def)
      with eq that show ?thesis by simp
    qed
    moreover have "ucut r ((fi_upper i)\<lparr>fb_inclusive := False\<rparr>) = m" if "fb_inclusive (fi_upper i)" "fb_inclusive (fi_lower j)"
      using eq that by (simp add: u_def ucut_def)
    ultimately show ?thesis unfolding diff_loop.simps(1) Let_def first within past i'_def using 2 eq by (auto simp: icut_def l_def [symmetric] u_def [symmetric])
  next
    case 3
    then show ?thesis unfolding diff_loop.simps(1) Let_def first within past i'_def using touch(2) by (simp add: icut_def l_def u_def m_def cut_simps)
  qed
qed

lemma diff_refines:
  assumes "ranks S r" "bounds_in (\<lambda>e. e \<in> S) is" "bounds_in (\<lambda>e. e \<in> S) js" "iv_ok (map (icut r) js)"
  shows "map (icut r) (diff_loop is js) = idiff (map (icut r) is) (map (icut r) js)"
  using assms(2-4)
proof (induction "length is + length js" arbitrary: "is" js rule: less_induct)
  case less
  show ?case
  proof (cases "is = [] \<or> js = []")
    case True
    then show ?thesis by (cases "is") auto
  next
    case False
    then obtain i is' j js' where eq: "is = i # is'" "js = j # js'" by (meson neq_Nil_conv)
    let ?i = "i\<lparr>fi_lower := flipInclusive (fi_upper j)\<rparr>"
    have sub: "bounds_of i \<subseteq> S" "bounds_of j \<subseteq> S" "bounds_of ?i \<subseteq> S" using less.prems eq by (auto simp: flipInclusive_def)
    have "isStrictValid j" using less.prems(3) ranked_valid [OF assms(1) sub(2)] by (simp add: eq iv_ok_def icut_def)
    note step = diff_step [OF assms(1) sub(1,2) this, of is' js']
    have IH: "map (icut r) (diff_loop ks ls) = idiff (map (icut r) ks) (map (icut r) ls)"
      if "(ks, ls) \<in> {(is', j # js'), (i # is', js'), (?i # is', js')}" for ks ls
      using that less.prems sub(3) by (intro less.hyps) (auto simp: eq icut_def)
    have "icut r i = (lcut r (fi_lower i), ucut r (fi_upper i))" "icut r j = (lcut r (fi_lower j), ucut r (fi_upper j))"
      "icut r ?i = (ucut r (fi_upper j), ucut r (fi_upper i))" by (simp_all add: icut_def cut_simps)
    then show ?thesis unfolding eq step using IH [of is' "j # js'"] IH [of "i # is'" js'] IH [of "?i # is'" js'] by simp
  qed
qed

lemma diff_bounds:
  assumes "bounds_in P is" "bounds_in P js"
  shows "bounds_in P (diff_loop is js)"
  using assms
proof (induction "length is + length js" arbitrary: "is" js rule: less_induct)
  case less
  show ?case
  proof (cases "is = [] \<or> js = []")
    case True
    with less.prems show ?thesis by (cases "is") auto
  next
    case False
    then obtain i is' j js' where eq: "is = i # is'" "js = j # js'" by (meson neq_Nil_conv)
    have flip: "P (fb_bound (flipInclusive c)) \<longleftrightarrow> P (fb_bound c)" for c by (simp add: flipInclusive_def)
    have "bounds_in P (diff_loop is' (j # js'))" "bounds_in P (diff_loop (i # is') js')"
      "bounds_in P (diff_loop (i\<lparr>fi_lower := flipInclusive (fi_upper j)\<rparr> # is') js')"
      using less.prems by (auto simp: eq flip intro!: less.hyps)
    with less.prems show ?thesis by (simp add: eq Let_def flip)
  qed
qed

lemma diff_exact:
  assumes "intervals_ok b is" "intervals_ok b js" "ord_ok b (snd x)"
  shows "intervals_ok b (diff_loop is js)" "in_intervals x (diff_loop is js) \<longleftrightarrow> in_intervals x is \<and> \<not> in_intervals x js"
  by (rule by_ranks [OF assms diff_bounds, where Q = "\<lambda>p q. p \<and> \<not> q"];
      simp add: diff_refines idiff_ok idiff_in cut_not_point)+

section \<open>Union\<close>

fun iunion :: "int \<times> int \<Rightarrow> (int \<times> int) list \<Rightarrow> (int \<times> int) list" where
  "iunion t [] = [t]"
| "iunion (l, u) ((m, v) # js) = (if u < m then (l, u) # iunion (m, v) js else iunion (l, max u v) js)"

lemma iunion_exact:
  assumes "fst t < snd t" "\<forall>(l, u) \<in> set js. l < u" "sorted (map fst (t # js))"
  shows "iv_ok (iunion t js)" "\<forall>j \<in> set (iunion t js). fst t \<le> fst j"
    "\<forall>j \<in> set js. fst j \<noteq> p \<and> snd j \<noteq> p \<Longrightarrow> p \<noteq> snd t \<Longrightarrow> iv_in p (iunion t js) \<longleftrightarrow> iv_in p (t # js)"
  using assms
proof (induction t js rule: iunion.induct)
  case (2 l u m v js)
  {
    case 1
    then show ?case using "2.IH"(1,2,4) by (cases "u < m") fastforce+
  next
    case 2
    then show ?case using "2.IH"(2,5) by (cases "u < m") fastforce+
  next
    case 3
    then show ?case using "2.IH"(3,6) by (cases "u < m"; cases "u \<le> v") (auto simp: max_def)
  }
qed (auto simp: case_prod_beta)

lemma union_fold:
  assumes "ranks S r" "bounds_in (\<lambda>e. e \<in> S) (t # zs)"
  shows "map (icut r) (union_done (fold nextOrderedInterval zs \<lparr> rub_tail = Some t, rub_unionIntervals = acc \<rparr>)) =
    map (icut r) acc @ iunion (icut r t) (map (icut r) zs)"
  using assms(2)
proof (induction zs arbitrary: t acc)
  case (Cons z zs)
  have in_S: "fb_bound (fi_upper t) \<in> S" "fb_bound (fi_lower z) \<in> S" "fb_bound (fi_upper z) \<in> S" using Cons.prems by auto
  have disjoint: "handleDisjoint t z \<longleftrightarrow> ucut r (fi_upper t) < lcut r (fi_lower z)"
    unfolding handleDisjoint_def Let_def by (rule ranked_bounds(4) [OF assms(1) in_S(1,2)])
  have extend: "icut r (handleExtend t z) = (lcut r (fi_lower t), max (ucut r (fi_upper t)) (ucut r (fi_upper z)))"
    "bounds_in (\<lambda>e. e \<in> S) (handleExtend t z # zs)"
    unfolding handleExtend_def Let_def ranked_bounds(3) [OF assms(1) in_S(1,3)] using Cons.prems by (auto simp: icut_def)
  show ?case using Cons.IH [of z] Cons.IH [of "handleExtend t z"] extend disjoint Cons.prems
    by (simp add: nextOrderedInterval_def icut_def)
qed (simp add: union_done_def)

lemma union_merge:
  assumes "ranks S r" "bounds_in (\<lambda>e. e \<in> S) is" "bounds_in (\<lambda>e. e \<in> S) js"
    "sorted (map (\<lambda>i. lcut r (fi_lower i)) is)" "sorted (map (\<lambda>i. lcut r (fi_lower i)) js)"
  shows "\<exists>zs. union_loop is js c = fold nextOrderedInterval zs c \<and> set zs = set is \<union> set js \<and> sorted (map (\<lambda>i. lcut r (fi_lower i)) zs)"
  using assms(2-5)
proof (induction "is" js c rule: union_loop.induct)
  case (1 i "is" j js c)
  let ?c = "elem_woCompare (fb_bound (fi_lower i)) (fb_bound (fi_lower j)) False"
  show ?case
  proof (cases "?c < 0 \<or> (?c = 0 \<and> fb_inclusive (fi_lower i))")
    case True
    with 1 obtain zs where zs: "union_loop is (j # js) (nextOrderedInterval i c) = fold nextOrderedInterval zs (nextOrderedInterval i c)"
      "set zs = set is \<union> set (j # js)" "sorted (map (\<lambda>i. lcut r (fi_lower i)) zs)" by auto
    have "lcut r (fi_lower i) \<le> lcut r (fi_lower j)" using True assms(1) "1.prems" by (auto simp: ranks_def lcut_def)
    with zs "1.prems" True show ?thesis by (intro exI [of _ "i # zs"]) (auto simp: Let_def)
  next
    case False
    with 1 obtain zs where zs: "union_loop (i # is) js (nextOrderedInterval j c) = fold nextOrderedInterval zs (nextOrderedInterval j c)"
      "set zs = set (i # is) \<union> set js" "sorted (map (\<lambda>i. lcut r (fi_lower i)) zs)" by auto
    have "lcut r (fi_lower j) \<le> lcut r (fi_lower i)" using False assms(1) "1.prems" by (auto simp: ranks_def lcut_def)
    with zs "1.prems" False show ?thesis by (intro exI [of _ "j # zs"]) (auto simp: Let_def)
  qed
next
  case (2 i "is" c)
  then obtain zs where "union_loop is [] (nextOrderedInterval i c) = fold nextOrderedInterval zs (nextOrderedInterval i c)"
    "set zs = set is" "sorted (map (\<lambda>i. lcut r (fi_lower i)) zs)" by auto
  with 2 show ?case by (intro exI [of _ "i # zs"]) auto
next
  case (3 j js c)
  then obtain zs where "union_loop [] js (nextOrderedInterval j c) = fold nextOrderedInterval zs (nextOrderedInterval j c)"
    "set zs = set js" "sorted (map (\<lambda>i. lcut r (fi_lower i)) zs)" by auto
  with 3 show ?case by (intro exI [of _ "j # zs"]) auto
qed simp

lemma iv_ok_sorted: "iv_ok is \<Longrightarrow> sorted (map fst is)"
proof (induction "is")
  case (Cons i "is")
  obtain l u where "i = (l, u)" by (cases i)
  with Cons show ?case by fastforce
qed simp

lemma bounds_in_append [simp]: "bounds_in P (is @ js) \<longleftrightarrow> bounds_in P is \<and> bounds_in P js"
  by (auto simp: bounds_in_def)

lemma next_bounds:
  "bounds_in P [i] \<Longrightarrow> bounds_in P (union_done c) \<Longrightarrow> bounds_in P (union_done (nextOrderedInterval i c))"
  by (auto simp: nextOrderedInterval_def union_done_def handleExtend_def Let_def split: option.splits)

lemma union_bounds:
  "bounds_in P is \<Longrightarrow> bounds_in P js \<Longrightarrow> bounds_in P (union_done c) \<Longrightarrow> bounds_in P (union_done (union_loop is js c))"
  by (induction "is" js c rule: union_loop.induct) (simp_all add: next_bounds Let_def)

lemma union_exact:
  assumes "intervals_ok b is" "intervals_ok b js" "ord_ok b (snd x)"
  defines "c \<equiv> \<lparr> rub_tail = None, rub_unionIntervals = [] \<rparr>"
  shows "intervals_ok b (union_done (union_loop is js c))"
    "in_intervals x (union_done (union_loop is js c)) \<longleftrightarrow> in_intervals x is \<or> in_intervals x js"
proof -
  have bnd: "bounds_in P (union_done (union_loop is js c))" if "bounds_in P is" "bounds_in P js" for P
    using that by (intro union_bounds) (simp_all add: c_def union_done_def)
  have rk: "iv_ok (map (icut r) (union_done (union_loop is js c))) \<and> (\<forall>n :: nat. iv_in (4 * int n) (map (icut r) (union_done (union_loop is js c))) \<longleftrightarrow>
        iv_in (4 * int n) (map (icut r) is) \<or> iv_in (4 * int n) (map (icut r) js))"
    if a: "ranks S r" "bounds_in (\<lambda>e. e \<in> S) is" "bounds_in (\<lambda>e. e \<in> S) js" "iv_ok (map (icut r) is)" "iv_ok (map (icut r) js)" for S r
  proof -
  from a have srt: "sorted (map (\<lambda>i. lcut r (fi_lower i)) is)" "sorted (map (\<lambda>i. lcut r (fi_lower i)) js)"
    using iv_ok_sorted [of "map (icut r) is"] iv_ok_sorted [of "map (icut r) js"] by (simp_all add: comp_def cut_simps)
  obtain zs where zs: "union_loop is js c = fold nextOrderedInterval zs c" "set zs = set is \<union> set js" "sorted (map (\<lambda>i. lcut r (fi_lower i)) zs)"
    using union_merge [OF a(1-3) srt] by blast
  have valid: "fst (icut r z) < snd (icut r z)" if "z \<in> set zs" for z using a(4,5) zs(2) that by (auto simp: iv_ok_def case_prod_beta)
  have in_zs: "iv_in p (map (icut r) zs) \<longleftrightarrow> iv_in p (map (icut r) is) \<or> iv_in p (map (icut r) js)" for p
    by (auto simp: iv_in_def zs(2) case_prod_beta)
  show ?thesis
  proof (cases zs)
    case Nil
    with zs show ?thesis by (simp add: c_def union_done_def)
  next
    case (Cons t ts)
    have u: "map (icut r) (union_done (union_loop is js c)) = iunion (icut r t) (map (icut r) ts)"
      using union_fold [OF a(1), of t ts "[]"] a(2,3) zs(1,2) Cons by (simp add: nextOrderedInterval_def c_def bounds_in_def) blast
    have pre: "fst (icut r t) < snd (icut r t)" "\<forall>(l, v) \<in> set (map (icut r) ts). l < v" "sorted (map fst (icut r t # map (icut r) ts))"
      using valid zs(3) Cons by (auto simp: comp_def cut_simps case_prod_beta)
    have "iv_in (4 * int n) (iunion (icut r t) (map (icut r) ts)) \<longleftrightarrow> iv_in (4 * int n) (map (icut r) zs)" for n
      using iunion_exact(3) [OF pre, of "4 * int n"] cut_not_point(1,2) [of r] Cons by (simp, metis)
    with iunion_exact(1) [OF pre] show ?thesis by (simp add: u in_zs)
  qed
  qed
  show "intervals_ok b (union_done (union_loop is js c))" by (rule by_ranks(1) [where Q = "(\<or>)", OF assms(1-3) bnd rk])
  show "in_intervals x (union_done (union_loop is js c)) \<longleftrightarrow> in_intervals x is \<or> in_intervals x js"
    by (rule by_ranks(2) [where Q = "(\<or>)", OF assms(1-3) bnd rk])
qed

section \<open>Intersection\<close>

lemma overlap_cut:
  assumes "ranks S r" "bounds_of i \<subseteq> S" "bounds_of j \<subseteq> S" "fieldIntervalOverlap i j = (valid, ov)"
  shows "icut r ov = (max (lcut r (fi_lower i)) (lcut r (fi_lower j)), min (ucut r (fi_upper i)) (ucut r (fi_upper j)))"
    "valid \<longleftrightarrow> max (lcut r (fi_lower i)) (lcut r (fi_lower j)) < min (ucut r (fi_upper i)) (ucut r (fi_upper j))"
    "bounds_of ov \<subseteq> bounds_of i \<union> bounds_of j"
proof -
  have ov: "ov = \<lparr> fi_lower = maxLowerBound (fi_lower i) (fi_lower j), fi_upper = minUpperBound (fi_upper i) (fi_upper j), fi_cached = -1 \<rparr>"
    "valid = isStrictValid ov" using assms(4) by (auto simp: fieldIntervalOverlap_def Let_def)
  show sub: "bounds_of ov \<subseteq> bounds_of i \<union> bounds_of j" by (simp add: ov maxLowerBound_def minUpperBound_def Let_def)
  have "lcut r (maxLowerBound a b) = max (lcut r a) (lcut r b) \<and> ucut r (minUpperBound a b) = min (ucut r a) (ucut r b)"
    if "fb_bound a \<in> S" "fb_bound b \<in> S" for a b
    using assms(1) that by (auto simp: ranks_def maxLowerBound_def minUpperBound_def lcut_def ucut_def Let_def max_def min_def)
  then show c: "icut r ov = (max (lcut r (fi_lower i)) (lcut r (fi_lower j)), min (ucut r (fi_upper i)) (ucut r (fi_upper j)))"
    using assms(2,3) by (simp add: icut_def ov)
  show "valid \<longleftrightarrow> max (lcut r (fi_lower i)) (lcut r (fi_lower j)) < min (ucut r (fi_upper i)) (ucut r (fi_upper j))"
    using ranked_valid [OF assms(1), of ov] sub assms(2,3) unfolding ov(2) c by auto
qed

text \<open>The comparison of upper bounds by name may go either way when the bounds are equal.\<close>

lemma advance_cut:
  assumes "ranks S r" "bounds_of i \<subseteq> S" "bounds_of j \<subseteq> S"
  shows "if fb_equal (fi_upper i) (minUpperBound (fi_upper i) (fi_upper j))
    then ucut r (fi_upper i) \<le> ucut r (fi_upper j) else ucut r (fi_upper j) \<le> ucut r (fi_upper i)"
proof -
  let ?a = "fb_bound (fi_upper i)" and ?b = "fb_bound (fi_upper j)"
  have "elem_woCompare ?a ?a True = 0" using assms(1,2) by (auto simp: ranks_def elem_woCompare_lex)
  moreover have "elem_woCompare ?a ?b False = 0" if "elem_woCompare ?a ?b True = 0" using that by (auto simp: elem_woCompare_lex)
  moreover have "(elem_woCompare ?a ?b False < 0 \<longleftrightarrow> r ?a < r ?b) \<and> (0 < elem_woCompare ?a ?b False \<longleftrightarrow> r ?b < r ?a) \<and> (elem_woCompare ?a ?b False = 0 \<longleftrightarrow> r ?a = r ?b)"
    using assms by (simp add: ranks_def)
  ultimately show ?thesis by (auto simp: fb_equal_def minUpperBound_def ucut_def Let_def)
qed

lemma intersect_bounds: "bounds_in P is \<Longrightarrow> bounds_in P js \<Longrightarrow> bounds_in P (intersect_loop is js)"
  by (induction "is" js rule: intersect_loop.induct)
    (auto simp: Let_def fieldIntervalOverlap_def maxLowerBound_def minUpperBound_def)

lemma intersect_ranked:
  assumes "ranks S r" "bounds_in (\<lambda>e. e \<in> S) is" "bounds_in (\<lambda>e. e \<in> S) js" "iv_ok (map (icut r) is)" "iv_ok (map (icut r) js)"
  shows "iv_ok (map (icut r) (intersect_loop is js)) \<and>
    (\<forall>b. (\<forall>i \<in> set is. b \<le> fst (icut r i)) \<or> (\<forall>j \<in> set js. b \<le> fst (icut r j)) \<longrightarrow> (\<forall>k \<in> set (intersect_loop is js). b \<le> fst (icut r k))) \<and>
    (iv_in p (map (icut r) (intersect_loop is js)) \<longleftrightarrow> iv_in p (map (icut r) is) \<and> iv_in p (map (icut r) js))"
  using assms(2-5)
proof (induction "is" js rule: intersect_loop.induct)
  case (1 i "is" j js)
  obtain valid ov where ov: "fieldIntervalOverlap i j = (valid, ov)" by (cases "fieldIntervalOverlap i j")
  have sub: "bounds_of i \<subseteq> S" "bounds_of j \<subseteq> S" using "1.prems" by auto
  note cut = overlap_cut [OF assms(1) sub ov] and adv = advance_cut [OF assms(1) sub]
  let ?l = "lcut r (fi_lower i)" and ?u = "ucut r (fi_upper i)" and ?m = "lcut r (fi_lower j)" and ?v = "ucut r (fi_upper j)"
  have c: "icut r i = (?l, ?u)" "icut r j = (?m, ?v)" by (simp_all add: icut_def)
  have ok: "?l < ?u" "?m < ?v" "\<forall>i \<in> set is. ?u \<le> fst (icut r i)" "\<forall>j \<in> set js. ?v \<le> fst (icut r j)"
    "iv_ok (map (icut r) is)" "iv_ok (map (icut r) js)" using "1.prems"(3,4) by (auto simp: c)
  have up: "iv_in p (map (icut r) is) \<Longrightarrow> ?u < p" "iv_in p (map (icut r) js) \<Longrightarrow> ?v < p"
    using iv_in_above [OF ok(5), of ?u p] iv_in_above [OF ok(6), of ?v p] ok(3,4) by simp_all
  have pre: "bounds_in (\<lambda>e. e \<in> S) is" "bounds_in (\<lambda>e. e \<in> S) (i # is)" "bounds_in (\<lambda>e. e \<in> S) js" "bounds_in (\<lambda>e. e \<in> S) (j # js)"
    "iv_ok (map (icut r) is)" "iv_ok (map (icut r) (i # is))" "iv_ok (map (icut r) js)" "iv_ok (map (icut r) (j # js))"
    using "1.prems" ok by simp_all
  show ?case
  proof (cases "fb_equal (fi_upper i) (minUpperBound (fi_upper i) (fi_upper j))")
    case True
    let ?rest = "intersect_loop is (j # js)"
    have le: "?u \<le> ?v" using True adv by simp
    note IH = "1.IH"(1) [OF ov [symmetric] refl True pre(1,4,5,8)]
    have low: "\<forall>k \<in> set ?rest. b \<le> fst (icut r k)"
      if "(\<forall>i \<in> set is. b \<le> fst (icut r i)) \<or> (\<forall>j \<in> set (j # js). b \<le> fst (icut r j))" for b using IH that by blast
    have ok_rest: "iv_ok (map (icut r) ?rest)" using IH by blast
    have in_rest: "iv_in p (map (icut r) ?rest) \<longleftrightarrow> iv_in p (map (icut r) is) \<and> (?m < p \<and> p < ?v \<or> iv_in p (map (icut r) js))"
      using IH [THEN conjunct2, THEN conjunct2] by (simp add: c)
    have eq: "intersect_loop (i # is) (j # js) = (if max ?l ?m < ?u then ov # ?rest else ?rest)"
      using True ov cut(2) le by (simp add: Let_def min_def)
    have "\<forall>k \<in> set ?rest. ?u \<le> fst (icut r k)" by (rule low) (use ok(3) in blast)
    then have "iv_ok (map (icut r) (intersect_loop (i # is) (j # js)))" unfolding eq using ok_rest le cut(1) by (simp add: min_def)
    moreover have "\<forall>k \<in> set (intersect_loop (i # is) (j # js)). b \<le> fst (icut r k)"
      if "(\<forall>i \<in> set (i # is). b \<le> fst (icut r i)) \<or> (\<forall>j \<in> set (j # js). b \<le> fst (icut r j))" for b
    proof -
      have "b \<le> max ?l ?m" using that by (auto simp: c)
      moreover have "\<forall>k \<in> set ?rest. b \<le> fst (icut r k)" by (rule low) (use that in auto)
      ultimately show ?thesis unfolding eq by (simp add: cut(1))
    qed
    moreover have "iv_in p (map (icut r) (intersect_loop (i # is) (j # js))) \<longleftrightarrow> iv_in p (map (icut r) (i # is)) \<and> iv_in p (map (icut r) (j # js))"
      unfolding eq using in_rest up le cut(1) by (auto simp: c min_def)
    ultimately show ?thesis by blast
  next
    case False
    let ?rest = "intersect_loop (i # is) js"
    have le: "?v \<le> ?u" using False adv by simp
    note IH = "1.IH"(2) [OF ov [symmetric] refl False pre(2,3,6,7)]
    have low: "\<forall>k \<in> set ?rest. b \<le> fst (icut r k)"
      if "(\<forall>i \<in> set (i # is). b \<le> fst (icut r i)) \<or> (\<forall>j \<in> set js. b \<le> fst (icut r j))" for b using IH that by blast
    have ok_rest: "iv_ok (map (icut r) ?rest)" using IH by blast
    have in_rest: "iv_in p (map (icut r) ?rest) \<longleftrightarrow> (?l < p \<and> p < ?u \<or> iv_in p (map (icut r) is)) \<and> iv_in p (map (icut r) js)"
      using IH [THEN conjunct2, THEN conjunct2] by (simp add: c)
    have eq: "intersect_loop (i # is) (j # js) = (if max ?l ?m < ?v then ov # ?rest else ?rest)"
      using False ov cut(2) le by (simp add: Let_def min_def)
    have "\<forall>k \<in> set ?rest. ?v \<le> fst (icut r k)" by (rule low) (use ok(4) in blast)
    then have "iv_ok (map (icut r) (intersect_loop (i # is) (j # js)))" unfolding eq using ok_rest le cut(1) by (simp add: min_def)
    moreover have "\<forall>k \<in> set (intersect_loop (i # is) (j # js)). b \<le> fst (icut r k)"
      if "(\<forall>i \<in> set (i # is). b \<le> fst (icut r i)) \<or> (\<forall>j \<in> set (j # js). b \<le> fst (icut r j))" for b
    proof -
      have "b \<le> max ?l ?m" using that by (auto simp: c)
      moreover have "\<forall>k \<in> set ?rest. b \<le> fst (icut r k)" by (rule low) (use that in auto)
      ultimately show ?thesis unfolding eq by (simp add: cut(1))
    qed
    moreover have "iv_in p (map (icut r) (intersect_loop (i # is) (j # js))) \<longleftrightarrow> iv_in p (map (icut r) (i # is)) \<and> iv_in p (map (icut r) (j # js))"
      unfolding eq using in_rest up le cut(1) by (auto simp: c min_def)
    ultimately show ?thesis by blast
  qed
qed auto

lemma intersect_exact:
  assumes "intervals_ok b is" "intervals_ok b js" "ord_ok b (snd x)"
  shows "intervals_ok b (intersect_loop is js)" "in_intervals x (intersect_loop is js) \<longleftrightarrow> in_intervals x is \<and> in_intervals x js"
  by (rule by_ranks [OF assms intersect_bounds, where Q = "(\<and>)"]; simp add: intersect_ranked)+

section \<open>Operations on ranges\<close>

definition range_holds :: "bson_elem \<Rightarrow> field_range \<Rightarrow> bool" where
  "range_holds x r \<longleftrightarrow> in_intervals x (fr_intervals r)"

abbreviation field_range_ok :: "bool \<Rightarrow> field_range \<Rightarrow> bool" where
  "field_range_ok b r \<equiv> intervals_ok b (fr_intervals r)"

lemma universal_total: "\<exists>u. universal r = Inr u"
  by (auto simp: universal_def fr_min_def fr_max_def guardE_def)

lemma finish_intervals [simp]: "fr_intervals (finishOperation is other e r) = is"
  by (simp add: finishOperation_def)

lemma subset_sound:
  assumes "field_range_ok b r" "field_range_ok b other" "fr_subset r other" "ord_ok b (snd x)" "range_holds x r"
  shows "range_holds x other"
  using diff_exact(2) [OF assms(1,2,4)] assms(3,5)
  by (auto simp: fr_subset_def fr_empty_def fr_diff_def range_holds_def in_intervals_def)

text \<open>With the same name on all bounds, a universal range has every value but possibly the two extreme ones.\<close>

lemma woCompare_same_name: "fst x = fst y \<Longrightarrow> elem_woCompare x y True = elem_woCompare x y False"
  by (simp add: elem_woCompare_lex strcmp_order.refl)

lemma adjacent_cover_holds:
  assumes "intervals_ok b is" "adjacent_cover is" "\<forall>i \<in> set is. \<forall>e \<in> bounds_of i. fst e = n" "is \<noteq> []"
    "ord_ok b (snd x)" "above_lower (fi_lower (hd is)) x" "below_upper (fi_upper (last is)) x"
  shows "in_intervals x is"
  using assms(1-4,6,7)
proof (induction "is" rule: adjacent_cover.induct)
  case (1 i j "is")
  let ?u = "fb_bound (fi_upper i)" and ?l = "fb_bound (fi_lower j)"
  have ok: "ord_ok b (snd ?u)" "ord_ok b (snd ?l)" using "1.prems"(1) by (auto simp: intervals_ok_def)
  have cov: "fb_inclusive (fi_upper i) \<or> fb_inclusive (fi_lower j)" "\<not> elem_woCompare ?u ?l False < 0" "adjacent_cover (j # is)"
    using "1.prems"(2,3) woCompare_same_name [of ?u ?l] by (auto split: if_splits)
  have "before i j" using "1.prems"(1) by (simp add: intervals_ok_def)
  with cov(2) have eq: "elem_woCompare ?u ?l False = 0" by (auto simp: before_def Let_def)
  have "below_upper (fi_upper i) x \<or> above_lower (fi_lower j) x"
  proof -
    have "sgn (elem_woCompare ?u x False) = sgn (elem_woCompare ?l x False)" using elem_order.eq_cong [OF ok(1,2) assms(5) eq] .
    moreover have "sgn (elem_woCompare ?u x False) = - sgn (elem_woCompare x ?u False)" using elem_order.antisym [OF assms(5) ok(1)] .
    ultimately show ?thesis using cov(1) by (auto simp: below_upper_def above_lower_def sgn_if split: if_splits)
  qed
  then show ?case
  proof
    assume "below_upper (fi_upper i) x"
    with "1.prems"(5) show ?thesis by (simp add: in_intervals_def in_interval_def)
  next
    assume "above_lower (fi_lower j) x"
    moreover have "intervals_ok b (j # is)" "\<forall>i \<in> set (j # is). \<forall>e \<in> bounds_of i. fst e = n" "below_upper (fi_upper (last (j # is))) x"
      using "1.prems" by (simp_all add: intervals_ok_def)
    moreover have "\<not> elem_woCompare ?u ?l True < 0" using cov(2) "1.prems"(3) woCompare_same_name [of ?u ?l] by simp
    ultimately have "in_intervals x (j # is)" using "1.IH" cov by simp
    then show ?thesis by (simp add: in_intervals_def)
  qed
qed (auto simp: in_intervals_def in_interval_def)

text \<open>
  The order of adjacent bounds by name is not their order by value: this range is said to be universal although it
  does not have the string \<open>bc\<close>. It is what remains of all values without the ones above \<open>bb\<close> that start with \<open>b\<close>.
\<close>

definition gap_range :: field_range where
  "gap_range = \<lparr> fr_intervals =
     [\<lparr> fi_lower = \<lparr> fb_bound = ([], MinKeyV), fb_inclusive = True \<rparr>,
        fi_upper = \<lparr> fb_bound = (str ''$gt'', StringV (str ''bb'')), fb_inclusive = True \<rparr>, fi_cached = -1 \<rparr>,
      \<lparr> fi_lower = \<lparr> fb_bound = ([], StringV (str ''c'')), fb_inclusive = True \<rparr>,
        fi_upper = \<lparr> fb_bound = ([], MaxKeyV), fb_inclusive = True \<rparr>, fi_cached = -1 \<rparr>],
     fr_objData = [], fr_special = [], fr_exactMatch = False, fr_elemMatchContext = None \<rparr>"

lemma universal_by_name:
  "field_range_ok True gap_range" "universal gap_range = Inr True" "\<not> range_holds (str ''a'', StringV (str ''bc'')) gap_range"
  by code_simp+

section \<open>Properties\<close>

text \<open>
  An intersection never loses a value of both ranges, in single- and multi-key contexts and whatever the names of the bounds
  make of the test for universality; it fails on no input and has no value that is in neither. When the subset test that decides
  multi-key contexts says yes, every value is kept.
\<close>

lemma intersect_keeps:
  assumes "field_range_ok b r" "field_range_ok b other" "ord_ok b (snd x)"
  shows "\<exists>t. fr_intersect r other singleKey = Inr t \<and> field_range_ok b t \<and>
    (range_holds x r \<and> range_holds x other \<longrightarrow> range_holds x t) \<and> (range_holds x t \<longrightarrow> range_holds x r \<or> range_holds x other)"
proof -
  obtain u where "universal r = Inr u" using universal_total by blast
  then show ?thesis using intersect_exact [OF assms] assms(1,2) by (auto simp: fr_intersect_def range_holds_def Let_def)
qed


definition point_range :: "bson_elem \<Rightarrow> field_range" where
  "point_range e = \<lparr> fr_intervals = [FieldInterval e], fr_objData = [], fr_special = [], fr_exactMatch = True, fr_elemMatchContext = None \<rparr>"


end
