(* ===== verification/QueryRange.thy ===== *)
theory QueryRange
  imports FieldRange BsonObj "HOL-Library.Signed_Division"
begin

text \<open>
  From an expression of a query to the range of values for an index (\<open>db/queryutil.cpp\<close>) and to the test of a single value
  (\<open>db/matcher.cpp\<close>): the operators and their names, the literal prefix of a regular expression, the constructor of
  \<open>FieldRange\<close> with all its operators, \<open>ElementMatcher\<close> and \<open>valuesMatch\<close>. The two answers to the
  same expression are compared at the end.
\<close>

unbundle bit_operations_syntax

section \<open>Operators\<close>

datatype match_op =
  OpEquality | OpLT | OpLTE | OpGTE | OpGT | OpIN | OpNE | OpSIZE | OpALL | OpNIN | OpEXISTS | OpMOD | OpTYPE | OpREGEX |
  OpOPTIONS | OpELEM_MATCH | OpNEAR | OpWITHIN | OpMAX_DISTANCE | OpGEO_INTERSECTS

text \<open>
  The operator that a field name stands for; the code compares single characters. No element is \<open>None\<close>.
\<close>

definition name_op :: "bstr \<Rightarrow> match_op" where
  "name_op name =
     (let fn = cstr name in
      if fn = str ''$gt'' then OpGT
      else if fn = str ''$gte'' then OpGTE
      else if fn = str ''$lt'' then OpLT
      else if fn = str ''$lte'' then OpLTE
      else if fn = str ''$ne'' then OpNE
      else if take 5 fn = str ''$near'' then OpNEAR
      else if fn = str ''$mod'' then OpMOD
      else if fn = str ''$maxDistance'' then OpMAX_DISTANCE
      else if fn = str ''$type'' then OpTYPE
      else if fn = str ''$in'' then OpIN
      else if fn = str ''$nin'' then OpNIN
      else if fn = str ''$all'' then OpALL
      else if fn = str ''$size'' then OpSIZE
      else if fn = str ''$exists'' then OpEXISTS
      else if fn = str ''$elemMatch'' then OpELEM_MATCH
      else if fn = str ''$regex'' then OpREGEX
      else if fn = str ''$options'' then OpOPTIONS
      else if fn = str ''$within'' then OpWITHIN
      else if fn = str ''$geoIntersects'' then OpGEO_INTERSECTS
      else OpEquality)"

definition elem_getGtLtOp :: "bson_elem option \<Rightarrow> match_op" where
  "elem_getGtLtOp e = (case e of None \<Rightarrow> OpEquality | Some (n, _) \<Rightarrow> name_op n)"

definition firstElement :: "bson \<Rightarrow> bson_elem option" where
  "firstElement obj = (case obj of [] \<Rightarrow> None | e # _ \<Rightarrow> Some e)"

definition getGtLtOp :: "bson_value \<Rightarrow> match_op" where
  "getGtLtOp v = (case v of ObjectV obj \<Rightarrow> elem_getGtLtOp (firstElement obj) | _ \<Rightarrow> OpEquality)"

definition get_value :: "bson \<Rightarrow> string \<Rightarrow> bson_value option" where
  "get_value obj name = map_option snd (getField obj (str name))"

fun valuestrsafe :: "bson_value option \<Rightarrow> bstr" where
  "valuestrsafe (Some (StringV s)) = cstr s"
| "valuestrsafe _ = []"

section \<open>The prefix of a regular expression\<close>

text \<open>What follows \<open>\Q\<close>: the characters up to \<open>\E\<close> and the rest after it.\<close>

fun regex_quoted :: "bstr \<Rightarrow> bstr \<times> bstr" where
  "regex_quoted [] = ([], [])"
| "regex_quoted (c # rest) =
     (if c = 0x5C \<and> take 1 rest = str ''E'' then ([], drop 1 rest)
      else let (quoted, rest') = regex_quoted rest in (c # quoted, rest'))"

lemma regex_quoted_length: "length (snd (regex_quoted rest)) \<le> length rest"
  by (induction rest rule: regex_quoted.induct) (auto split: prod.splits)

definition is_char :: "byte \<Rightarrow> string \<Rightarrow> bool" where
  "is_char c cs \<longleftrightarrow> c \<in> set (str cs)"

definition isspace :: "byte \<Rightarrow> bool" where
  "isspace c \<longleftrightarrow> c = 32 \<or> (9 \<le> c \<and> c \<le> 13)"

text \<open>The characters that are read so far are \<open>ss\<close>; the result is the prefix and whether it is the whole expression.\<close>

function regex_loop :: "bool \<Rightarrow> bstr \<Rightarrow> bstr \<Rightarrow> bstr \<times> bool" where
  "regex_loop extended [] ss = (ss, ss \<noteq> [])"
| "regex_loop extended (c # rest) ss =
     (if is_char c ''*?'' then (butlast ss, False)
      else if is_char c ''|'' then ([], False)
      else if c = 0x5C
      then case rest of
             [] \<Rightarrow> (ss, False)
           | d # rest' \<Rightarrow>
               if is_char d ''Q'' then regex_loop extended (snd (regex_quoted rest')) (ss @ fst (regex_quoted rest'))
               else if (65 \<le> d \<and> d \<le> 90) \<or> (97 \<le> d \<and> d \<le> 122) \<or> (48 \<le> d \<and> d \<le> 48) then (ss, False)
               else regex_loop extended rest' (ss @ [d])
      else if is_char c ''^$.[()+{'' then (ss, False)
      else if extended \<and> is_char c ''#'' then (ss, False)
      else if extended \<and> isspace c then regex_loop extended rest ss
      else regex_loop extended rest (ss @ [c]))"
  by pat_completeness auto
termination
proof (relation "measure (\<lambda>(_, rest, _). length rest)")
  fix extended c rest ss d rest'
  assume "rest = (d # rest' :: bstr)"
  then show "((extended, snd (regex_quoted rest'), ss @ fst (regex_quoted rest')), extended, c # rest, ss) \<in> measure (\<lambda>(_, rest, _). length rest)"
    using regex_quoted_length [of rest'] by auto
qed auto

text \<open>The flags: \<open>None\<close> where the index cannot be used, otherwise whether the expression is an extended one.\<close>

fun regex_flags :: "bool \<Rightarrow> bstr \<Rightarrow> bool \<Rightarrow> bool option" where
  "regex_flags multilineOK [] extended = Some extended"
| "regex_flags multilineOK (f # flags) extended =
     (if is_char f ''m'' then if multilineOK then regex_flags multilineOK flags extended else None
      else if is_char f ''x'' then regex_flags multilineOK flags True
      else None)"

definition simpleRegex :: "bstr \<Rightarrow> bstr \<Rightarrow> bstr \<times> bool" where
  "simpleRegex re flags =
     (let start = (if take 2 re = [0x5C, 65] then Some (True, drop 2 re)
                   else if take 1 re = str ''^'' then Some (False, drop 1 re) else None)
      in case start of
           None \<Rightarrow> ([], False)
         | Some (multilineOK, rest) \<Rightarrow>
             (case regex_flags multilineOK flags False of
                None \<Rightarrow> ([], False)
              | Some extended \<Rightarrow> regex_loop extended rest []))"

definition simpleRegex_elem :: "bson_value \<Rightarrow> bstr result" where
  "simpleRegex_elem v =
     (case v of
        RegExV r f \<Rightarrow> Inr (fst (simpleRegex (cstr r) (cstr f)))
      | ObjectV obj \<Rightarrow> Inr (fst (simpleRegex (valuestrsafe (get_value obj ''$regex'')) (valuestrsafe (get_value obj ''$options''))))
      | _ \<Rightarrow> Inl VerifyFailed)"

definition simpleRegexEnd :: "bstr \<Rightarrow> bstr" where
  "simpleRegexEnd re = butlast re @ [last re + 1]"

section \<open>The bounds of a type as values\<close>

definition min_for_type :: "int \<Rightarrow> bson_value result" where
  "min_for_type t =
     (if t = 16 \<or> t = 1 \<or> t = 18 then Inr (DoubleV dbl_min_bits)
      else if t = 14 \<or> t = 2 then Inr (StringV [])
      else if t = 9 then Inr (BoolV True)
      else if t = 17 then Inr (TimestampV 0)
      else if t = 6 then Inr UndefinedV
      else if t = -1 then Inr MinKeyV
      else if t = 127 then Inr MaxKeyV
      else if t = 7 then Inr (OIDV (replicate 12 0))
      else if t = 8 then Inr (BoolV False)
      else if t = 10 then Inr NullV
      else if t = 3 then Inr (ObjectV [])
      else if t = 4 then Inr (ArrayV [])
      else if t = 5 then Inr (BinDataV 0 [])
      else if t = 11 then Inr (RegExV [] [])
      else if t = 12 then Inr (DBRefV [] (replicate 12 0))
      else if t = 13 then Inr (CodeV [])
      else if t = 15 then Inr (CodeWScopeV [] [])
      else Inl (UserAssertion 10061))"

definition max_for_type :: "int \<Rightarrow> bson_value result" where
  "max_for_type t =
     (if t = 16 \<or> t = 1 \<or> t = 18 then Inr (DoubleV dbl_max_bits)
      else if t = 14 \<or> t = 2 then min_for_type 3
      else if t = 9 then Inr (DateV (2 ^ 63 - 1))
      else if t = 17 then Inr (TimestampV (2 ^ 64 - 1))
      else if t = 6 then Inr UndefinedV
      else if t = -1 then Inr MinKeyV
      else if t = 127 then Inr MaxKeyV
      else if t = 7 then Inr (OIDV (replicate 12 0xFF))
      else if t = 8 then Inr (BoolV True)
      else if t = 10 then Inr NullV
      else if t = 3 then min_for_type 4
      else if t = 4 then min_for_type 5
      else if t = 5 then min_for_type 7
      else if t = 11 then min_for_type 12
      else if t = 12 then min_for_type 13
      else if t = 13 then min_for_type 15
      else if t = 15 then min_for_type 127
      else Inl (UserAssertion 14853))"

text \<open>They are the values that \<open>appendMinForType\<close> and \<open>appendMaxForType\<close> write.\<close>

lemma for_type_writes:
  "appendMinForType f t = (case min_for_type t of Inr v \<Rightarrow> appendBuf (enc_elems [(f, v)]) | Inl err \<Rightarrow> (\<lambda>b. Inl err))"
  "appendMaxForType f t = (case max_for_type t of Inr v \<Rightarrow> appendBuf (enc_elems [(f, v)]) | Inl err \<Rightarrow> (\<lambda>b. Inl err))"
  unfolding max_for_type_def appendMaxForType_def appendMinForType_def min_for_type_def by (simp_all add: call_writes del: enc_elems.simps)

lemma for_type_values: "min_for_type (bson_type v) = Inr (min_value v)" "max_for_type (bson_type v) = Inr (max_value v)"
  by (cases v; simp add: min_for_type_def max_for_type_def)+

section \<open>The range of an expression\<close>

definition universal_interval :: field_interval where
  "universal_interval = \<lparr> fi_lower = \<lparr> fb_bound = ([], MinKeyV), fb_inclusive = True \<rparr>,
     fi_upper = \<lparr> fb_bound = ([], MaxKeyV), fb_inclusive = True \<rparr>, fi_cached = -1 \<rparr>"

definition fr_new :: field_range where
  "fr_new = \<lparr> fr_intervals = [], fr_objData = [], fr_special = [], fr_exactMatch = False, fr_elemMatchContext = None \<rparr>"

text \<open>
  The variables of the constructor: the bounds of the first interval, the objects that own memory, the special
  indexes and whether the range is to be bracketed by the type of its bound.
\<close>

record range_vars =
  rv_lower :: bson_elem
  rv_lowerInclusive :: bool
  rv_upper :: bson_elem
  rv_upperInclusive :: bool
  rv_objData :: "bson list"
  rv_special :: special_indices
  rv_optimize :: bool

definition rv_new :: "bool \<Rightarrow> range_vars" where
  "rv_new optimize = \<lparr> rv_lower = ([], MinKeyV), rv_lowerInclusive = True, rv_upper = ([], MaxKeyV), rv_upperInclusive = True,
     rv_objData = [], rv_special = [], rv_optimize = optimize \<rparr>"

definition rv_interval :: "range_vars \<Rightarrow> field_interval" where
  "rv_interval v = \<lparr> fi_lower = \<lparr> fb_bound = rv_lower v, fb_inclusive = rv_lowerInclusive v \<rparr>,
     fi_upper = \<lparr> fb_bound = rv_upper v, fb_inclusive = rv_upperInclusive v \<rparr>, fi_cached = -1 \<rparr>"

definition rv_range :: "range_vars \<Rightarrow> field_interval list \<Rightarrow> bool \<Rightarrow> field_range" where
  "rv_range v others exact = \<lparr> fr_intervals = rv_interval v # others, fr_objData = rv_objData v, fr_special = rv_special v,
     fr_exactMatch = exact, fr_elemMatchContext = None \<rparr>"

definition rv_add_lower :: "bson_elem \<Rightarrow> range_vars \<Rightarrow> range_vars" where
  "rv_add_lower e v = v\<lparr>rv_lower := e, rv_objData := rv_objData v @ [[e]]\<rparr>"

definition rv_add_upper :: "bson_elem \<Rightarrow> range_vars \<Rightarrow> range_vars" where
  "rv_add_upper e v = v\<lparr>rv_upper := e, rv_objData := rv_objData v @ [[e]]\<rparr>"

definition type_bounds :: "int \<Rightarrow> range_vars \<Rightarrow> range_vars result" where
  "type_bounds t v =
     bind_result (min_for_type t) (\<lambda>lo.
     bind_result (max_for_type t) (\<lambda>hi.
       Inr (rv_add_upper ([], hi) (rv_add_lower ([], lo) v))))"

text \<open>A regular expression: the strings with its prefix, or all strings, and the expression itself.\<close>

definition regex_range :: "bson_elem \<Rightarrow> match_op \<Rightarrow> bool \<Rightarrow> field_range result" where
  "regex_range e op isNot =
     bind_result (guardE (op = OpEquality \<or> op = OpREGEX) (UserAssertion 13454)) (\<lambda>_.
       if isNot then Inr (rv_range (rv_new True) [] False)
       else bind_result (simpleRegex_elem (snd e)) (\<lambda>r.
            bind_result (if r \<noteq> []
              then Inr (rv_add_upper ([], StringV (simpleRegexEnd r)) (rv_add_lower ([], StringV r) (rv_new True)))
              else type_bounds 2 (rv_new True)) (\<lambda>v.
              let re = (case snd e of
                          ObjectV orig \<Rightarrow> RegExV (valuestrsafe (get_value orig ''$regex'')) (valuestrsafe (get_value orig ''$options''))
                        | v \<Rightarrow> v)
              in Inr (rv_range (v\<lparr>rv_upperInclusive := False, rv_objData := rv_objData v @ [[([], re)]]\<rparr>) [FieldInterval ([], re)] False))))"

text \<open>The operator within \<open>$not\<close>; \<open>None\<close> where no bound is calculated.\<close>

fun negated_op :: "match_op \<Rightarrow> match_op option" where
  "negated_op OpEquality = None"
| "negated_op OpALL = None"
| "negated_op OpMOD = None"
| "negated_op OpTYPE = None"
| "negated_op OpNE = Some OpEquality"
| "negated_op OpLT = Some OpGTE"
| "negated_op OpLTE = Some OpGT"
| "negated_op OpGT = Some OpLTE"
| "negated_op OpGTE = Some OpLT"
| "negated_op op = Some op"

definition is_elemMatch :: "bson_value \<Rightarrow> bool" where
  "is_elemMatch v = (case v of ObjectV obj \<Rightarrow> elem_getGtLtOp (firstElement obj) = OpELEM_MATCH | _ \<Rightarrow> False)"

fun is_regex :: "bson_value \<Rightarrow> bool" where
  "is_regex (RegExV _ _) = True"
| "is_regex _ = False"

definition all_bounds :: "bson \<Rightarrow> range_vars \<Rightarrow> range_vars" where
  "all_bounds elems v =
     (case find (\<lambda>x. \<not> is_elemMatch (snd x) \<and> \<not> is_regex (snd x)) elems of
        Some x \<Rightarrow> v\<lparr>rv_lower := x, rv_upper := x\<rparr>
      | None \<Rightarrow>
          (case find (\<lambda>s. s \<noteq> []) (map (\<lambda>x. fst (simpleRegex (cstr (fst (regex (snd x)))) (cstr (snd (regex (snd x))))))
                  (filter (\<lambda>x. is_regex (snd x)) elems)) of
             Some s \<Rightarrow> rv_add_upper ([], StringV (simpleRegexEnd s)) (rv_add_lower ([], StringV s) v)
           | None \<Rightarrow> v))"

definition op_bounds :: "bson_elem \<Rightarrow> match_op \<Rightarrow> bool \<Rightarrow> range_vars \<Rightarrow> range_vars result" where
  "op_bounds e op existsSpec v =
     (case op of
        OpEquality \<Rightarrow> Inr (v\<lparr>rv_lower := e, rv_upper := e\<rparr>)
      | OpNE \<Rightarrow> Inr (v\<lparr>rv_upper := e, rv_upperInclusive := False, rv_optimize := False\<rparr>)
      | OpLT \<Rightarrow> Inr (v\<lparr>rv_upper := e, rv_upperInclusive := False\<rparr>)
      | OpLTE \<Rightarrow> Inr (v\<lparr>rv_upper := e\<rparr>)
      | OpGT \<Rightarrow> Inr (v\<lparr>rv_lower := e, rv_lowerInclusive := False\<rparr>)
      | OpGTE \<Rightarrow> Inr (v\<lparr>rv_lower := e\<rparr>)
      | OpALL \<Rightarrow> (case snd e of ArrayV elems \<Rightarrow> Inr (all_bounds elems v) | _ \<Rightarrow> Inl (UserAssertion 10370))
      | OpMOD \<Rightarrow> type_bounds 1 v
      | OpTYPE \<Rightarrow> (case numberInt (snd e) of None \<Rightarrow> Inl UndefinedBehaviour | Some t \<Rightarrow> type_bounds (sint t) v)
      | OpWITHIN \<Rightarrow> Inr (v\<lparr>rv_special := si_add (rv_special v) (str ''2d'') False\<rparr>)
      | OpNEAR \<Rightarrow> Inr (v\<lparr>rv_special := si_add (si_add (rv_special v) (str ''2d'') True) (str ''2dsphere'') True\<rparr>)
      | OpGEO_INTERSECTS \<Rightarrow> Inr (v\<lparr>rv_special := si_add (rv_special v) (str ''2dsphere'') True\<rparr>)
      | OpEXISTS \<Rightarrow> Inr ((if existsSpec then v else v\<lparr>rv_lower := ([], NullV), rv_upper := ([], NullV)\<rparr>)\<lparr>rv_optimize := False\<rparr>)
      | _ \<Rightarrow> Inr v)"

text \<open>\<open>$gt: 5\<close> is bracketed by the greatest number, and so on; a bound of another type is exclusive.\<close>

definition bracket :: "range_vars \<Rightarrow> range_vars result" where
  "bracket v =
     (if \<not> rv_optimize v then Inr v
      else if snd (rv_lower v) \<noteq> MinKeyV \<and> snd (rv_upper v) = MaxKeyV \<and> isSimpleType (snd (rv_lower v))
      then bind_result (max_for_type (bson_type (snd (rv_lower v)))) (\<lambda>hi.
        Inr ((rv_add_upper (fst (rv_lower v), hi) v)\<lparr>rv_upperInclusive :=
          (if canonicalType hi \<noteq> canonicalType (snd (rv_lower v)) then False else rv_upperInclusive v)\<rparr>))
      else if snd (rv_lower v) = MinKeyV \<and> snd (rv_upper v) \<noteq> MaxKeyV \<and> isSimpleType (snd (rv_upper v))
      then bind_result (min_for_type (bson_type (snd (rv_upper v)))) (\<lambda>lo.
        Inr ((rv_add_lower (fst (rv_upper v), lo) v)\<lparr>rv_lowerInclusive :=
          (if canonicalType lo \<noteq> canonicalType (snd (rv_upper v)) then False else rv_lowerInclusive v)\<rparr>))
      else Inr v)"

definition has_regex_field :: "bson_value \<Rightarrow> bool" where
  "has_regex_field v = (case v of ObjectV obj \<Rightarrow> get_value obj ''$regex'' \<noteq> None | _ \<Rightarrow> False)"

definition array_range :: "bson_elem \<Rightarrow> bson \<Rightarrow> field_range" where
  "array_range e elems =
     (let temp = (case firstElement elems of None \<Rightarrow> ([], UndefinedV) | Some t \<Rightarrow> t)
      in fr_new\<lparr>fr_intervals := (if elem_woCompare temp e False < 0 then [FieldInterval temp, FieldInterval e] else [FieldInterval e, FieldInterval temp])\<rparr>)"

definition comparison_range :: "bson_elem \<Rightarrow> match_op \<Rightarrow> bool \<Rightarrow> bool \<Rightarrow> field_range result" where
  "comparison_range e op isNot optimize =
     (let exact = (optimize \<and> \<not> isNot \<and> isSimpleType (snd e) \<and> op \<in> {OpEquality, OpLT, OpLTE, OpGT, OpGTE});
          existsSpec = (op = OpEXISTS \<and> trueValue (snd e))
      in case (if isNot then negated_op op else Some op) of
           None \<Rightarrow> Inr (rv_range (rv_new optimize) [] exact)
         | Some op' \<Rightarrow>
             bind_result (op_bounds e op' (if isNot \<and> op = OpEXISTS then \<not> existsSpec else existsSpec) (rv_new optimize)) (\<lambda>v.
             bind_result (bracket v) (\<lambda>v'.
               Inr (rv_range v' (if op' = OpNE then [\<lparr> fi_lower = \<lparr> fb_bound = e, fb_inclusive = False \<rparr>,
                 fi_upper = \<lparr> fb_bound = ([], MaxKeyV), fb_inclusive = True \<rparr>, fi_cached = -1 \<rparr>] else []) exact))))"

text \<open>Everything but \<open>$in\<close>.\<close>

definition FieldRange_plain :: "bson_elem option \<Rightarrow> bool \<Rightarrow> bool \<Rightarrow> field_range result" where
  "FieldRange_plain elem isNot optimize =
     (case elem of
        None \<Rightarrow> Inr (rv_range (rv_new optimize) [] True)
      | Some e \<Rightarrow>
          (case snd e of
             ArrayV elems \<Rightarrow>
               if elem_getGtLtOp elem = OpEquality then Inr (array_range e elems) else comparison_range e (elem_getGtLtOp elem) isNot optimize
           | v \<Rightarrow>
               if is_regex v \<or> has_regex_field v then regex_range e (elem_getGtLtOp elem) isNot
               else comparison_range e (elem_getGtLtOp elem) isNot optimize))"

text \<open>\<open>$in\<close>: the values in order without duplicates, then the ranges of the regular expressions.\<close>

definition insert_elem :: "bson_elem \<Rightarrow> (bson_elem, unit) omap \<Rightarrow> (bson_elem, unit) omap" where
  "insert_elem e vals = om_insert (\<lambda>l r. elem_woCompare l r False) e () vals"

fun in_values :: "bool \<Rightarrow> bson \<Rightarrow> (bson_elem, unit) omap \<Rightarrow> field_range list \<Rightarrow> bool \<Rightarrow>
    ((bson_elem, unit) omap \<times> field_range list \<times> bool) result" where
  "in_values optimize [] vals regexes exact = Inr (vals, regexes, exact)"
| "in_values optimize (ie # es) vals regexes exact =
     bind_result (guardE (\<not> is_elemMatch (snd ie)) (UserAssertion 15881)) (\<lambda>_.
       if is_regex (snd ie)
       then bind_result (FieldRange_plain (Some ie) False optimize) (\<lambda>r. in_values optimize es vals (regexes @ [r]) False)
       else let vals' = insert_elem ie vals
            in case snd ie of
                 ArrayV elems \<Rightarrow>
                   in_values optimize es (insert_elem (case firstElement elems of None \<Rightarrow> ([], UndefinedV) | Some t \<Rightarrow> t) vals') regexes False
               | NullV \<Rightarrow> in_values optimize es vals' regexes False
               | _ \<Rightarrow> in_values optimize es vals' regexes exact)"

definition FieldRange_make :: "bson_elem option \<Rightarrow> bool \<Rightarrow> bool \<Rightarrow> field_range result" where
  "FieldRange_make elem isNot optimize =
     (case elem of
        Some (n, v) \<Rightarrow>
          if \<not> isNot \<and> \<not> is_regex v \<and> name_op n = OpIN
          then bind_result (guardE (case v of ObjectV _ \<Rightarrow> True | ArrayV _ \<Rightarrow> True | _ \<Rightarrow> False) (UserAssertion 12580)) (\<lambda>_.
               bind_result (in_values optimize (embeddedObject v) [] [] True) (\<lambda>(vals, regexes, exact).
                 Inr (foldl fr_union (fr_new\<lparr>fr_exactMatch := exact, fr_intervals := map (FieldInterval \<circ> fst) vals\<rparr>) regexes)))
          else FieldRange_plain elem isNot optimize
      | None \<Rightarrow> FieldRange_plain elem isNot optimize)"

section \<open>Matching a value\<close>

text \<open>
  \<open>Matcher::valuesMatch\<close>. Whether a compiled expression matches within a string is the argument \<open>partialMatch\<close>; a matcher for
  a part of the query is the expression it is made from.
\<close>

record regex_matcher =
  rm_regex :: bstr
  rm_flags :: bstr
  rm_prefix :: bstr
  rm_partialMatch :: "bstr \<Rightarrow> bool"

record element_matcher =
  em_toMatch :: bson_elem
  em_compareOp :: match_op
  em_isNot :: bool
  em_myset :: "(bson_elem, unit) omap"
  em_myregex :: "regex_matcher list"
  em_mod :: u32
  em_modm :: u32
  em_type :: int
  em_subMatcher :: "bson option"
  em_subMatcherOnPrimitives :: bool
  em_allMatchers :: "bson list"

definition regexMatches :: "regex_matcher \<Rightarrow> bson_value \<Rightarrow> bool" where
  "regexMatches rm v =
     (if bson_type v = 2 \<or> bson_type v = 14
      then if rm_prefix rm = [] then rm_partialMatch rm (cstr (valuestr v))
           else take (length (rm_prefix rm)) (cstr (valuestr v)) = rm_prefix rm
      else case v of
             RegExV r f \<Rightarrow> cstr (rm_regex rm) = cstr r \<and> cstr (rm_flags rm) = cstr f
           | _ \<Rightarrow> False)"

text \<open>The operators of a comparison are bit masks over less, equal and greater.\<close>

fun op_mask :: "match_op \<Rightarrow> int" where
  "op_mask OpEquality = 0" | "op_mask OpLT = 0x1" | "op_mask OpLTE = 0x3" | "op_mask OpGTE = 0x6" | "op_mask OpGT = 0x4" | "op_mask OpIN = 0x8"
| "op_mask OpNE = 0x9" | "op_mask OpSIZE = 0x0A" | "op_mask OpALL = 0x0B" | "op_mask OpNIN = 0x0C" | "op_mask OpEXISTS = 0x0D"
| "op_mask OpMOD = 0x0E" | "op_mask OpTYPE = 0x0F" | "op_mask OpREGEX = 0x10" | "op_mask OpOPTIONS = 0x11" | "op_mask OpELEM_MATCH = 0x12"
| "op_mask OpNEAR = 0x13" | "op_mask OpWITHIN = 0x14" | "op_mask OpMAX_DISTANCE = 0x15" | "op_mask OpGEO_INTERSECTS = 0x16"

definition valuesMatch :: "bson_value \<Rightarrow> bson_elem \<Rightarrow> match_op \<Rightarrow> element_matcher \<Rightarrow> bool result" where
  "valuesMatch l r op bm =
     bind_result (guardE (op \<noteq> OpNE \<and> op \<noteq> OpNIN \<and> op \<noteq> OpELEM_MATCH) VerifyFailed) (\<lambda>_.
       if op = OpEquality then Inr (elem_woCompare ([], l) r False = 0)
       else if op = OpIN \<and> (om_find (\<lambda>x y. elem_woCompare x y False) ([], l) (em_myset bm) \<noteq> None \<or> list_ex (\<lambda>rm. regexMatches rm l) (em_myregex bm))
       then Inr True
       else if op = OpSIZE
       then Inr (case l of ArrayV es \<Rightarrow> dbl_eq (dbl_of_int (int (length es))) (numberDouble (snd r)) | _ \<Rightarrow> False)
       else if op = OpMOD
       then if \<not> isNumber l then Inr False
            else (case numberLong l of
                    None \<Rightarrow> Inl UndefinedBehaviour
                  | Some n \<Rightarrow>
                      if em_mod bm = 0 \<or> (sint n = - (2 ^ 63) \<and> sint (em_mod bm) = -1) then Inl UndefinedBehaviour
                      else Inr (sint n smod sint (em_mod bm) = sint (em_modm bm)))
       else if op = OpTYPE then Inr (em_type bm = bson_type l)
       else if canonicalType l \<noteq> canonicalType (snd r) then Inr False
       else let c = compareElementValues l (snd r);
                c = (if c < -1 then -1 else if c > 1 then 1 else c);
                z = push_bit (nat (c + 1)) (1 :: int)
            in Inr (op_mask op AND z \<noteq> 0))"

text \<open>The matcher of an operator with one operand, and the one of \<open>$in\<close> and the like over the elements of an array.\<close>

definition em_new :: "bson_elem \<Rightarrow> match_op \<Rightarrow> bool \<Rightarrow> element_matcher" where
  "em_new e op isNot = \<lparr> em_toMatch = e, em_compareOp = op, em_isNot = isNot, em_myset = [], em_myregex = [], em_mod = 0, em_modm = 0,
     em_type = 0, em_subMatcher = None, em_subMatcherOnPrimitives = False, em_allMatchers = [] \<rparr>"

definition number_field :: "bson \<Rightarrow> string \<Rightarrow> u32 result" where
  "number_field obj name =
     (case get_value obj name of
        None \<Rightarrow> Inr 0
      | Some v \<Rightarrow> (case numberInt v of None \<Rightarrow> Inl UndefinedBehaviour | Some n \<Rightarrow> Inr n))"

definition ElementMatcher :: "bson_elem \<Rightarrow> match_op \<Rightarrow> bool \<Rightarrow> element_matcher result" where
  "ElementMatcher e op isNot =
     (if op = OpMOD
      then bind_result (guardE (bson_type (snd e) = 3 \<or> bson_type (snd e) = 4) VerifyFailed) (\<lambda>_.
           bind_result (number_field (embeddedObject (snd e)) ''0'') (\<lambda>m.
           bind_result (number_field (embeddedObject (snd e)) ''1'') (\<lambda>mm.
           bind_result (guardE (m \<noteq> 0) (UserAssertion 10073)) (\<lambda>_.
             Inr ((em_new e op isNot)\<lparr>em_mod := m, em_modm := mm\<rparr>)))))
      else if op = OpTYPE
      then (case numberInt (snd e) of None \<Rightarrow> Inl UndefinedBehaviour | Some t \<Rightarrow> Inr ((em_new e op isNot)\<lparr>em_type := sint t\<rparr>))
      else if op = OpELEM_MATCH
      then (case snd e of
              ObjectV x \<Rightarrow>
                if elem_getGtLtOp (firstElement x) = OpEquality \<and> map_option (cstr \<circ> fst) (firstElement x) \<noteq> Some (str ''$not'')
                then Inr ((em_new e op isNot)\<lparr>em_subMatcher := Some x\<rparr>)
                else Inr ((em_new e op isNot)\<lparr>em_subMatcher := Some [([], ObjectV x)], em_subMatcherOnPrimitives := True\<rparr>)
            | _ \<Rightarrow> Inl (UserAssertion 12517))
      else Inr (em_new e op isNot))"

definition MaxPatternSize :: nat where
  "MaxPatternSize = 32764"

fun matcher_set :: "(bstr \<Rightarrow> bstr \<Rightarrow> bstr \<Rightarrow> bool) \<Rightarrow> match_op \<Rightarrow> bson \<Rightarrow> element_matcher \<Rightarrow> element_matcher result" where
  "matcher_set compile op [] em = Inr em"
| "matcher_set compile op (ie # es) em =
     (if op = OpALL \<and> is_elemMatch (snd ie)
      then (case firstElement (embeddedObject (snd ie)) of
              Some (_, ObjectV x) \<Rightarrow> matcher_set compile op es (em\<lparr>em_allMatchers := em_allMatchers em @ [x]\<rparr>)
            | Some (_, ArrayV x) \<Rightarrow> matcher_set compile op es (em\<lparr>em_allMatchers := em_allMatchers em @ [x]\<rparr>)
            | _ \<Rightarrow> Inl (UserAssertion 10065))
      else case snd ie of
             RegExV r f \<Rightarrow>
               bind_result (guardE (length (cstr r) \<le> MaxPatternSize) (UserAssertion 16431)) (\<lambda>_.
                 let (prefix, purePrefix) = simpleRegex (cstr r) (cstr f)
                 in matcher_set compile op es (em\<lparr>em_myregex := em_myregex em @
                      [\<lparr> rm_regex = r, rm_flags = f, rm_prefix = (if purePrefix then prefix else []), rm_partialMatch = compile (cstr r) (cstr f) \<rparr>]\<rparr>))
           | _ \<Rightarrow>
               bind_result (guardE (\<not> is_elemMatch (snd ie)) (UserAssertion 15882)) (\<lambda>_.
                 matcher_set compile op es (em\<lparr>em_myset := insert_elem ie (em_myset em)\<rparr>)))"

definition ElementMatcher_array :: "(bstr \<Rightarrow> bstr \<Rightarrow> bstr \<Rightarrow> bool) \<Rightarrow> bson_elem \<Rightarrow> match_op \<Rightarrow> bson \<Rightarrow> bool \<Rightarrow> element_matcher result" where
  "ElementMatcher_array compile e op array isNot =
     bind_result (matcher_set compile op array (em_new e op isNot)) (\<lambda>em.
     bind_result (guardE (em_allMatchers em = [] \<or> em_myset em = [] \<and> em_myregex em = []) (UserAssertion 13020)) (\<lambda>_. Inr em))"

section \<open>Comparisons\<close>

lemma woCompare_values: "elem_woCompare (n, x) (m, y) False = lex (canonicalType x - canonicalType y) (compareElementValues x y)"
  by (simp add: elem_woCompare_lex)

lemma time_limits: "sint (d :: u64) \<le> 9223372036854775807" "(t :: u64) < 9223372036854775808 \<Longrightarrow> t \<le> 9223372036854775807"
proof -
  show "sint d \<le> 9223372036854775807" using sint_less [of d] by simp
  show "t \<le> 9223372036854775807" if "t < 9223372036854775808" using that by (simp add: word_le_nat_alt word_less_nat_alt)
qed

lemma simple_max:
  assumes "isSimpleType v" "canonicalType x = canonicalType v" "boundable x" "ord_ok b x"
  shows "elem_woCompare (n, x) (m, max_value v) False < 0 \<or>
    canonicalType (max_value v) = canonicalType v \<and> elem_woCompare (n, x) (m, max_value v) False = 0"
proof -
  have "if canonicalType (max_value v) = canonicalType v then elem_woCompare (n, x) (m, max_value v) False \<le> 0
    else elem_woCompare (n, x) (m, max_value v) False < 0"
    using assms number_bounds(2) [of x] time_limits
    by (cases v; (simp; fail)?; cases x; (simp; fail)?) (auto simp: woCompare_values lex_def memcmp_ones icmp_def order.strict_iff_order)
  then show ?thesis by (auto simp: le_less split: if_splits)
qed

lemma simple_min:
  assumes "isSimpleType v" "canonicalType x = canonicalType v" "boundable x" "ord_ok b x"
  shows "elem_woCompare (m, min_value v) (n, x) False < 0 \<or>
    canonicalType (min_value v) = canonicalType v \<and> elem_woCompare (m, min_value v) (n, x) False = 0"
proof -
  have "if canonicalType (min_value v) = canonicalType v then elem_woCompare (m, min_value v) (n, x) False \<le> 0
    else elem_woCompare (m, min_value v) (n, x) False < 0"
    using assms number_bounds(1) [of x]
    by (cases v; (simp; fail)?; cases x; (simp; fail)?) (auto simp: woCompare_values lex_def memcmp_zeros str_cmp_Nil icmp_def)
  then show ?thesis by (auto simp: le_less split: if_splits)
qed

text \<open>Conversely, what lies between a value and the bound of its type has the type.\<close>

lemma embedded_Nil_right: "\<not> woCompare_embedded b [] < 0"
  by (cases b) simp_all

lemma simple_max_type:
  assumes "isSimpleType v" "elem_woCompare (m, v) (n, x) False \<le> 0"
    "elem_woCompare (n, x) (m', max_value v) False < 0 \<or> canonicalType (max_value v) = canonicalType v \<and> elem_woCompare (n, x) (m', max_value v) False = 0"
  shows "canonicalType x = canonicalType v"
  using assms by (cases v; (simp; fail)?; cases x; (simp; fail)?) (auto simp: woCompare_values lex_def embedded_Nil_right split: if_splits)

lemma simple_min_type:
  assumes "isSimpleType v" "elem_woCompare (n, x) (m, v) False \<le> 0"
    "elem_woCompare (m', min_value v) (n, x) False < 0 \<or> canonicalType (min_value v) = canonicalType v \<and> elem_woCompare (m', min_value v) (n, x) False = 0"
  shows "canonicalType x = canonicalType v"
  using assms by (cases v; (simp; fail)?; cases x; (simp; fail)?) (auto simp: woCompare_values lex_def split: if_splits)

fun op_rel :: "match_op \<Rightarrow> int \<Rightarrow> bool" where
  "op_rel OpEquality c = (c = 0)"
| "op_rel OpLT c = (c < 0)"
| "op_rel OpLTE c = (c \<le> 0)"
| "op_rel OpGT c = (c > 0)"
| "op_rel OpGTE c = (c \<ge> 0)"
| "op_rel _ c = False"

lemma sign_clip: "(if c < -1 then -1 else if c > 1 then 1 else c) = (if c < 0 then -1 else if c = 0 then 0 else (1 :: int))"
  by auto

lemma op_mask_rel:
  assumes "op \<in> {OpLT, OpLTE, OpGT, OpGTE}"
  shows "op_mask op AND push_bit (nat ((if c < -1 then -1 else if c > 1 then 1 else c) + 1)) (1 :: int) \<noteq> 0 \<longleftrightarrow> op_rel op c"
  unfolding sign_clip using assms by (cases "c < 0"; cases "c = 0") auto

lemma valuesMatch_rel:
  assumes "op \<in> {OpEquality, OpLT, OpLTE, OpGT, OpGTE}"
  shows "valuesMatch x (n, v) op bm = Inr (canonicalType x = canonicalType v \<and> op_rel op (compareElementValues x v))"
proof (cases "op = OpEquality")
  case True
  then show ?thesis by (auto simp: valuesMatch_def woCompare_values guardE_def)
next
  case False
  with assms op_mask_rel [of op "compareElementValues x v"] show ?thesis by (auto simp: valuesMatch_def Let_def guardE_def)
qed

lemma key_bounds: "elem_woCompare (n, MinKeyV) (m, x) False \<le> 0" "elem_woCompare (m, x) (n, MaxKeyV) False \<le> 0"
  by (cases x; simp add: woCompare_values lex_def)+

lemma rv_holds: "range_holds x (rv_range v others exact) \<longleftrightarrow> in_interval x (rv_interval v) \<or> in_intervals x others"
  by (simp add: range_holds_def rv_range_def in_intervals_def)

lemma in_rv_interval: "in_interval x (rv_interval v) \<longleftrightarrow>
    (elem_woCompare (rv_lower v) x False < 0 \<or> elem_woCompare (rv_lower v) x False = 0 \<and> rv_lowerInclusive v) \<and>
    (elem_woCompare x (rv_upper v) False < 0 \<or> elem_woCompare x (rv_upper v) False = 0 \<and> rv_upperInclusive v)"
  by (simp add: in_interval_def rv_interval_def above_lower_def below_upper_def)

lemmas rv_defs = rv_new_def rv_add_lower_def rv_add_upper_def

lemma gt_sign:
  assumes "ord_ok b (snd x)" "ord_ok b (snd y)"
  shows "elem_woCompare y x False < 0 \<longleftrightarrow> elem_woCompare x y False > 0" "elem_woCompare y x False = 0 \<longleftrightarrow> elem_woCompare x y False = 0"
  using elem_order.antisym [OF assms, of False] by (auto simp: sgn_if split: if_splits)

lemma comparison_holds:
  assumes "op \<in> {OpEquality, OpLT, OpLTE, OpGT, OpGTE}" "comparison_range (n, v) op False optimize = Inr r"
    "ord_ok b v" "ord_ok b x" "boundable x"
  shows "range_holds (m, x) r \<longleftrightarrow>
    (if optimize \<and> isSimpleType v then canonicalType x = canonicalType v \<and> op_rel op (compareElementValues x v)
     else op_rel op (elem_woCompare (m, x) (n, v) False))"
proof -
  let ?c = "elem_woCompare (m, x) (n, v) False"
  have sgn: "elem_woCompare (n, v) (m, x) False < 0 \<longleftrightarrow> ?c > 0" "elem_woCompare (n, v) (m, x) False = 0 \<longleftrightarrow> ?c = 0"
    using gt_sign [of b "(m, x)" "(n, v)"] assms(3,4) by simp_all
  have lo: "elem_woCompare ([], MinKeyV) (m, x) False < 0 \<or> elem_woCompare ([], MinKeyV) (m, x) False = 0"
    "elem_woCompare (m, x) ([], MaxKeyV) False < 0 \<or> elem_woCompare (m, x) ([], MaxKeyV) False = 0"
    using key_bounds(1) [of "[]" m x] key_bounds(2) [of m x "[]"] by auto
  have c: "?c = lex (canonicalType x - canonicalType v) (compareElementValues x v)" by (rule woCompare_values)
  then have same: "?c = compareElementValues x v" if "canonicalType x = canonicalType v" using that by simp
  show ?thesis
  proof (cases "op = OpEquality")
    case True
    then have "r = rv_range ((rv_new optimize)\<lparr>rv_lower := (n, v), rv_upper := (n, v)\<rparr>) [] (optimize \<and> isSimpleType v)"
      using assms(2) by (auto simp: comparison_range_def op_bounds_def bracket_def rv_new_def split: if_splits)
    with True sgn c show ?thesis by (auto simp: rv_holds in_rv_interval rv_new_def in_intervals_def)
  next
    case False
    show ?thesis
    proof (cases "optimize \<and> isSimpleType v")
      case True
      then have v: "v \<noteq> MinKeyV" "v \<noteq> MaxKeyV" by auto
      have r: "r = (if op \<in> {OpGT, OpGTE}
          then rv_range ((rv_add_upper (n, max_value v) (rv_new True))\<lparr>rv_lower := (n, v), rv_lowerInclusive := (op = OpGTE),
                 rv_upperInclusive := (canonicalType (max_value v) = canonicalType v)\<rparr>) [] True
          else rv_range ((rv_add_lower (n, min_value v) (rv_new True))\<lparr>rv_upper := (n, v), rv_upperInclusive := (op = OpLTE),
                 rv_lowerInclusive := (canonicalType (min_value v) = canonicalType v)\<rparr>) [] True)"
        using assms(1,2) False True v by (auto simp: comparison_range_def op_bounds_def bracket_def rv_defs for_type_values)
      show ?thesis
      proof (cases "op \<in> {OpGT, OpGTE}")
        case up: True
        let ?in = "elem_woCompare (m, x) (n, max_value v) False < 0 \<or> elem_woCompare (m, x) (n, max_value v) False = 0 \<and> canonicalType (max_value v) = canonicalType v"
        have "range_holds (m, x) r \<longleftrightarrow> op_rel op ?c \<and> ?in"
          using up sgn by (auto simp: r rv_holds in_rv_interval in_intervals_def rv_defs)
        moreover have "canonicalType x = canonicalType v" if "op_rel op ?c" ?in
          using simple_max_type [of v n m x n] True up sgn that by auto
        moreover have ?in if "canonicalType x = canonicalType v" using simple_max [of v x b m n] True assms(4,5) that by auto
        ultimately show ?thesis using True same by auto
      next
        case down: False
        let ?in = "elem_woCompare (n, min_value v) (m, x) False < 0 \<or> elem_woCompare (n, min_value v) (m, x) False = 0 \<and> canonicalType (min_value v) = canonicalType v"
        have lt: "op \<in> {OpLT, OpLTE}" using down False assms(1) by auto
        then have "range_holds (m, x) r \<longleftrightarrow> op_rel op ?c \<and> ?in"
          by (auto simp: r rv_holds in_rv_interval in_intervals_def rv_defs)
        moreover have "canonicalType x = canonicalType v" if "op_rel op ?c" ?in
          using simple_min_type [of v m x n n] True lt that by auto
        moreover have ?in if "canonicalType x = canonicalType v" using simple_min [of v x b n m] True assms(4,5) that by auto
        ultimately show ?thesis using True same by auto
      qed
    next
      case other: False
      have "r = rv_range (if op \<in> {OpGT, OpGTE} then (rv_new optimize)\<lparr>rv_lower := (n, v), rv_lowerInclusive := (op = OpGTE)\<rparr>
          else (rv_new optimize)\<lparr>rv_upper := (n, v), rv_upperInclusive := (op = OpLTE)\<rparr>) [] False"
        using assms(1,2) False other by (auto simp: comparison_range_def op_bounds_def bracket_def rv_defs split: if_splits)
      with False other assms(1) sgn lo show ?thesis by (auto simp: rv_holds in_rv_interval rv_new_def in_intervals_def)
    qed
  qed
qed

section \<open>Sets of values\<close>

abbreviation vcmp :: "bson_elem \<Rightarrow> bson_elem \<Rightarrow> int" where
  "vcmp \<equiv> \<lambda>l r. elem_woCompare l r False"

interpretation elem_map: ordered_map "\<lambda>e. ord_ok b (snd e)" vcmp for b
  by unfold_locales

abbreviation elems_sorted :: "bool \<Rightarrow> (bson_elem, unit) omap \<Rightarrow> bool" where
  "elems_sorted b m \<equiv> om_sorted (\<lambda>e. ord_ok b (snd e)) vcmp m"

definition has_value :: "bson_elem \<Rightarrow> (bson_elem, unit) omap \<Rightarrow> bool" where
  "has_value x m \<longleftrightarrow> (\<exists>e \<in> set m. vcmp (fst e) x = 0)"

lemma insert_elem_members:
  assumes "elems_sorted b m" "ord_ok b (snd k)"
  shows "elems_sorted b (insert_elem k m)" "ord_ok b (snd x) \<Longrightarrow> has_value x (insert_elem k m) \<longleftrightarrow> vcmp k x = 0 \<or> has_value x m"
  using elem_map.insert_members [OF assms] unfolding insert_elem_def has_value_def by blast+

lemma points_holds:
  assumes "elems_sorted b m" "ord_ok b (snd x)"
  shows "intervals_ok b (map (FieldInterval \<circ> fst) m)" "in_intervals x (map (FieldInterval \<circ> fst) m) \<longleftrightarrow> has_value x m"
proof -
  have refl: "elem_woCompare (fst e) (fst e) False = 0" if "e \<in> set m" for e
    using assms(1) that elem_order.refl [of b "fst e" False] by (auto simp: om_sorted_def)
  have "sorted_wrt before (map (FieldInterval \<circ> fst) m)"
    using assms(1) unfolding om_sorted_def sorted_wrt_map by (auto simp: before_def FieldInterval_def Let_def elim: sorted_wrt_mono_rel [rotated])
  with assms(1) refl show "intervals_ok b (map (FieldInterval \<circ> fst) m)"
    by (auto simp: intervals_ok_def bounds_in_def om_sorted_def list_all_iff isStrictValid_def FieldInterval_def)
  have "in_interval x (FieldInterval (fst e)) \<longleftrightarrow> vcmp (fst e) x = 0" if "e \<in> set m" for e
    using gt_sign [of b x "fst e"] assms that by (auto simp: in_interval_def above_lower_def below_upper_def FieldInterval_def om_sorted_def)
  then show "in_intervals x (map (FieldInterval \<circ> fst) m) \<longleftrightarrow> has_value x m" by (auto simp: in_intervals_def has_value_def)
qed

lemma name_free: "elem_woCompare (n, x) (m, y) False = elem_woCompare (n', x) (m', y) False"
  by (simp add: woCompare_values)

text \<open>The elements of \<open>$in\<close> that the matcher looks for are points of the range; only an array adds a further point.\<close>

lemma in_values_set:
  assumes "in_values optimize es vals regexes exact = Inr (vals', regexes', exact')"
    "matcher_set compile OpIN es em = Inr em'"
    "list_all (\<lambda>e. \<not> is_regex (snd e)) es" "ord_ok_obj b es" "ord_ok b (snd x)"
    "elems_sorted b vals" "elems_sorted b (em_myset em)"
    "has_value x (em_myset em) \<Longrightarrow> has_value x vals" "exact \<Longrightarrow> has_value x vals \<Longrightarrow> has_value x (em_myset em)"
  shows "elems_sorted b vals' \<and> elems_sorted b (em_myset em') \<and> regexes' = regexes \<and> em_myregex em' = em_myregex em \<and>
    (has_value x (em_myset em') \<longrightarrow> has_value x vals') \<and> (exact' \<and> has_value x vals' \<longrightarrow> has_value x (em_myset em'))"
  using assms
proof (induction es arbitrary: vals exact em)
  case (Cons ie es)
  let ?first = "case firstElement (embeddedObject (snd ie)) of None \<Rightarrow> ([], UndefinedV) | Some t \<Rightarrow> t"
  define vals1 where "vals1 = (case snd ie of ArrayV elems \<Rightarrow> insert_elem ?first (insert_elem ie vals) | _ \<Rightarrow> insert_elem ie vals)"
  define exact1 where "exact1 = (case snd ie of ArrayV elems \<Rightarrow> False | NullV \<Rightarrow> False | _ \<Rightarrow> exact)"
  have ie: "\<not> is_regex (snd ie)" "ord_ok b (snd ie)" "list_all (\<lambda>e. \<not> is_regex (snd e)) es" "ord_ok_obj b es"
    using Cons.prems(3,4) by (cases ie; simp)+
  have vals: "in_values optimize es vals1 regexes exact1 = Inr (vals', regexes', exact')"
    using Cons.prems(1) ie(1) unfolding vals1_def exact1_def
    by (cases "snd ie") (simp_all add: guardE_def split: if_splits)
  define em1 where "em1 = em\<lparr>em_myset := insert_elem ie (em_myset em)\<rparr>"
  have em1: "em_myset em1 = insert_elem ie (em_myset em)" "em_myregex em = em_myregex em1" by (simp_all add: em1_def)
  have set: "matcher_set compile OpIN es em1 = Inr em'"
    using Cons.prems(2) ie(1) unfolding em1_def by (cases "snd ie") (simp_all add: guardE_def split: if_splits)
  have first: "ord_ok b (snd ?first)"
    using ie(2) by (cases "embeddedObject (snd ie)") (auto simp: firstElement_def)
  note i = insert_elem_members [OF Cons.prems(6) ie(2)] and s = insert_elem_members [OF Cons.prems(7) ie(2)]
  note f = insert_elem_members [OF i(1) first]
  note x = i(2) [OF Cons.prems(5)] s(2) [OF Cons.prems(5)] f(2) [OF Cons.prems(5)]
  have sorted: "elems_sorted b vals1" using i(1) f(1) unfolding vals1_def by (cases "snd ie") simp_all
  have more_vals: "has_value x (insert_elem ie vals) \<Longrightarrow> has_value x vals1"
    using x(3) unfolding vals1_def by (cases "snd ie") simp_all
  have same: "exact1 \<Longrightarrow> vals1 = insert_elem ie vals \<and> exact"
    unfolding vals1_def exact1_def by (cases "snd ie") simp_all
  show ?case
    unfolding em1(2)
  proof (rule Cons.IH [OF vals set ie(3,4) Cons.prems(5) sorted])
    show "elems_sorted b (em_myset em1)" unfolding em1(1) by (rule s(1))
    show "has_value x vals1" if "has_value x (em_myset em1)"
      using that more_vals x(1,2) Cons.prems(8) unfolding em1(1) by blast
    show "has_value x (em_myset em1)" if "exact1" "has_value x vals1"
      using same [OF that(1)] that(2) Cons.prems(9) unfolding em1(1) x(2) by (auto simp: x(1))
  qed
qed simp

lemma valuesMatch_in:
  assumes "elems_sorted b (em_myset bm)" "em_myregex bm = []" "ord_ok b x"
  shows "valuesMatch x r OpIN bm = Inr (has_value ([], x) (em_myset bm))"
proof -
  have find: "om_find vcmp ([], x) (em_myset bm) \<noteq> None \<longleftrightarrow> has_value ([], x) (em_myset bm)"
    using elem_map.find_none [OF assms(1), of "([], x)"] assms(3) by (auto simp: has_value_def)
  have mask: "op_mask OpIN AND push_bit (nat ((if c < -1 then -1 else if c > 1 then 1 else c) + 1)) (1 :: int) = 0" for c :: int
    unfolding sign_clip by (cases "c < 0"; cases "c = 0") auto
  show ?thesis unfolding valuesMatch_def find using assms(2) mask by (simp add: guardE_def Let_def)
qed

lemma has_value_name: "has_value (m, x) s \<longleftrightarrow> has_value ([], x) s"
  using name_free [of _ _ m x _ "[]"] unfolding has_value_def by (metis prod.collapse)

lemma in_holds:
  assumes "FieldRange_make (Some (n, v)) False optimize = Inr r" "name_op n = OpIN" "\<not> is_regex v"
    "ElementMatcher_array compile (n, v) OpIN (embeddedObject v) False = Inr em"
    "list_all (\<lambda>e. \<not> is_regex (snd e)) (embeddedObject v)" "ord_ok b v" "ord_ok b x"
  shows "\<exists>found. valuesMatch x (n, v) OpIN em = Inr found \<and> (found \<longrightarrow> range_holds (m, x) r) \<and> (fr_exactMatch r \<and> range_holds (m, x) r \<longrightarrow> found)"
proof -
  from assms(1,2,3) obtain vals regexes exact where
    vals: "in_values optimize (embeddedObject v) [] [] True = Inr (vals, regexes, exact)" and
    r: "r = foldl fr_union (fr_new\<lparr>fr_exactMatch := exact, fr_intervals := map (FieldInterval \<circ> fst) vals\<rparr>) regexes"
    by (auto simp: FieldRange_make_def guardE_def bind_result_eq_Inr split: if_splits prod.splits)
  from assms(4) have em: "matcher_set compile OpIN (embeddedObject v) (em_new (n, v) OpIN False) = Inr em"
    by (auto simp: ElementMatcher_array_def guardE_def bind_result_eq_Inr split: if_splits)
  have "elems_sorted b vals \<and> elems_sorted b (em_myset em) \<and> regexes = [] \<and> em_myregex em = em_myregex (em_new (n, v) OpIN False) \<and>
      (has_value ([], x) (em_myset em) \<longrightarrow> has_value ([], x) vals) \<and> (exact \<and> has_value ([], x) vals \<longrightarrow> has_value ([], x) (em_myset em))"
    by (rule in_values_set [OF vals em assms(5)]) (use assms(6,7) in \<open>auto simp: em_new_def om_sorted_def has_value_def\<close>)
  then have f: "elems_sorted b vals" "elems_sorted b (em_myset em)" "regexes = []" "em_myregex em = []"
    "has_value ([], x) (em_myset em) \<longrightarrow> has_value ([], x) vals" "exact \<and> has_value ([], x) vals \<longrightarrow> has_value ([], x) (em_myset em)"
    by (simp_all add: em_new_def)
  have "range_holds (m, x) r \<longleftrightarrow> has_value (m, x) vals" "fr_exactMatch r \<longleftrightarrow> exact"
    using points_holds(2) [OF f(1), of "(m, x)"] assms(7) f(3) by (simp_all add: r range_holds_def fr_new_def)
  then show ?thesis using f(5,6) valuesMatch_in [OF f(2,4) assms(7)] has_value_name [of m x vals] by simp
qed

text \<open>\<open>$type\<close> and \<open>$mod\<close>: the values of the type lie between its bounds; \<open>$size\<close> is not bounded.\<close>

lemma type_holds:
  assumes "comparison_range (n, v) op False optimize = Inr r" "op \<in> {OpSIZE, OpMOD, OpTYPE}" "valuesMatch x (n, v) op em = Inr True"
    "op = OpTYPE \<Longrightarrow> map_option sint (numberInt v) = Some (em_type em)" "boundable x"
  shows "range_holds (m, x) r"
proof -
  have keys: "elem_woCompare ([], MinKeyV) (m, x) False \<le> 0" "elem_woCompare (m, x) ([], MaxKeyV) False \<le> 0"
    by (rule key_bounds)+
  show ?thesis
  proof (cases "op = OpSIZE")
    case True
    then have "r = rv_range (rv_new optimize) [] False"
      using assms(1) by (auto simp: comparison_range_def op_bounds_def bracket_def rv_new_def split: if_splits)
    with keys show ?thesis by (auto simp: rv_holds in_rv_interval rv_new_def)
  next
    case False
    define t where "t = (if op = OpMOD then DoubleV 0 else x)"
    have x: "op = OpMOD \<and> isNumber x \<or> op = OpTYPE \<and> em_type em = bson_type x"
      using assms(2,3) False by (auto simp: valuesMatch_def guardE_def split: if_splits)
    have "r = rv_range (rv_add_upper ([], max_value t) (rv_add_lower ([], min_value t) (rv_new optimize))) [] False"
      using x assms(1,2,4) unfolding t_def
      by (cases x) (auto simp: comparison_range_def op_bounds_def type_bounds_def for_type_values bracket_def rv_defs
          min_for_type_def max_for_type_def split: if_splits option.splits)
    moreover have "elem_woCompare ([], min_value t) (m, x) False \<le> 0" "elem_woCompare (m, x) ([], max_value t) False \<le> 0"
      using x min_value_le [OF assms(5), of "[]" False] max_value_ge [OF assms(5), of "[]" False] number_bounds [of x] assms(5)
      unfolding t_def by (cases x; auto simp: woCompare_values)+
    ultimately show ?thesis by (auto simp: rv_holds in_rv_interval rv_defs)
  qed
qed

section \<open>The range holds what the expression matches\<close>

lemma plain_range:
  assumes "FieldRange_make (Some (n, v)) False optimize = Inr r" "name_op n \<noteq> OpIN" "\<not> is_regex v" "\<not> has_regex_field v"
  shows "r = array_range (n, v) (embeddedObject v) \<and> name_op n = OpEquality \<or> comparison_range (n, v) (name_op n) False optimize = Inr r"
  using assms by (cases v) (auto simp: FieldRange_make_def FieldRange_plain_def elem_getGtLtOp_def split: if_splits)

lemma array_range_holds: "elem_woCompare (m, x) e False = 0 \<Longrightarrow> elem_woCompare e (m, x) False = 0 \<Longrightarrow> range_holds (m, x) (array_range e elems)"
  by (auto simp: range_holds_def array_range_def Let_def in_intervals_def in_interval_def FieldInterval_def above_lower_def below_upper_def)

lemma exact_cases:
  assumes "comparison_range (n, v) op False optimize = Inr r"
  shows "fr_exactMatch r \<longleftrightarrow> optimize \<and> isSimpleType v \<and> op \<in> {OpEquality, OpLT, OpLTE, OpGT, OpGTE}"
  using assms by (auto simp: comparison_range_def Let_def bind_result_eq_Inr rv_range_def)

definition single_ops :: "match_op set" where
  "single_ops = {OpEquality, OpLT, OpLTE, OpGT, OpGTE, OpIN, OpSIZE, OpMOD, OpTYPE}"

text \<open>The matcher that \<open>Matcher\<close> makes for an operator.\<close>

definition matcher_for :: "(bstr \<Rightarrow> bstr \<Rightarrow> bstr \<Rightarrow> bool) \<Rightarrow> bson_elem \<Rightarrow> element_matcher result" where
  "matcher_for compile e =
     (if name_op (fst e) = OpIN then ElementMatcher_array compile e OpIN (embeddedObject (snd e)) False
      else ElementMatcher e (name_op (fst e)) False)"


definition in_list :: bson_elem where
  "in_list = (str ''$in'', ArrayV [(str ''0'', IntV 7), (str ''1'', StringV (str ''b''))])"

lemma operator_names: "name_op (str ''$in'') = OpIN" "name_op (str ''$gt'') = OpGT"
  by code_simp+


text \<open>
  The range of \<open>$gt: 5\<close> says that it is exact, but ends with the greatest finite number, so it leaves out an infinity that matches.
  The range of \<open>$not: {$gt: 5}\<close> is bracketed by the numbers as well and leaves out a string, which does not match \<open>$gt: 5\<close>.
\<close>

definition gt_five :: bson_elem where
  "gt_five = (str ''$gt'', IntV 5)"

lemmas gt_five_range = gt_five_def FieldRange_make_def FieldRange_plain_def operator_names elem_getGtLtOp_def has_regex_field_def
  comparison_range_def op_bounds_def bracket_def rv_defs max_for_type_def min_for_type_def

lemma range_without_infinity:
  "\<exists>r. FieldRange_make (Some gt_five) False True = Inr r \<and> fr_exactMatch r \<and> \<not> range_holds ([], DoubleV 0x7FF0000000000000) r \<and>
     valuesMatch (DoubleV 0x7FF0000000000000) gt_five OpGT (em_new gt_five OpGT False) = Inr True"
proof -
  have "dbl_of_bits 0x7FF0000000000000 = PosInf" by (simp add: dbl_of_bits_def)
  then show ?thesis
    by (simp add: gt_five_range rv_holds in_rv_interval woCompare_values lex_def dbl_of_max_bits valuesMatch_rel dbl_cmp_def dbl_eq_def dbl_of_int_def
      rv_range_def range_holds_def in_intervals_def)
qed

lemma negation_bracketed:
  "\<exists>r. FieldRange_make (Some gt_five) True True = Inr r \<and> \<not> range_holds ([], StringV (str ''s'')) r \<and>
     valuesMatch (StringV (str ''s'')) gt_five OpGT (em_new gt_five OpGT False) = Inr False"
  by (simp add: gt_five_range rv_holds in_rv_interval in_intervals_def woCompare_values lex_def valuesMatch_rel)

text \<open>
  The prefix of an expression. The first is what the code means; after it an optional character that is kept because of \<open>{0,1}\<close>, and an octal
  escape that is read as digits.
\<close>

lemma simpleRegex_prefixes:
  "simpleRegex (str ''^abc?d'') [] = (str ''ab'', False)"
  "simpleRegex (str ''^abc{0,1}d'') [] = (str ''abc'', False)"
  "simpleRegex (str ''^a'' @ [0x5C] @ str ''101'') [] = (str ''a101'', True)"
  by code_simp+

end
