(* ===== verification/Spec2Isabelle.thy ===== *)
theory Spec2Isabelle
  imports GtidProtocol QLock BsonObj KeyV1 BsonValidate ShardChunks Balancer QueryRange
begin

text \<open>
  A verification of the core of the TokuMX server (the code under \<open>src/src/mongo\<close>; the
  paths below are relative to it).

  TokuMX is a document database: documents are BSON objects, they are kept in fractal trees under
  keys packed from their fields, the members of a replica set agree on an order of transactions
  through global transaction ids, a process is guarded by one global lock with four modes, and a
  collection is spread over shards in chunks of its key space. The development has one theory
  for each of these parts, in this order.

  \<^bold>\<open>Shared.\<close> \<open>Prelude\<close> has the result type: every \<open>uassert\<close>, \<open>massert\<close>,
  \<open>verify\<close> and fatal assertion of the code is a value of type \<open>failure\<close>, with the number the
  code raises, and \<open>bind_result\<close> sequences calls that may fail. \<open>Comparators\<close> is about functions that
  return a negative, zero or positive number: the locale \<open>three_way\<close> states what makes one an
  order on a domain, closed under lexicographic products and pulled back along functions; the
  order of BSON objects and the order of strings are instances of it. \<open>OrdMap\<close> models \<open>std::map\<close> with
  such a comparison as a list sorted by it, and proves in the locale \<open>ordered_map\<close> what
  \<open>lower_bound\<close>, \<open>upper_bound\<close>, stepping back from them, insertion and erasing of ranges do to maps whose
  entries are disjoint ranges. The maps of the sharding code are its instances.

  \<^bold>\<open>Transaction ids\<close> (\<open>db/gtid.cpp\<close>, \<open>db/gtid.h\<close>). \<open>Gtid\<close> has the id, its comparison and its sixteen
  bytes, and the \<open>GTIDManager\<close> as a record with one function for each method; a debug
  assertion is a predicate of its own. \<open>GtidProtocol\<close> has the calls a member of a replica set makes on it, as a
  primary, as a secondary and when it changes its role, as a step relation, and proves by
  induction on runs that all debug assertions hold, that ids only grow, and that the minimum live id is a
  safe bound for readers of the oplog. The mutex of the manager makes each method one step.

  \<^bold>\<open>The global lock\<close> (\<open>util/concurrency/qlock.h\<close>). \<open>QLock\<close> has the counters of the lock, one function for each
  operation and the notices each sends to its condition variables. The threads are a step
  relation: a thread calls, waits, is woken by a notice or without one, times out, and
  returns. Proved for every interleaving: modes that exclude each other are not held
  together, no fatal assertion fires, and a call that enables a waiter also signals it.

  \<^bold>\<open>BSON.\<close> \<open>Double\<close> gives 64-bit patterns their values, which are exact rational numbers, and the conversions
  from and to integers (outside the range of the target a cast is undefined and has no value). \<open>Bson\<close>
  has the values a document may have and the accessors of \<open>bson/bsonelement.h\<close>; \<open>BsonCompare\<close> the
  comparison of \<open>db/jsobj.cpp\<close> with the two ways to give it an order of fields, and where it is an
  order; \<open>BsonBuilder\<close> the growing buffer and the appends of \<open>bson/util/builder.h\<close> and
  \<open>bson/bsonobjbuilder.h\<close> on raw bytes, refined to the layout of the elements appended; \<open>BsonObj\<close> access by
  dotted names, objects made from others, checks before storage, sort keys and the bounds of a
  type; \<open>BsonValidate\<close> the validation of bytes from the network (\<open>bson/bson_validate.cpp\<close>) with its explicit stack.

  \<^bold>\<open>Index keys\<close> (\<open>db/storage/key.cpp\<close>, \<open>db/storage/key.h\<close>). \<open>KeyV1\<close> has the packed form of keys with its
  fallback to BSON, and proves that decoding inverts it and that comparing bytes agrees with comparing
  documents where integers keep within the 53 bits of a double.

  \<^bold>\<open>Sharding.\<close> \<open>ChunkVersion\<close> has the versions of \<open>s/chunk_version.h\<close> and their BSON forms. \<open>ShardKey\<close> has key patterns and
  shard keys (\<open>db/keypattern.cpp\<close>, \<open>s/shardkey.cpp\<close>). \<open>ConfigDiff\<close> has the application of changed chunk
  documents to a map of ranges (\<open>s/chunk_diff.hpp\<close>). \<open>ShardChunks\<close> has the chunks a shard owns
  (\<open>s/d_chunk_manager.cpp\<close>): loading them through \<open>ConfigDiff\<close>, looking up documents, and the managers that
  migrations and splits install. \<open>Balancer\<close> has the policy that suggests migrations (\<open>s/balancer_policy.cpp\<close>). The
  theorems relate each of them to the set of points of the key space its ranges contain.

  \<^bold>\<open>How code is translated.\<close> A class is a record and a method a function on it that returns the
  new record; a method that may fail has a result type. Loops are recursive functions,
  named after the function with what the loop goes over. Integers whose width matters are words; a size or
  an index that the code keeps below its limits is a natural number. Strings are lists of bytes, since a
  \<open>StringData\<close> may have zeros inside it and some of the code stops at the first one. Logging and text
  output are left out throughout.

  \<^bold>\<open>Bounds and termination.\<close> Every function terminates by structural recursion or a measure, with one exception:
  the validator may run forever, so its loop is a partial function whose value is \<open>None\<close> then; it is proved
  to return on encodings of documents, and an input on which it does not return is shown. No
  fuel is used. Bounds in hypotheses are those of the types of the code: 2 GB buffers, fewer than
  $2^{31}$ chunks, 53-bit integers where doubles are compared with them.

  \<^bold>\<open>Arguments of the model.\<close> The hash of hashed keys, the documents the config server answers with, the adapters of the diff tracker,
  fresh object ids and the outcome of \<open>random_shuffle\<close> are arguments, and the theorems hold for
  all of them.

  \<^bold>\<open>Not modelled.\<close> The fractal tree library, and with it cursors, collections, transactions and the oplog on
  disk, is not part of the repository; query matching, query plans, aggregation and write operations run on
  its cursors. Elections, heartbeats, migration and the commands of the shards and of \<open>mongos\<close> are
  exchanges of messages over the network; the state they change on this server is modelled where it is in a
  class of its own. Authentication, start-up, the shell, tools, drivers and scripting are
  independent of the parts above.
\<close>

end
